(* ===== verification/Prelude.thy ===== *)
theory Prelude
  imports Main "HOL-Library.Char_ord" "HOL-Library.List_Lexorder"
begin

text \<open>
  The vocabulary every other theory shares: Python exceptions as values, the
  built-in operations on \<open>str\<close> the program uses, insertion-ordered
  dictionaries, and the collections of simplification rules the component
  proofs draw on.

  A Python \<open>str\<close> is a \<^typ>\<open>string\<close>: the model ranges over strings whose
  code points are below 256, one \<^typ>\<open>char\<close> per code point, so that
  \<open>len\<close>, slicing, \<open>lower\<close>, \<open>strip\<close> and \<open>splitlines\<close> are exact. The two
  code points above 255 that occur in string literals of the source (the long
  dash and the arrow) are written with one stand-in character each, which
  keeps every length exact.
\<close>

named_theorems str_simps
named_theorems dict_simps
named_theorems frame_simps

section \<open>Exceptions as values\<close>

datatype exn_class =
    ValueError | JSONDecodeError | TypeError | KeyError | AttributeError | IndexError
  | OverflowError | AgentError | PermissionError | ConfigurationError | RuntimeError | TimeoutError
  | JWTError | WebSocketDisconnect | OtherError

text \<open>An exception carries its class and the text \<open>str(exc)\<close> gives.\<close>

datatype pyexn = Exn (exn_class: exn_class) (exn_str: string)

type_synonym 'a result = "pyexn + 'a"

text \<open>\<open>json.JSONDecodeError\<close> is a subclass of \<open>ValueError\<close>.\<close>

definition is_ValueError :: "pyexn \<Rightarrow> bool" where
  "is_ValueError e \<longleftrightarrow> exn_class e = ValueError \<or> exn_class e = JSONDecodeError"

definition rbind :: "'a result \<Rightarrow> ('a \<Rightarrow> 'b result) \<Rightarrow> 'b result" where
  "rbind r f = (case r of Inl e \<Rightarrow> Inl e | Inr x \<Rightarrow> f x)"

lemma rbind_simps [simp]: "rbind (Inl e) f = Inl e" "rbind (Inr x) f = f x"
  by (simp_all add: rbind_def)

lemma rbind_eq_Inr: "rbind r f = Inr y \<longleftrightarrow> (\<exists>x. r = Inr x \<and> f x = Inr y)"
  by (cases r) auto

lemma rbind_eq_Inl: "rbind r f = Inl e \<longleftrightarrow> r = Inl e \<or> (\<exists>x. r = Inr x \<and> f x = Inl e)"
  by (cases r) auto

text \<open>A loop whose body may raise: the first exception ends it.\<close>

fun rmap :: "('a \<Rightarrow> 'b result) \<Rightarrow> 'a list \<Rightarrow> 'b list result" where
  "rmap f [] = Inr []"
| "rmap f (x # xs) = rbind (f x) (\<lambda>y. rbind (rmap f xs) (\<lambda>ys. Inr (y # ys)))"

lemma rmap_eq_Inr: "rmap f xs = Inr ys \<longleftrightarrow> list_all2 (\<lambda>x y. f x = Inr y) xs ys"
  by (induction xs arbitrary: ys) (auto simp: rbind_eq_Inr list_all2_Cons1)

lemma rmap_Inr_map: "(\<And>x. x \<in> set xs \<Longrightarrow> f x = Inr (g x)) \<Longrightarrow> rmap f xs = Inr (map g xs)"
  by (induction xs) auto

section \<open>Strings\<close>

definition code :: "char \<Rightarrow> nat" where
  "code c = of_char c"

text \<open>The long dash and the arrow of the source's literals.\<close>

definition dash :: string where "dash = [CHR 0x97]"
definition rarrow :: string where "rarrow = [CHR 0xBB]"

definition nl :: string where "nl = [CHR 0x0A]"

definition startswith :: "string \<Rightarrow> string \<Rightarrow> bool" where
  "startswith s p \<longleftrightarrow> take (length p) s = p"

text \<open>\<open>p in s\<close>: the substring test.\<close>

fun contains :: "string \<Rightarrow> string \<Rightarrow> bool" where
  "contains p [] = (p = [])"
| "contains p (c # s) = (startswith (c # s) p \<or> contains p s)"

text \<open>\<open>sep.join(parts)\<close>\<close>

fun join :: "string \<Rightarrow> string list \<Rightarrow> string" where
  "join sep [] = []"
| "join sep [x] = x"
| "join sep (x # y # xs) = x @ sep @ join sep (y # xs)"

text \<open>The characters \<open>str.isspace\<close> accepts, those \<open>splitlines\<close> breaks at.\<close>

definition is_space :: "char \<Rightarrow> bool" where
  "is_space c \<longleftrightarrow> (let n = code c in
     9 \<le> n \<and> n \<le> 13 \<or> 28 \<le> n \<and> n \<le> 32 \<or> n = 133 \<or> n = 160)"

definition is_linebreak :: "char \<Rightarrow> bool" where
  "is_linebreak c \<longleftrightarrow> (let n = code c in
     10 \<le> n \<and> n \<le> 13 \<or> 28 \<le> n \<and> n \<le> 30 \<or> n = 133)"

definition lstrip :: "string \<Rightarrow> string" where
  "lstrip s = dropWhile is_space s"

definition strip :: "string \<Rightarrow> string" where
  "strip s = rev (dropWhile is_space (rev (lstrip s)))"

fun splitlines_aux :: "string \<Rightarrow> string \<Rightarrow> string list" where
  "splitlines_aux cur [] = (if cur = [] then [] else [rev cur])"
| "splitlines_aux cur [c] = (if is_linebreak c then [rev cur] else [rev (c # cur)])"
| "splitlines_aux cur (c # d # s) =
     (if code c = 13 \<and> code d = 10 then rev cur # splitlines_aux [] s
      else if is_linebreak c then rev cur # splitlines_aux [] (d # s)
      else splitlines_aux (c # cur) (d # s))"

definition splitlines :: "string \<Rightarrow> string list" where
  "splitlines s = splitlines_aux [] s"

definition lower_char :: "char \<Rightarrow> char" where
  "lower_char c = (let n = code c in
     if 65 \<le> n \<and> n \<le> 90 \<or> 192 \<le> n \<and> n \<le> 222 \<and> n \<noteq> 215 then char_of (n + 32) else c)"

definition lower :: "string \<Rightarrow> string" where
  "lower s = map lower_char s"

text \<open>
  \<open>str.upper\<close>; the sharp s becomes two letters. The micro sign and the
  y with diaeresis, whose capitals lie above code point 255, stay as they are.
\<close>

definition upper_char :: "char \<Rightarrow> string" where
  "upper_char c = (let n = code c in
     if 97 \<le> n \<and> n \<le> 122 \<or> 224 \<le> n \<and> n \<le> 254 \<and> n \<noteq> 247 then [char_of (n - 32)]
     else if n = 223 then ''SS'' else [c])"

definition upper :: "string \<Rightarrow> string" where
  "upper s = concat (map upper_char s)"

lemma int_div_less_iff: "0 < b \<Longrightarrow> n div b < m \<longleftrightarrow> n < m * b" for b n m :: int
proof -
  assume b: "0 < b"
  have "m \<le> n div b \<longleftrightarrow> m * b \<le> n"
  proof
    assume "m \<le> n div b"
    then have "m * b \<le> n div b * b" using b by simp
    also have "\<dots> \<le> n" using b pos_mod_sign [OF b, of n] div_mult_mod_eq [of n b] by linarith
    finally show "m * b \<le> n" .
  next
    assume "m * b \<le> n"
    then have "m * b div b \<le> n div b" using b by (rule zdiv_mono1)
    with b show "m \<le> n div b" by simp
  qed
  then show ?thesis by linarith
qed

text \<open>Decimal digits of a number.\<close>

definition digit_char :: "nat \<Rightarrow> char" where
  "digit_char d = char_of (48 + d)"

fun str_of_digits :: "int \<Rightarrow> string" where
  "str_of_digits n =
     (if n < 10 then [digit_char (nat n)] else str_of_digits (n div 10) @ [digit_char (nat (n mod 10))])"

declare str_of_digits.simps [simp del]

definition str_of_int :: "int \<Rightarrow> string" where
  "str_of_int i = (if i < 0 then ''-'' @ str_of_digits (- i) else str_of_digits i)"

definition str_of_nat :: "nat \<Rightarrow> string" where
  "str_of_nat n = str_of_int (int n)"

text \<open>\<open>repr\<close> of a string: the quote it picks and the characters it escapes.\<close>

definition hex_digit :: "nat \<Rightarrow> char" where
  "hex_digit d = (if d < 10 then char_of (48 + d) else char_of (87 + d))"

definition is_printable :: "char \<Rightarrow> bool" where
  "is_printable c \<longleftrightarrow> (let n = code c in 32 \<le> n \<and> n \<le> 126 \<or> 161 \<le> n \<and> n \<noteq> 173 \<or> n = 151)"

definition repr_char :: "char \<Rightarrow> char \<Rightarrow> string" where
  "repr_char q c =
     (if c = q \<or> code c = 92 then [CHR 0x5C, c]
      else if code c = 9 then [CHR 0x5C, CHR ''t'']
      else if code c = 10 then [CHR 0x5C, CHR ''n'']
      else if code c = 13 then [CHR 0x5C, CHR ''r'']
      else if is_printable c then [c]
      else [CHR 0x5C, CHR ''x'', hex_digit (code c div 16), hex_digit (code c mod 16)])"

definition py_repr :: "string \<Rightarrow> string" where
  "py_repr s = (let q = (if CHR 0x27 \<in> set s \<and> CHR 0x22 \<notin> set s then CHR 0x22 else CHR 0x27)
     in [q] @ concat (map (repr_char q) s) @ [q])"

lemma startswith_Nil [simp]: "startswith s []"
  by (simp add: startswith_def)

lemma startswith_append [simp]: "startswith (p @ s) p"
  by (simp add: startswith_def)

lemma startswith_iff: "startswith s p \<longleftrightarrow> (\<exists>t. s = p @ t)"
  by (metis append_take_drop_id startswith_def startswith_append)

lemma contains_iff: "contains p s \<longleftrightarrow> (\<exists>u v. s = u @ p @ v)"
proof (induction s)
  case Nil
  then show ?case by auto
next
  case (Cons c s)
  have "(\<exists>u v. c # s = u @ p @ v) \<longleftrightarrow> (\<exists>v. c # s = p @ v) \<or> (\<exists>u v. s = u @ p @ v)"
    by (metis append_Cons append_Nil list.exhaust list.inject)
  with Cons show ?case by (simp add: startswith_iff)
qed

lemma length_lower [simp]: "length (lower s) = length s"
  by (simp add: lower_def)

lemma str_of_digits_nonempty [simp]: "str_of_digits n \<noteq> []"
  by (subst str_of_digits.simps) simp

lemma length_str_of_digits: "0 < k \<Longrightarrow> n < 10 ^ k \<Longrightarrow> length (str_of_digits n) \<le> k"
proof (induction n arbitrary: k rule: str_of_digits.induct)
  case (1 n)
  show ?case
  proof (cases "n < 10")
    case True
    with "1.prems" show ?thesis by (simp add: str_of_digits.simps [of n])
  next
    case False
    obtain j where j: "k = Suc j"
      using "1.prems" by (cases k) auto
    have "0 < j"
      using "1.prems" False j by (cases j) auto
    have "n div 10 < 10 ^ j"
      using "1.prems" j by (simp add: int_div_less_iff mult.commute)
    with "1.IH" False \<open>0 < j\<close> have "length (str_of_digits (n div 10)) \<le> j" by blast
    with False j show ?thesis by (simp add: str_of_digits.simps [of n])
  qed
qed

lemma length_str_of_nat: "0 < k \<Longrightarrow> n < 10 ^ k \<Longrightarrow> length (str_of_nat n) \<le> k"
proof -
  assume "0 < k" "n < 10 ^ k"
  moreover from \<open>n < 10 ^ k\<close> have "int n < 10 ^ k"
    by (metis of_nat_less_iff of_nat_numeral of_nat_power)
  ultimately show ?thesis by (simp add: str_of_nat_def str_of_int_def length_str_of_digits)
qed

section \<open>Dictionaries\<close>

text \<open>
  A \<open>dict\<close> keeps its keys in the order of their first insertion, and assigning
  to a key that is present keeps the key's place: an association list with
  distinct keys.
\<close>

type_synonym 'v dict = "(string \<times> 'v) list"

definition dget :: "'v dict \<Rightarrow> string \<Rightarrow> 'v option" where
  "dget d k = map_of d k"

fun dset :: "string \<Rightarrow> 'v \<Rightarrow> 'v dict \<Rightarrow> 'v dict" where
  "dset k v [] = [(k, v)]"
| "dset k v ((k', v') # d) = (if k' = k then (k, v) # d else (k', v') # dset k v d)"

definition dkeys :: "'v dict \<Rightarrow> string list" where
  "dkeys d = map fst d"

definition dict_ok :: "'v dict \<Rightarrow> bool" where
  "dict_ok d \<longleftrightarrow> distinct (dkeys d)"

text \<open>\<open>d.get(k, default)\<close> and \<open>d.setdefault(k, v)\<close>\<close>

definition dget_or :: "'v dict \<Rightarrow> string \<Rightarrow> 'v \<Rightarrow> 'v" where
  "dget_or d k v = (case dget d k of None \<Rightarrow> v | Some w \<Rightarrow> w)"

definition dsetdefault :: "string \<Rightarrow> 'v \<Rightarrow> 'v dict \<Rightarrow> 'v dict" where
  "dsetdefault k v d = (if dget d k = None then dset k v d else d)"

text \<open>\<open>dict(sorted(d.items()))\<close>: the keys are distinct, so the order is by key.\<close>

definition dsorted :: "'v dict \<Rightarrow> 'v dict" where
  "dsorted d = sort_key fst d"

lemma dget_Nil [simp, dict_simps]: "dget [] k = None"
  by (simp add: dget_def)

lemma dget_Cons [simp, dict_simps]: "dget ((k', v) # d) k = (if k = k' then Some v else dget d k)"
  by (auto simp: dget_def)

lemma dget_dset [simp, dict_simps]: "dget (dset k v d) k' = (if k' = k then Some v else dget d k')"
  by (induction k v d rule: dset.induct) (auto simp: dget_def)

lemma dget_eq_None_iff: "dget d k = None \<longleftrightarrow> k \<notin> set (dkeys d)"
  by (auto simp: dget_def dkeys_def map_of_eq_None_iff)

lemma set_dkeys: "set (dkeys d) = {k. dget d k \<noteq> None}"
  by (simp add: dget_eq_None_iff)

lemma dget_Some_in_set: "dget d k = Some v \<Longrightarrow> (k, v) \<in> set d"
  by (auto simp: dget_def dest: map_of_SomeD)

lemma set_dkeys_dset [simp, dict_simps]: "set (dkeys (dset k v d)) = insert k (set (dkeys d))"
  by (induction k v d rule: dset.induct) (auto simp: dkeys_def)

lemma dkeys_dset: "dkeys (dset k v d) = (if k \<in> set (dkeys d) then dkeys d else dkeys d @ [k])"
  by (induction k v d rule: dset.induct) (auto simp: dkeys_def)

lemma dict_ok_Nil [simp]: "dict_ok []"
  by (simp add: dict_ok_def dkeys_def)

lemma dict_ok_dset [simp, dict_simps]: "dict_ok d \<Longrightarrow> dict_ok (dset k v d)"
  by (auto simp: dict_ok_def dkeys_dset)

lemma dict_ok_dsetdefault [simp, dict_simps]: "dict_ok d \<Longrightarrow> dict_ok (dsetdefault k v d)"
  by (simp add: dsetdefault_def)

lemma dget_dsetdefault [simp, dict_simps]:
  "dget (dsetdefault k v d) k' = (if k' = k \<and> dget d k = None then Some v else dget d k')"
  by (simp add: dsetdefault_def)

lemma set_dsorted [simp]: "set (dsorted d) = set d"
  by (simp add: dsorted_def)

lemma length_dsorted [simp]: "length (dsorted d) = length d"
  by (simp add: dsorted_def)

lemma sorted_dkeys_dsorted: "sorted (dkeys (dsorted d))"
  by (simp add: dkeys_def dsorted_def)

lemma set_dkeys_dsorted: "set (dkeys (dsorted d)) = set (dkeys d)"
  by (simp add: dkeys_def)

end
