(* ===== verification/PyFloat.thy ===== *)
theory PyFloat
  imports Prelude Complex_Main
begin

text \<open>
  Python's \<open>float\<close> (IEEE binary64) as far as the program computes with it: the
  rounding of an exact result to the nearest representable number with ties to
  even, the comparison operators with their NaN behaviour, \<open>min\<close> and \<open>max\<close>,
  the built-in \<open>sum\<close> (compensated since Python 3.12, the version the project
  requires), \<open>round(x, n)\<close>, \<open>repr\<close> and fixed-point formatting.

  A finite value is the rational number it denotes; the two zeros are one
  value, which no comparison, clamp or sum of the program tells apart.
\<close>

section \<open>Rounding\<close>

text \<open>Nearest integer, ties to even.\<close>

definition rhe :: "rat \<Rightarrow> int" where
  "rhe x = (let n = \<lfloor>x\<rfloor>; d = x - of_int n in
     if d < 1 / 2 then n else if d > 1 / 2 then n + 1 else if even n then n else n + 1)"

lemma rhe_of_int [simp]: "rhe (of_int k) = k"
  by (simp add: rhe_def)

lemma rhe_error: "\<bar>of_int (rhe x) - x\<bar> \<le> 1 / 2"
proof -
  define d where "d = x - of_int \<lfloor>x\<rfloor>"
  have "0 \<le> d" "d < 1"
    by (simp_all add: d_def) linarith
  moreover have "x = of_int \<lfloor>x\<rfloor> + d"
    by (simp add: d_def)
  ultimately show ?thesis
    unfolding rhe_def Let_def by (auto simp flip: d_def)
qed

lemma rhe_mono: "x \<le> y \<Longrightarrow> rhe x \<le> rhe y"
proof -
  assume le: "x \<le> y"
  then consider "\<lfloor>x\<rfloor> = \<lfloor>y\<rfloor>" | "\<lfloor>x\<rfloor> + 1 \<le> \<lfloor>y\<rfloor>"
    using floor_mono [of x y] by linarith
  then show ?thesis
  proof cases
    case 1
    with le show ?thesis by (auto simp: rhe_def Let_def)
  next
    case 2
    have "rhe x \<le> \<lfloor>x\<rfloor> + 1" by (simp add: rhe_def Let_def)
    also have "\<dots> \<le> \<lfloor>y\<rfloor>" by (rule 2)
    also have "\<dots> \<le> rhe y" by (simp add: rhe_def Let_def)
    finally show ?thesis .
  qed
qed

lemma rhe_le: "x \<le> of_int k \<Longrightarrow> rhe x \<le> k"
  using rhe_mono [of x "of_int k"] by simp

lemma rhe_ge: "of_int k \<le> x \<Longrightarrow> k \<le> rhe x"
  using rhe_mono [of "of_int k" x] by simp

text \<open>The number of base \<open>b\<close> digits of a natural number, and the exponent of a
  positive rational: the \<open>e\<close> with \<open>b ^ e \<le> x < b ^ (e + 1)\<close>.\<close>

function ndigits :: "int \<Rightarrow> int \<Rightarrow> nat" where
  "ndigits b n = (if b < 2 \<or> n < b then 1 else Suc (ndigits b (n div b)))"
  by pat_completeness auto
termination
proof (relation "measure (\<lambda>(b, n). nat n)")
  fix b n :: int
  assume "\<not> (b < 2 \<or> n < b)"
  then have "n div b < n" by (intro int_div_less_self) auto
  with \<open>\<not> (b < 2 \<or> n < b)\<close> show "((b, n div b), (b, n)) \<in> measure (\<lambda>(b, n). nat n)"
    by auto
qed simp

declare ndigits.simps [simp del]

lemma ndigits_bounds:
  assumes "2 \<le> b" "0 < n"
  shows "b ^ (ndigits b n - 1) \<le> n \<and> n < b ^ ndigits b n \<and> 0 < ndigits b n"
  using assms
proof (induction b n rule: ndigits.induct)
  case (1 b n)
  show ?case
  proof (cases "n < b")
    case True
    with "1.prems" show ?thesis by (simp add: ndigits.simps [of b n])
  next
    case False
    with "1.prems" have "0 < n div b" by (simp add: pos_imp_zdiv_pos_iff)
    with "1.prems" False have IH: "b ^ (ndigits b (n div b) - 1) \<le> n div b"
      "n div b < b ^ ndigits b (n div b)" "0 < ndigits b (n div b)"
      using "1.IH" by auto
    define m where "m = ndigits b (n div b) - 1"
    have m: "ndigits b (n div b) = Suc m" using IH(3) by (simp add: m_def)
    have "b * b ^ m \<le> b * (n div b)" using IH(1) "1.prems" by (simp add: m)
    also have "\<dots> \<le> n" using "1.prems" pos_mod_sign [of b n] mult_div_mod_eq [of b n] by linarith
    finally have lo: "b ^ Suc m \<le> n" by simp
    have "n div b < b ^ Suc m" using IH(2) by (simp add: m)
    then have "n < b * b ^ Suc m" using "1.prems" by (simp add: int_div_less_iff mult.commute)
    with lo False "1.prems" m show ?thesis
      by (simp add: ndigits.simps [of b n])
  qed
qed

definition expo :: "nat \<Rightarrow> rat \<Rightarrow> int" where
  "expo b x = (let (p, q) = quotient_of x;
     k = int (ndigits (int b) p) - int (ndigits (int b) q)
   in if of_nat b powi k \<le> x then k else k - 1)"

lemma expo_bounds:
  assumes b: "2 \<le> b" and x: "0 < x"
  shows "(of_nat b :: rat) powi expo b x \<le> x \<and> x < of_nat b powi (expo b x + 1)"
proof -
  obtain p q where pq: "quotient_of x = (p, q)" by fastforce
  have q: "0 < q" using quotient_of_denom_pos [OF pq] .
  have xpq: "x = of_int p / of_int q" using quotient_of_div [OF pq] .
  with x q have p: "0 < p" by (simp add: zero_less_divide_iff)
  define a where "a = ndigits (int b) p"
  define c where "c = ndigits (int b) q"
  let ?B = "of_nat b :: rat"
  have B: "?B > 1" "?B \<noteq> 0" using b by auto
  have cast: "?B ^ i \<le> of_int j \<longleftrightarrow> int b ^ i \<le> j" "of_int j < ?B ^ i \<longleftrightarrow> j < int b ^ i" for i j
    by (simp_all flip: of_int_le_iff [where 'a = rat] of_int_less_iff [where 'a = rat])
  have a: "?B ^ (a - 1) \<le> of_int p" "of_int p < ?B ^ a" "0 < a"
    using ndigits_bounds [of "int b" p] b p unfolding a_def cast by auto
  have c: "?B ^ (c - 1) \<le> of_int q" "of_int q < ?B ^ c" "0 < c"
    using ndigits_bounds [of "int b" q] b q unfolding c_def cast by auto
  define k where "k = int a - int c"
  have hi: "x < ?B powi (k + 1)"
  proof -
    have "x < ?B ^ a / ?B ^ (c - 1)"
      unfolding xpq using a c B p q by (intro frac_less) auto
    also have "\<dots> = ?B powi (k + 1)"
      using c(3) B by (simp add: k_def power_int_diff power_int_add of_nat_diff flip: power_int_of_nat)
    finally show ?thesis .
  qed
  have lo: "?B powi (k - 1) \<le> x"
  proof -
    have "?B powi (k - 1) = ?B ^ (a - 1) / ?B ^ c"
      using a(3) B by (simp add: k_def power_int_diff power_int_add of_nat_diff flip: power_int_of_nat)
    also have "\<dots> \<le> x"
      unfolding xpq using a c B p q by (intro frac_le) auto
    finally show ?thesis .
  qed
  have e: "expo b x = (if ?B powi k \<le> x then k else k - 1)"
    by (simp add: expo_def pq k_def a_def c_def)
  show ?thesis using hi lo by (auto simp: e)
qed

text \<open>
  The spacing of the binary64 numbers around \<open>x\<close> is \<open>2 ^ qexp x\<close>: 52 bits below
  the leading bit, and never finer than \<open>2 ^ -1074\<close>.
\<close>

definition qexp :: "rat \<Rightarrow> int" where
  "qexp x = max (expo 2 x) (-1022) - 52"

definition fl_pos :: "rat \<Rightarrow> rat" where
  "fl_pos x = of_int (rhe (x / 2 powi qexp x)) * 2 powi qexp x"

definition fl :: "rat \<Rightarrow> rat" where
  "fl x = (if x = 0 then 0 else if 0 < x then fl_pos x else - fl_pos (- x))"

lemma two_powi_pos [simp]: "(0::rat) < 2 powi e"
  by simp

lemma expo2_bounds: "0 < x \<Longrightarrow> (2::rat) powi expo 2 x \<le> x \<and> x < 2 powi (expo 2 x + 1)"
  using expo_bounds [of 2 x] by simp

lemma two_powi_le_iff [simp]: "(2::rat) powi a \<le> 2 powi b \<longleftrightarrow> a \<le> b"
  using power_int_increasing [of a b "2::rat"] power_int_strict_increasing [of b a "2::rat"]
  by fastforce

lemma two_powi_less_iff [simp]: "(2::rat) powi a < 2 powi b \<longleftrightarrow> a < b"
  by (simp flip: not_le)

lemma two_powi_divide: "b \<le> a \<Longrightarrow> (2::rat) powi a / 2 powi b = of_int (2 ^ nat (a - b))"
  by (simp flip: power_int_diff power_int_of_nat)

lemma qexp_mono: "0 < x \<Longrightarrow> x \<le> y \<Longrightarrow> qexp x \<le> qexp y"
proof -
  assume "0 < x" "x \<le> y"
  with expo2_bounds [of x] expo2_bounds [of y] have "(2::rat) powi expo 2 x < 2 powi (expo 2 y + 1)"
    by linarith
  then show ?thesis by (simp add: qexp_def)
qed

lemma qexp_ge: "-1074 \<le> qexp x"
  by (simp add: qexp_def)

lemma fl_pos_error:
  assumes "0 < x"
  shows "\<bar>fl_pos x - x\<bar> \<le> 2 powi qexp x / 2"
proof -
  let ?q = "(2::rat) powi qexp x"
  have "fl_pos x - x = (of_int (rhe (x / ?q)) - x / ?q) * ?q"
    by (simp add: fl_pos_def algebra_simps)
  then have "\<bar>fl_pos x - x\<bar> = \<bar>of_int (rhe (x / ?q)) - x / ?q\<bar> * ?q"
    by (simp add: abs_mult)
  also have "\<dots> \<le> 1 / 2 * ?q"
    by (rule mult_right_mono [OF rhe_error]) simp
  finally show ?thesis by simp
qed

text \<open>Numbers with at most 53 significant bits are exact.\<close>

lemma fl_pos_exact:
  assumes "x = of_int m * 2 powi q" "0 < m" "m \<le> 2 ^ 53" "-1074 \<le> q"
  shows "fl_pos x = x"
proof -
  have x: "0 < x" using assms by simp
  have "\<exists>k::int. x / 2 powi qexp x = of_int k"
  proof (cases "qexp x \<le> q")
    case True
    have "x / 2 powi qexp x = of_int m * (2 powi q / 2 powi qexp x)" by (simp add: assms(1))
    also have "\<dots> = of_int (m * 2 ^ nat (q - qexp x))" using two_powi_divide [OF True] by simp
    finally show ?thesis by blast
  next
    case False
    with assms(4) have e: "expo 2 x = qexp x + 52" by (simp add: qexp_def max_def split: if_splits)
    have "(2::rat) powi (q + 53) \<le> 2 powi expo 2 x" using False e by simp
    also have "\<dots> \<le> x" using expo2_bounds [OF x] by simp
    finally have lo: "(2::rat) powi (q + 53) \<le> x" .
    have "x \<le> of_int (2 ^ 53) * 2 powi q"
      unfolding assms(1) using assms(3) by (intro mult_right_mono) (auto simp only: of_int_le_iff, simp)
    also have "\<dots> = 2 powi (q + 53)" by (simp add: power_int_add)
    finally have eq: "x = 2 powi (q + 53)" using lo by simp
    from e eq expo2_bounds [OF x] have "qexp x \<le> q + 53" by simp
    from two_powi_divide [OF this] eq have "x / 2 powi qexp x = of_int (2 ^ nat (q + 53 - qexp x))" by simp
    then show ?thesis by blast
  qed
  then obtain k :: int where k: "x / 2 powi qexp x = of_int k" by blast
  then have "fl_pos x = of_int k * 2 powi qexp x" by (simp add: fl_pos_def)
  also have "\<dots> = x" using k [symmetric] by simp
  finally show ?thesis .
qed

lemma fl_pos_le_scale:
  assumes "0 < x" "x \<le> 2 powi e" "-1022 \<le> e"
  shows "fl_pos x \<le> 2 powi e"
proof (cases "qexp x \<le> e")
  case True
  note pw = two_powi_divide [OF True]
  have "x / 2 powi qexp x \<le> 2 powi e / 2 powi qexp x"
    using assms by (intro divide_right_mono) auto
  then have "rhe (x / 2 powi qexp x) \<le> 2 ^ nat (e - qexp x)"
    unfolding pw by (rule rhe_le)
  then have "of_int (rhe (x / 2 powi qexp x)) \<le> (2::rat) powi e / 2 powi qexp x"
    unfolding pw by (simp only: of_int_le_iff)
  then show ?thesis by (simp add: fl_pos_def pos_le_divide_eq)
next
  case False
  have "(2::rat) powi expo 2 x \<le> 2 powi e"
    using expo2_bounds [OF assms(1)] assms(2) by linarith
  with False assms(3) show ?thesis by (simp add: qexp_def max_def split: if_splits)
qed

lemma fl_pos_ge_scale:
  assumes "0 < x" "-1022 \<le> expo 2 x"
  shows "2 powi expo 2 x \<le> fl_pos x"
proof -
  have q: "qexp x \<le> expo 2 x" "expo 2 x - qexp x = 52" using assms(2) by (simp_all add: qexp_def)
  note pw = two_powi_divide [OF q(1)]
  have "2 powi expo 2 x / 2 powi qexp x \<le> x / 2 powi qexp x"
    using expo2_bounds [OF assms(1)] by (intro divide_right_mono) auto
  then have "2 ^ nat (expo 2 x - qexp x) \<le> rhe (x / 2 powi qexp x)"
    unfolding pw by (rule rhe_ge)
  then have "(2::rat) powi expo 2 x / 2 powi qexp x \<le> of_int (rhe (x / 2 powi qexp x))"
    unfolding pw by (simp only: of_int_le_iff)
  then show ?thesis by (simp add: fl_pos_def pos_divide_le_eq)
qed

lemma fl_pos_mono:
  assumes "0 < x" "x \<le> y"
  shows "fl_pos x \<le> fl_pos y"
proof (cases "qexp x = qexp y")
  case True
  have "x / 2 powi qexp y \<le> y / 2 powi qexp y"
    using assms by (intro divide_right_mono) auto
  then have "of_int (rhe (x / 2 powi qexp y)) \<le> (of_int (rhe (y / 2 powi qexp y)) :: rat)"
    using rhe_mono by (simp only: of_int_le_iff)
  then show ?thesis
    unfolding fl_pos_def True by (rule mult_right_mono) simp
next
  case False
  with qexp_mono [OF assms] have e: "expo 2 x + 1 \<le> expo 2 y" "-1022 \<le> expo 2 y"
    by (auto simp: qexp_def)
  have "x < 2 powi (expo 2 x + 1)" using expo2_bounds [OF assms(1)] by simp
  also have "\<dots> \<le> 2 powi expo 2 y" using e(1) by simp
  finally have "fl_pos x \<le> 2 powi expo 2 y"
    using assms(1) e(2) by (intro fl_pos_le_scale) auto
  also have "\<dots> \<le> fl_pos y"
    using assms e(2) by (intro fl_pos_ge_scale) auto
  finally show ?thesis .
qed

lemma fl_pos_nonneg: "0 < x \<Longrightarrow> 0 \<le> fl_pos x"
proof -
  assume "0 < x"
  then have "0 \<le> rhe (x / 2 powi qexp x)" by (intro rhe_ge) simp
  then show ?thesis by (simp add: fl_pos_def)
qed

lemma fl_0 [simp]: "fl 0 = 0"
  by (simp add: fl_def)

lemma fl_uminus: "fl (- x) = - fl x"
  by (simp add: fl_def)

lemma fl_nonneg: "0 \<le> x \<Longrightarrow> 0 \<le> fl x"
  by (simp add: fl_def fl_pos_nonneg)

theorem fl_mono: "x \<le> y \<Longrightarrow> fl x \<le> fl y"
proof -
  assume le: "x \<le> y"
  consider "0 < x" | "x \<le> 0" "0 \<le> y" | "y < 0" using le by linarith
  then show ?thesis
  proof cases
    case 1
    with le show ?thesis by (simp add: fl_def fl_pos_mono)
  next
    case 2
    have "fl x \<le> 0" using fl_nonneg [of "- x"] 2 by (simp add: fl_uminus)
    also have "0 \<le> fl y" using 2 by (simp add: fl_nonneg)
    finally show ?thesis .
  next
    case 3
    with le have "fl_pos (- y) \<le> fl_pos (- x)" by (intro fl_pos_mono) auto
    with 3 le show ?thesis by (simp add: fl_def)
  qed
qed

lemma fl_exact:
  assumes "x = of_int m * 2 powi q" "\<bar>m\<bar> \<le> 2 ^ 53" "-1074 \<le> q"
  shows "fl x = x"
proof -
  consider "m = 0" | "0 < m" | "m < 0" by linarith
  then show ?thesis
  proof cases
    case 1
    with assms show ?thesis by simp
  next
    case 2
    with assms have "0 < x" "fl_pos x = x" by (auto intro: fl_pos_exact)
    then show ?thesis by (simp add: fl_def)
  next
    case 3
    with assms have "- x = of_int (- m) * 2 powi q" "0 < - m" "- m \<le> 2 ^ 53" "0 < - x"
      by (auto simp: mult_neg_pos)
    then have "fl_pos (- x) = - x" using assms(3) by (intro fl_pos_exact)
    with \<open>0 < - x\<close> show ?thesis by (simp add: fl_def)
  qed
qed

lemma fl_of_int: "\<bar>k\<bar> \<le> 2 ^ 53 \<Longrightarrow> fl (of_int k) = of_int k"
  by (rule fl_exact [where q = 0]) auto

text \<open>The relative error of one rounding, with the underflow threshold as the absolute part.\<close>

lemma fl_error: "\<bar>fl x - x\<bar> \<le> \<bar>x\<bar> / 2 ^ 53 + 2 powi (-1075)"
proof -
  have pos: "\<bar>fl_pos y - y\<bar> \<le> y / 2 ^ 53 + 2 powi (-1075)" if y: "0 < y" for y
  proof (cases "expo 2 y \<le> -1022")
    case True
    then have "(2::rat) powi qexp y / 2 = 2 powi (-1075)"
      by (simp add: qexp_def max_def power_int_minus_divide)
    with fl_pos_error [OF y] y show ?thesis by simp
  next
    case False
    then have "(2::rat) powi qexp y / 2 = 2 powi expo 2 y / 2 ^ 53"
      by (simp add: qexp_def max_def power_int_diff)
    also have "\<dots> \<le> y / 2 ^ 53" using expo2_bounds [OF y] by (intro divide_right_mono) auto
    finally have "\<bar>fl_pos y - y\<bar> \<le> y / 2 ^ 53"
      using fl_pos_error [OF y] by linarith
    also have "\<dots> \<le> y / 2 ^ 53 + 2 powi (-1075)"
      using two_powi_pos [of "-1075"] by linarith
    finally show ?thesis .
  qed
  consider "x = 0" | "0 < x" | "x < 0" by linarith
  then show ?thesis
  proof cases
    case 1
    then show ?thesis by simp
  next
    case 2
    with pos [OF 2] show ?thesis by (simp add: fl_def)
  next
    case 3
    with pos [of "- x"] show ?thesis by (simp add: fl_def abs_if split: if_splits)
  qed
qed

section \<open>Values, comparison, clamping\<close>

datatype pyfloat = Fin rat | PInf | NInf | NaN

definition mk_float :: "rat \<Rightarrow> pyfloat" where
  "mk_float x = (let r = fl x in
     if 2 ^ 1024 \<le> r then PInf else if r \<le> - (2 ^ 1024) then NInf else Fin r)"

text \<open>\<open><\<close> and \<open><=\<close>: every comparison with NaN is false.\<close>

fun flt_less :: "pyfloat \<Rightarrow> pyfloat \<Rightarrow> bool" where
  "flt_less (Fin x) (Fin y) = (x < y)"
| "flt_less (Fin x) PInf = True"
| "flt_less NInf (Fin y) = True"
| "flt_less NInf PInf = True"
| "flt_less _ _ = False"

fun flt_le :: "pyfloat \<Rightarrow> pyfloat \<Rightarrow> bool" where
  "flt_le (Fin x) (Fin y) = (x \<le> y)"
| "flt_le NaN _ = False"
| "flt_le _ NaN = False"
| "flt_le NInf _ = True"
| "flt_le _ PInf = True"
| "flt_le _ _ = False"

text \<open>\<open>min(a, b)\<close> and \<open>max(a, b)\<close> keep the first argument unless the second is
  strictly better, which is what decides them on NaN.\<close>

definition py_min :: "pyfloat \<Rightarrow> pyfloat \<Rightarrow> pyfloat" where
  "py_min a b = (if flt_less b a then b else a)"

definition py_max :: "pyfloat \<Rightarrow> pyfloat \<Rightarrow> pyfloat" where
  "py_max a b = (if flt_less a b then b else a)"

text \<open>\<open>bool(x)\<close>: NaN and the infinities are true.\<close>

definition flt_truthy :: "pyfloat \<Rightarrow> bool" where
  "flt_truthy x \<longleftrightarrow> x \<noteq> Fin 0"

section \<open>sum, round\<close>

text \<open>
  The float loop of the built-in \<open>sum\<close>: Neumaier's compensated summation, with
  every operation rounded by \<open>rnd\<close>. The running sum starts at the first item
  (\<open>0 + x\<close> is exact), the compensation is added at the end when it is not zero.
\<close>

fun sum_loop :: "(rat \<Rightarrow> rat) \<Rightarrow> rat \<Rightarrow> rat \<Rightarrow> rat list \<Rightarrow> rat" where
  "sum_loop rnd s c [] = (if c = 0 then s else rnd (s + c))"
| "sum_loop rnd s c (x # xs) =
     (let t = rnd (s + x);
          d = (if \<bar>s\<bar> \<ge> \<bar>x\<bar> then rnd (rnd (s - t) + x) else rnd (rnd (x - t) + s))
      in sum_loop rnd t (rnd (c + d)) xs)"

definition sum_with :: "(rat \<Rightarrow> rat) \<Rightarrow> rat list \<Rightarrow> rat" where
  "sum_with rnd xs = (case xs of [] \<Rightarrow> 0 | x # ys \<Rightarrow> sum_loop rnd x 0 ys)"

definition py_sum :: "rat list \<Rightarrow> rat" where
  "py_sum xs = sum_with fl xs"

text \<open>\<open>round(x, n)\<close>: the correctly rounded decimal, read back as a float.\<close>

definition py_round :: "nat \<Rightarrow> rat \<Rightarrow> rat" where
  "py_round n x = fl (of_int (rhe (x * 10 ^ n)) / 10 ^ n)"

fun round_float :: "nat \<Rightarrow> pyfloat \<Rightarrow> pyfloat" where
  "round_float n (Fin x) = Fin (py_round n x)"
| "round_float n x = x"

section \<open>Decimal text\<close>

definition is_digit :: "char \<Rightarrow> bool" where
  "is_digit c \<longleftrightarrow> 48 \<le> code c \<and> code c \<le> 57"

definition int_of_digits :: "string \<Rightarrow> int" where
  "int_of_digits s = foldl (\<lambda>a c. 10 * a + (int (code c) - 48)) 0 s"

text \<open>Digits with an optional fraction and exponent, consuming the whole string.\<close>

definition parse_decimal :: "string \<Rightarrow> rat option" where
  "parse_decimal s =
     (let i = takeWhile is_digit s; r = dropWhile is_digit s;
          dot = (r \<noteq> [] \<and> hd r = CHR ''.'');
          f = (if dot then takeWhile is_digit (tl r) else []);
          r2 = (if dot then dropWhile is_digit (tl r) else r);
          mant = of_int (int_of_digits (i @ f)) * 10 powi (- int (length f))
      in if i = [] \<and> f = [] then None
         else if r2 = [] then Some mant
         else if hd r2 = CHR ''e'' \<or> hd r2 = CHR ''E'' then
           (let r3 = tl r2;
                neg = (r3 \<noteq> [] \<and> hd r3 = CHR ''-'');
                r4 = (if r3 \<noteq> [] \<and> (hd r3 = CHR ''-'' \<or> hd r3 = CHR ''+'') then tl r3 else r3)
            in if r4 = [] \<or> \<not> list_all is_digit r4 then None
               else Some (mant * 10 powi (if neg then - int_of_digits r4 else int_of_digits r4)))
         else None)"

text \<open>An underscore is accepted between two digits only.\<close>

fun underscores_ok :: "bool \<Rightarrow> string \<Rightarrow> bool" where
  "underscores_ok p [] = True"
| "underscores_ok p (c # s) =
     (if c = CHR ''_'' then p \<and> s \<noteq> [] \<and> is_digit (hd s) \<and> underscores_ok False s
      else underscores_ok (is_digit c) s)"

definition float_of_str :: "string \<Rightarrow> pyfloat option" where
  "float_of_str s0 =
     (let s1 = strip s0;
          s2 = (if underscores_ok False s1 then filter (\<lambda>c. c \<noteq> CHR ''_'') s1 else []);
          neg = (s2 \<noteq> [] \<and> hd s2 = CHR ''-'');
          b = (if s2 \<noteq> [] \<and> (hd s2 = CHR ''-'' \<or> hd s2 = CHR ''+'') then tl s2 else s2);
          w = lower b
      in if w = ''inf'' \<or> w = ''infinity'' then Some (if neg then NInf else PInf)
         else if w = ''nan'' then Some NaN
         else map_option (\<lambda>q. mk_float (if neg then - q else q)) (parse_decimal b))"

text \<open>
  \<open>repr(x)\<close>: the shortest digit string that reads back as \<open>x\<close>, of those the
  closest to \<open>x\<close>. Seventeen digits always suffice. The result is a pair
  \<open>(d, k)\<close> for \<open>d * 10 ^ k\<close>.
\<close>

fun shortest :: "nat \<Rightarrow> nat \<Rightarrow> rat \<Rightarrow> int \<times> int" where
  "shortest 0 n x = (let k = expo 10 x - int n + 1 in (rhe (x / 10 powi k), k))"
| "shortest (Suc fuel) n x =
     (let k = expo 10 x - int n + 1; sc = 10 powi k; lo = \<lfloor>x / sc\<rfloor>; hi = lo + 1;
          okl = (fl (of_int lo * sc) = x); okh = (fl (of_int hi * sc) = x)
      in if okl \<and> okh then (rhe (x / sc), k)
         else if okl then (lo, k) else if okh then (hi, k)
         else shortest fuel (Suc n) x)"

fun strip_zeros :: "nat \<Rightarrow> int \<Rightarrow> int \<Rightarrow> int \<times> int" where
  "strip_zeros 0 d k = (d, k)"
| "strip_zeros (Suc fuel) d k = (if d \<noteq> 0 \<and> d mod 10 = 0 then strip_zeros fuel (d div 10) (k + 1) else (d, k))"

definition zeros :: "nat \<Rightarrow> string" where
  "zeros n = replicate n (CHR ''0'')"

definition repr_pos :: "rat \<Rightarrow> string" where
  "repr_pos x =
     (let (d0, k0) = shortest 16 1 x; (d, k) = strip_zeros 17 d0 k0;
          ds = str_of_int d; n = int (length ds); pt = n + k
      in if - 4 < pt \<and> pt \<le> 16 then
           (if pt \<le> 0 then ''0.'' @ zeros (nat (- pt)) @ ds
            else if n \<le> pt then ds @ zeros (nat (pt - n)) @ ''.0''
            else take (nat pt) ds @ ''.'' @ drop (nat pt) ds)
         else
           (let e = pt - 1; es = str_of_int \<bar>e\<bar>
            in take 1 ds @ (if n = 1 then [] else ''.'' @ drop 1 ds) @ ''e''
               @ (if e < 0 then ''-'' else ''+'') @ (if length es < 2 then ''0'' @ es else es)))"

fun repr_float :: "pyfloat \<Rightarrow> string" where
  "repr_float PInf = ''inf''"
| "repr_float NInf = ''-inf''"
| "repr_float NaN = ''nan''"
| "repr_float (Fin x) = (if x = 0 then ''0.0'' else if x < 0 then ''-'' @ repr_pos (- x) else repr_pos x)"

text \<open>The format \<open>{x:.nf}\<close>, for \<open>n > 0\<close>.\<close>

fun format_fixed :: "nat \<Rightarrow> pyfloat \<Rightarrow> string" where
  "format_fixed n PInf = ''inf''"
| "format_fixed n NInf = ''-inf''"
| "format_fixed n NaN = ''nan''"
| "format_fixed n (Fin x) =
     (let ds = str_of_int (rhe (\<bar>x\<bar> * 10 ^ n));
          padded = zeros (Suc n - length ds) @ ds; p = length padded - n
      in (if x < 0 then ''-'' else []) @ take p padded @ ''.'' @ drop p padded)"

section \<open>The interface of a rounding\<close>

text \<open>
  What the reasoning about scores needs of the rounding of float operations: it
  is monotone, exact on small integers, and close to the exact result in the range
  where scores and their sums live. The error analysis of the compensated sum is
  done once, inside the interface.
\<close>

lemma sum_list_le_length: "\<forall>x \<in> set xs. (0::rat) \<le> x \<and> x \<le> 1 \<Longrightarrow> sum_list xs \<le> of_nat (length xs)"
  by (induction xs) auto

definition ulp :: rat where
  "ulp = 1 / 2 ^ 48"

lemma ulp_bounds: "0 < ulp" "ulp \<le> 1 / 10 ^ 13"
  by (simp_all add: ulp_def)

lemma ulp_tiny: "ulp \<le> 1 / 1000"
  by (simp add: ulp_def)

locale rounding =
  fixes rnd :: "rat \<Rightarrow> rat"
  assumes rnd_mono: "x \<le> y \<Longrightarrow> rnd x \<le> rnd y"
    and rnd_int: "\<bar>k\<bar> \<le> 16 \<Longrightarrow> rnd (of_int k) = of_int k"
    and rnd_close: "\<bar>x\<bar> \<le> 16 \<Longrightarrow> \<bar>rnd x - x\<bar> \<le> ulp"
begin

lemma rnd_closeD:
  assumes "\<bar>x\<bar> \<le> 16"
  shows "rnd x \<le> x + ulp" "x - ulp \<le> rnd x"
  using rnd_close [OF assms] unfolding abs_le_iff by linarith+

lemma two_sum_small:
  assumes "0 \<le> s" "s \<le> 6" "0 \<le> x" "x \<le> 1"
  shows "\<bar>rnd (rnd (s - rnd (s + x)) + x)\<bar> \<le> 3 * ulp"
proof -
  define t where "t = rnd (s + x)"
  have t: "t \<le> s + x + ulp" "s + x - ulp \<le> t"
    using rnd_closeD [of "s + x"] assms unfolding t_def by linarith+
  define u where "u = rnd (s - t)"
  have u: "u \<le> s - t + ulp" "s - t - ulp \<le> u"
    using rnd_closeD [of "s - t"] assms t ulp_tiny unfolding u_def by linarith+
  have "\<bar>u + x\<bar> \<le> 16"
    using t u assms ulp_tiny by linarith
  from rnd_closeD [OF this] show ?thesis
    using t u unfolding t_def [symmetric] u_def [symmetric] by linarith
qed

text \<open>The invariant of the compensated loop: the sum and the compensation drift by a
  bounded number of units per item.\<close>

lemma sum_loop_close:
  assumes "0 \<le> m" "\<bar>s - S\<bar> \<le> of_nat m * ulp" "\<bar>c\<bar> \<le> 4 * of_nat m * ulp"
    and "0 \<le> S" "0 \<le> s" "\<forall>x \<in> set xs. 0 \<le> x \<and> x \<le> 1" "m + length xs \<le> 5"
    and "S + of_nat (length xs) \<le> 5"
  shows "\<bar>sum_loop rnd s c xs - (S + sum_list xs)\<bar> \<le> 26 * ulp"
  using assms
proof (induction xs arbitrary: s c S m)
  case Nil
  then have m: "(of_nat m :: rat) \<le> 5" by simp
  have "of_nat m * ulp \<le> 5 * ulp" using m ulp_bounds(1) by (intro mult_right_mono) auto
  then have b: "\<bar>s - S\<bar> \<le> 5 * ulp" "\<bar>c\<bar> \<le> 20 * ulp"
    using Nil.prems(2,3) by linarith+
  have S: "S \<le> 5" using Nil.prems(8) by simp
  have "\<bar>s + c\<bar> \<le> 16"
    using b S Nil.prems(4,5) ulp_tiny by linarith
  note r = rnd_closeD [OF this]
  have "\<bar>rnd (s + c) - S\<bar> \<le> 26 * ulp" using b r ulp_bounds(1) by linarith
  moreover have "\<bar>s - S\<bar> \<le> 26 * ulp" using b ulp_bounds(1) by linarith
  ultimately show ?case by simp
next
  case (Cons x xs)
  have x: "0 \<le> x" "x \<le> 1" using Cons.prems(6) by auto
  have m: "(of_nat m :: rat) \<le> 4"
    using Cons.prems(7) by simp
  have mu: "of_nat m * ulp \<le> 4 * ulp" using m ulp_bounds(1) by (intro mult_right_mono) auto
  have s: "s \<le> 6"
    using Cons.prems(2,8) mu ulp_tiny by simp
  define t where "t = rnd (s + x)"
  define d where "d = (if \<bar>s\<bar> \<ge> \<bar>x\<bar> then rnd (rnd (s - t) + x) else rnd (rnd (x - t) + s))"
  have t: "\<bar>t - (s + x)\<bar> \<le> ulp"
    using rnd_close [of "s + x"] s x Cons.prems(5) unfolding t_def by linarith
  have t0: "0 \<le> t"
    using rnd_mono [of 0 "s + x"] rnd_int [of 0] x Cons.prems(5) by (simp add: t_def)
  have d: "\<bar>d\<bar> \<le> 3 * ulp"
    using two_sum_small [of s x] two_sum_small [of x s] s x Cons.prems(5)
    unfolding d_def t_def by (auto simp: add.commute)
  define c' where "c' = rnd (c + d)"
  have "\<bar>c + d\<bar> \<le> 4 * of_nat m * ulp + 3 * ulp"
    using Cons.prems(3) d by linarith
  moreover from this have "\<bar>c + d\<bar> \<le> 16"
    using mu ulp_tiny by linarith
  ultimately have "\<bar>c'\<bar> \<le> 4 * of_nat m * ulp + 4 * ulp"
    using rnd_close [of "c + d"] unfolding c'_def by linarith
  then have c': "\<bar>c'\<bar> \<le> 4 * of_nat (Suc m) * ulp"
    by (simp add: algebra_simps)
  have "\<bar>t - (S + x)\<bar> \<le> of_nat m * ulp + ulp"
    using t Cons.prems(2) by linarith
  then have "\<bar>t - (S + x)\<bar> \<le> of_nat (Suc m) * ulp"
    by (simp add: algebra_simps)
  then have "\<bar>sum_loop rnd t c' xs - ((S + x) + sum_list xs)\<bar> \<le> 26 * ulp"
    using c' t0 x Cons.prems by (intro Cons.IH [of "Suc m"]) auto
  moreover have "sum_loop rnd s c (x # xs) = sum_loop rnd t c' xs"
    unfolding sum_loop.simps Let_def t_def [symmetric] d_def [symmetric] c'_def [symmetric] ..
  ultimately show ?case
    by (simp only: sum_list.Cons add.assoc)
qed

lemma sum_with_close:
  assumes "\<forall>x \<in> set xs. 0 \<le> x \<and> x \<le> 1" "length xs \<le> 5"
  shows "\<bar>sum_with rnd xs - sum_list xs\<bar> \<le> 26 * ulp"
proof (cases xs)
  case Nil
  then show ?thesis using ulp_bounds(1) by (simp add: sum_with_def)
next
  case (Cons x ys)
  with assms have "\<bar>sum_loop rnd x 0 ys - (x + sum_list ys)\<bar> \<le> 26 * ulp"
    by (intro sum_loop_close [of 0]) auto
  with Cons show ?thesis by (simp add: sum_with_def)
qed

text \<open>The mean of five scores, as the source computes it, is close to the exact mean.\<close>

lemma mean_close:
  assumes "\<forall>x \<in> set xs. 0 \<le> x \<and> x \<le> 1" "length xs = 5"
  shows "\<bar>rnd (sum_with rnd xs / 5) - sum_list xs / 5\<bar> \<le> 7 * ulp"
proof -
  have c: "\<bar>sum_with rnd xs - sum_list xs\<bar> \<le> 26 * ulp"
    using assms by (intro sum_with_close) auto
  have b: "sum_list xs \<le> of_nat (length xs)"
    using assms(1) by (rule sum_list_le_length)
  have "0 \<le> sum_list xs"
    using assms(1) by (intro sum_list_nonneg) auto
  moreover have "sum_list xs \<le> 5" using b assms(2) by simp
  ultimately have "\<bar>sum_with rnd xs / 5\<bar> \<le> 16"
    using c ulp_tiny by linarith
  from rnd_close [OF this] c ulp_bounds(1) show ?thesis
    by linarith
qed

end

interpretation binary64: rounding fl
proof
  show "fl x \<le> fl y" if "x \<le> y" for x y
    using that by (rule fl_mono)
  show "fl (of_int k) = of_int k" if "\<bar>k\<bar> \<le> 16" for k
    using that by (intro fl_of_int) simp
  show "\<bar>fl x - x\<bar> \<le> ulp" if "\<bar>x\<bar> \<le> 16" for x
  proof -
    have "(2::rat) powi (-1075) \<le> 2 powi (-50)" by (subst two_powi_le_iff) simp
    also have "\<dots> = 1 / 2 ^ 50" by (simp add: power_int_minus_divide)
    finally have "\<bar>fl x - x\<bar> \<le> \<bar>x\<bar> / 2 ^ 53 + 1 / 2 ^ 50"
      using fl_error [of x] by linarith
    also have "\<bar>x\<bar> / 2 ^ 53 \<le> 16 / 2 ^ 53"
      using that by (intro divide_right_mono) auto
    finally show ?thesis by (simp add: ulp_def)
  qed
qed

section \<open>Clamping and the four-decimal score\<close>

definition clamp01 :: "pyfloat \<Rightarrow> pyfloat" where
  "clamp01 x = py_max (Fin 0) (py_min (Fin 1) x)"

text \<open>\<open>max(0.0, min(1.0, x))\<close> is a finite number in the unit interval whatever
  \<open>x\<close> is; NaN comes out as one, because every comparison with it is false.\<close>

lemma clamp01_cases: "\<exists>q. clamp01 x = Fin q \<and> 0 \<le> q \<and> q \<le> 1"
  by (cases x) (auto simp: clamp01_def py_min_def py_max_def)

lemma clamp01_NaN: "clamp01 NaN = Fin 1"
  by (simp add: clamp01_def py_min_def py_max_def)

lemma clamp01_Fin: "clamp01 (Fin q) = Fin (max 0 (min 1 q))"
  by (auto simp: clamp01_def py_min_def py_max_def)

end
