(* ===== verification/Json.thy ===== *)
theory Json
  imports PyFloat
begin

text \<open>
  JSON values as the program handles them: the Python value a JSON document
  decodes to, \<open>json.loads\<close> (with the errors and positions of the standard
  library's decoder), \<open>json.dumps\<close>, and the built-in operations the agents
  apply to decoded values whose type they do not know: \<open>bool\<close>, \<open>str\<close>, \<open>repr\<close>,
  iteration, \<open>len\<close>, \<open>.get\<close> and \<open>float\<close>.
\<close>

datatype json =
    JNull | JBool bool | JInt int | JFloat pyfloat | JStr string
  | JArr "json list" | JObj "(string \<times> json) list"

section \<open>Built-in operations on decoded values\<close>

fun truthy :: "json \<Rightarrow> bool" where
  "truthy JNull = False"
| "truthy (JBool b) = b"
| "truthy (JInt i) = (i \<noteq> 0)"
| "truthy (JFloat x) = flt_truthy x"
| "truthy (JStr s) = (s \<noteq> [])"
| "truthy (JArr xs) = (xs \<noteq> [])"
| "truthy (JObj d) = (d \<noteq> [])"

fun type_name :: "json \<Rightarrow> string" where
  "type_name JNull = ''NoneType''"
| "type_name (JBool b) = ''bool''"
| "type_name (JInt i) = ''int''"
| "type_name (JFloat x) = ''float''"
| "type_name (JStr s) = ''str''"
| "type_name (JArr xs) = ''list''"
| "type_name (JObj d) = ''dict''"

definition no_attribute :: "json \<Rightarrow> string \<Rightarrow> pyexn" where
  "no_attribute j a = Exn AttributeError (py_repr (type_name j) @ '' object has no attribute '' @ py_repr a)"

fun repr_json :: "json \<Rightarrow> string" where
  "repr_json JNull = ''None''"
| "repr_json (JBool b) = (if b then ''True'' else ''False'')"
| "repr_json (JInt i) = str_of_int i"
| "repr_json (JFloat x) = repr_float x"
| "repr_json (JStr s) = py_repr s"
| "repr_json (JArr xs) = ''['' @ join '', '' (map repr_json xs) @ '']''"
| "repr_json (JObj d) = ''{'' @ join '', '' (map (\<lambda>(k, v). py_repr k @ '': '' @ repr_json v) d) @ ''}''"

fun py_str :: "json \<Rightarrow> string" where
  "py_str (JStr s) = s"
| "py_str j = repr_json j"

text \<open>\<open>for x in j\<close>: a string gives its characters, a dictionary its keys.\<close>

fun py_iter :: "json \<Rightarrow> json list result" where
  "py_iter (JStr s) = Inr (map (\<lambda>c. JStr [c]) s)"
| "py_iter (JArr xs) = Inr xs"
| "py_iter (JObj d) = Inr (map JStr (dkeys d))"
| "py_iter j = Inl (Exn TypeError (py_repr (type_name j) @ '' object is not iterable''))"

text \<open>Membership in a set of strings hashes the value first.\<close>

fun in_str_set :: "json \<Rightarrow> string list \<Rightarrow> bool result" where
  "in_str_set (JArr xs) ss = Inl (Exn TypeError (''unhashable type: '' @ py_repr ''list''))"
| "in_str_set (JObj d) ss = Inl (Exn TypeError (''unhashable type: '' @ py_repr ''dict''))"
| "in_str_set (JStr s) ss = Inr (s \<in> set ss)"
| "in_str_set j ss = Inr False"

text \<open>\<open>float(j)\<close>\<close>

fun py_float :: "json \<Rightarrow> pyfloat result" where
  "py_float (JFloat x) = Inr x"
| "py_float (JInt i) = (case mk_float (of_int i) of
       Fin q \<Rightarrow> Inr (Fin q)
     | _ \<Rightarrow> Inl (Exn OverflowError ''int too large to convert to float''))"
| "py_float (JBool b) = Inr (Fin (if b then 1 else 0))"
| "py_float (JStr s) = (case float_of_str s of
       Some x \<Rightarrow> Inr x
     | None \<Rightarrow> Inl (Exn ValueError (''could not convert string to float: '' @ py_repr s)))"
| "py_float j = Inl (Exn TypeError (''float() argument must be a string or a real number, not '' @ py_repr (type_name j)))"

section \<open>json.dumps\<close>

record dump_opts =
  ensure_ascii :: bool
  sort_keys :: bool
  item_sep :: string
  key_sep :: string

definition hex4 :: "nat \<Rightarrow> string" where
  "hex4 n = [hex_digit (n div 4096 mod 16), hex_digit (n div 256 mod 16), hex_digit (n div 16 mod 16), hex_digit (n mod 16)]"

definition bs :: char where "bs = CHR 0x5C"

definition dump_char :: "bool \<Rightarrow> char \<Rightarrow> string" where
  "dump_char asc c = (let n = code c in
     if n = 34 then [bs, c] else if n = 92 then [bs, c]
     else if n = 8 then [bs, CHR ''b''] else if n = 12 then [bs, CHR ''f'']
     else if n = 10 then [bs, CHR ''n''] else if n = 13 then [bs, CHR ''r'']
     else if n = 9 then [bs, CHR ''t'']
     else if n < 32 \<or> asc \<and> 127 \<le> n then [bs, CHR ''u''] @ hex4 n
     else [c])"

definition dump_str :: "bool \<Rightarrow> string \<Rightarrow> string" where
  "dump_str asc s = [CHR 0x22] @ concat (map (dump_char asc) s) @ [CHR 0x22]"

fun dump_float :: "pyfloat \<Rightarrow> string" where
  "dump_float NaN = ''NaN''"
| "dump_float PInf = ''Infinity''"
| "dump_float NInf = ''-Infinity''"
| "dump_float x = repr_float x"

fun dumps :: "dump_opts \<Rightarrow> json \<Rightarrow> string" where
  "dumps opt JNull = ''null''"
| "dumps opt (JBool b) = (if b then ''true'' else ''false'')"
| "dumps opt (JInt i) = str_of_int i"
| "dumps opt (JFloat x) = dump_float x"
| "dumps opt (JStr s) = dump_str (ensure_ascii opt) s"
| "dumps opt (JArr xs) = ''['' @ join (item_sep opt) (map (dumps opt) xs) @ '']''"
| "dumps opt (JObj d) =
     (let kvs = map (\<lambda>(k, v). (k, dumps opt v)) d
      in ''{'' @ join (item_sep opt)
           (map (\<lambda>(k, v). dump_str (ensure_ascii opt) k @ key_sep opt @ v)
              (if sort_keys opt then sort_key fst kvs else kvs)) @ ''}'')"

text \<open>\<open>json.dumps(x)\<close> with the default options.\<close>

definition default_opts :: dump_opts where
  "default_opts = \<lparr>ensure_ascii = True, sort_keys = False, item_sep = '', '', key_sep = '': ''\<rparr>"

section \<open>json.loads\<close>

text \<open>
  The scanner works on the rest of the document; an error keeps the rest at the
  position it reports, from which line, column and offset are computed at the end.
\<close>

datatype jerr = Expect string string | IntTooLong nat | NoFuel

type_synonym 'a scan = "jerr + 'a \<times> string"

definition is_ws :: "char \<Rightarrow> bool" where
  "is_ws c \<longleftrightarrow> (let n = code c in n = 32 \<or> n = 9 \<or> n = 10 \<or> n = 13)"

definition skip_ws :: "string \<Rightarrow> string" where
  "skip_ws s = dropWhile is_ws s"

definition hex_val :: "char \<Rightarrow> nat option" where
  "hex_val c = (let n = code c in
     if 48 \<le> n \<and> n \<le> 57 then Some (n - 48)
     else if 97 \<le> n \<and> n \<le> 102 then Some (n - 87)
     else if 65 \<le> n \<and> n \<le> 70 then Some (n - 55) else None)"

definition hex_quad :: "string \<Rightarrow> nat option" where
  "hex_quad s = (case map hex_val (take 4 s) of
       [Some a, Some b, Some c, Some d] \<Rightarrow> Some (4096 * a + 256 * b + 16 * c + d)
     | _ \<Rightarrow> None)"

text \<open>The simple escapes; an escaped code point above 255 becomes the substitute character.\<close>

definition unescape :: "char \<Rightarrow> char option" where
  "unescape c = (if c = CHR 0x22 \<or> c = bs \<or> c = CHR ''/'' then Some c
     else if c = CHR ''b'' then Some (CHR 0x08) else if c = CHR ''f'' then Some (CHR 0x0C)
     else if c = CHR ''n'' then Some (CHR 0x0A) else if c = CHR ''r'' then Some (CHR 0x0D)
     else if c = CHR ''t'' then Some (CHR 0x09) else None)"

definition code_point :: "nat \<Rightarrow> char" where
  "code_point n = (if n < 256 then char_of n else CHR 0x1A)"

definition scan_u :: "string \<Rightarrow> (char \<times> string) option" where
  "scan_u s = (case hex_quad s of
       None \<Rightarrow> None
     | Some n \<Rightarrow>
         (let r = drop 4 s
          in if 55296 \<le> n \<and> n \<le> 56319 \<and> take 2 r = [bs, CHR ''u''] \<and> 6 < length r
             then (case hex_quad (drop 2 r) of
                 Some m \<Rightarrow> if 56320 \<le> m \<and> m \<le> 57343 then Some (CHR 0x1A, drop 6 r)
                           else Some (code_point n, r)
               | None \<Rightarrow> Some (code_point n, r))
             else Some (code_point n, r)))"

lemma scan_u_length: "scan_u s = Some (d, r) \<Longrightarrow> length r \<le> length s"
  by (auto simp: scan_u_def Let_def split: option.splits if_splits)

text \<open>\<open>scanstring\<close>, after the opening quote; \<open>b\<close> is the rest at that quote.\<close>

function (sequential) scan_str :: "string \<Rightarrow> string \<Rightarrow> string \<Rightarrow> string scan" where
  "scan_str b acc [] = Inl (Expect ''Unterminated string starting at'' b)"
| "scan_str b acc (c # s) =
     (if c = CHR 0x22 then Inr (rev acc, s)
      else if c = bs then
        (case s of
           [] \<Rightarrow> Inl (Expect ''Unterminated string starting at'' b)
         | e # r \<Rightarrow>
             if e = CHR ''u'' then
               (if length r \<le> 4 then Inl (Expect (''Invalid '' @ [bs] @ ''uXXXX escape'') s)
                else case scan_u r of
                    None \<Rightarrow> Inl (Expect (''Invalid '' @ [bs] @ ''uXXXX escape'') s)
                  | Some (d, r') \<Rightarrow> scan_str b (d # acc) r')
             else (case unescape e of
                 Some d \<Rightarrow> scan_str b (d # acc) r
               | None \<Rightarrow> Inl (Expect (''Invalid '' @ [bs] @ ''escape'') (c # s))))
      else if code c < 32 then Inl (Expect ''Invalid control character at'' (c # s))
      else scan_str b (c # acc) s)"
  by pat_completeness auto

termination
  by (relation "measure (\<lambda>(b, acc, s). length s)") (auto dest!: scan_u_length)

text \<open>The parts of a number: sign, integer digits, fraction digits, exponent text.\<close>

definition num_int :: "string \<Rightarrow> string" where
  "num_int s = (if s \<noteq> [] \<and> hd s = CHR ''0'' then [CHR ''0''] else takeWhile is_digit s)"

definition num_frac :: "string \<Rightarrow> string" where
  "num_frac s = (if s \<noteq> [] \<and> hd s = CHR ''.'' then takeWhile is_digit (tl s) else [])"

definition num_exp :: "string \<Rightarrow> string" where
  "num_exp s =
     (if s \<noteq> [] \<and> (hd s = CHR ''e'' \<or> hd s = CHR ''E'') then
        (let t = tl s; sg = (if t \<noteq> [] \<and> (hd t = CHR ''-'' \<or> hd t = CHR ''+'') then [hd t] else []);
             ds = takeWhile is_digit (drop (length sg) t)
         in if ds = [] then [] else hd s # sg @ ds)
      else [])"

definition num_value :: "bool \<Rightarrow> string \<Rightarrow> string \<Rightarrow> string \<Rightarrow> (jerr + json) option" where
  "num_value neg ip fp es =
     (if fp = [] \<and> es = [] then
        Some (if 4300 < length ip then Inl (IntTooLong (length ip))
              else Inr (JInt (if neg then - int_of_digits ip else int_of_digits ip)))
      else map_option (\<lambda>q. Inr (JFloat (mk_float (if neg then - q else q))))
             (parse_decimal (ip @ (if fp = [] then [] else CHR ''.'' # fp) @ es)))"

definition scan_number :: "string \<Rightarrow> json scan option" where
  "scan_number s =
     (let neg = (s \<noteq> [] \<and> hd s = CHR ''-''); s1 = (if neg then tl s else s);
          ip = num_int s1; r1 = drop (length ip) s1;
          fp = num_frac r1; r2 = drop (if fp = [] then 0 else Suc (length fp)) r1;
          es = num_exp r2; r3 = drop (length es) r2
      in if ip = [] then None
         else map_option (map_sum id (\<lambda>v. (v, r3))) (num_value neg ip fp es))"

text \<open>The literals, tried before a number.\<close>

definition scan_literal :: "string \<Rightarrow> (json \<times> string) option" where
  "scan_literal s =
     (if startswith s ''null'' then Some (JNull, drop 4 s)
      else if startswith s ''true'' then Some (JBool True, drop 4 s)
      else if startswith s ''false'' then Some (JBool False, drop 5 s)
      else if startswith s ''NaN'' then Some (JFloat NaN, drop 3 s)
      else if startswith s ''Infinity'' then Some (JFloat PInf, drop 8 s)
      else if startswith s ''-Infinity'' then Some (JFloat NInf, drop 9 s) else None)"

fun scan_value :: "nat \<Rightarrow> string \<Rightarrow> json scan"
  and scan_members :: "nat \<Rightarrow> (string \<times> json) list \<Rightarrow> string \<Rightarrow> json scan"
  and scan_elems :: "nat \<Rightarrow> json list \<Rightarrow> string \<Rightarrow> json scan" where
  "scan_value 0 s = Inl NoFuel"
| "scan_value (Suc f) s =
     (case s of
        [] \<Rightarrow> Inl (Expect ''Expecting value'' s)
      | c # r \<Rightarrow>
          if c = CHR 0x22 then
            (case scan_str s [] r of Inl e \<Rightarrow> Inl e | Inr (x, r') \<Rightarrow> Inr (JStr x, r'))
          else if c = CHR ''{'' then
            (let r' = skip_ws r in
             if r' \<noteq> [] \<and> hd r' = CHR ''}'' then Inr (JObj [], tl r') else scan_members f [] r')
          else if c = CHR ''['' then
            (let r' = skip_ws r in
             if r' \<noteq> [] \<and> hd r' = CHR '']'' then Inr (JArr [], tl r') else scan_elems f [] r')
          else (case scan_literal s of
              Some res \<Rightarrow> Inr res
            | None \<Rightarrow> (case scan_number s of
                Some res \<Rightarrow> res
              | None \<Rightarrow> Inl (Expect ''Expecting value'' s))))"
| "scan_members 0 acc s = Inl NoFuel"
| "scan_members (Suc f) acc s =
     (if s = [] \<or> hd s \<noteq> CHR 0x22
      then Inl (Expect ''Expecting property name enclosed in double quotes'' s)
      else (case scan_str s [] (tl s) of
          Inl e \<Rightarrow> Inl e
        | Inr (k, r0) \<Rightarrow>
            (let r1 = skip_ws r0 in
             if r1 = [] \<or> hd r1 \<noteq> CHR '':'' then Inl (Expect ''Expecting ':' delimiter'' r1)
             else (case scan_value f (skip_ws (tl r1)) of
                 Inl e \<Rightarrow> Inl e
               | Inr (v, r2) \<Rightarrow>
                   (let r3 = skip_ws r2; acc' = dset k v acc in
                    if r3 \<noteq> [] \<and> hd r3 = CHR ''}'' then Inr (JObj acc', tl r3)
                    else if r3 = [] \<or> hd r3 \<noteq> CHR '','' then Inl (Expect ''Expecting ',' delimiter'' r3)
                    else scan_members f acc' (skip_ws (tl r3)))))))"
| "scan_elems 0 acc s = Inl NoFuel"
| "scan_elems (Suc f) acc s =
     (case scan_value f s of
        Inl e \<Rightarrow> Inl e
      | Inr (v, r2) \<Rightarrow>
          (let r3 = skip_ws r2; acc' = acc @ [v] in
           if r3 \<noteq> [] \<and> hd r3 = CHR '']'' then Inr (JArr acc', tl r3)
           else if r3 = [] \<or> hd r3 \<noteq> CHR '','' then Inl (Expect ''Expecting ',' delimiter'' r3)
           else scan_elems f acc' (skip_ws (tl r3))))"

text \<open>\<open>JSONDecodeError\<close>: line and column counted from the offset.\<close>

definition decode_error :: "string \<Rightarrow> string \<Rightarrow> string \<Rightarrow> pyexn" where
  "decode_error doc msg rest =
     (let pos = length doc - length rest; pre = take pos doc;
          line = Suc (length (filter (\<lambda>c. code c = 10) pre));
          col = Suc (length (takeWhile (\<lambda>c. code c \<noteq> 10) (rev pre)))
      in Exn JSONDecodeError (msg @ '': line '' @ str_of_nat line @ '' column '' @ str_of_nat col
           @ '' (char '' @ str_of_nat pos @ '')''))"

definition exn_of_jerr :: "string \<Rightarrow> jerr \<Rightarrow> pyexn" where
  "exn_of_jerr doc e = (case e of
       Expect msg rest \<Rightarrow> decode_error doc msg rest
     | IntTooLong n \<Rightarrow> Exn ValueError (''Exceeds the limit (4300 digits) for integer string conversion: value has ''
         @ str_of_nat n @ '' digits; use sys.set_int_max_str_digits() to increase the limit'')
     | NoFuel \<Rightarrow> Exn OtherError [])"

definition loads_scan :: "string \<Rightarrow> json scan" where
  "loads_scan doc = scan_value (2 * length doc + 1) (skip_ws doc)"

definition loads :: "string \<Rightarrow> json result" where
  "loads doc = (case loads_scan doc of
       Inl e \<Rightarrow> Inl (exn_of_jerr doc e)
     | Inr (v, r) \<Rightarrow> (let r' = skip_ws r in
         if r' = [] then Inr v else Inl (decode_error doc ''Extra data'' r')))"

section \<open>The scanner consumes input, and its fuel is enough\<close>

lemma length_skip_ws: "length (skip_ws s) \<le> length s"
  by (simp add: skip_ws_def length_dropWhile_le)

lemma scan_str_length: "scan_str b acc s = Inr (x, r) \<Longrightarrow> length r < length s"
proof (induction b acc s rule: scan_str.induct)
  case (2 b acc c s)
  consider "c = CHR 0x22" | "c \<noteq> CHR 0x22" "c = bs" | "c \<noteq> CHR 0x22" "c \<noteq> bs" by blast
  then show ?case
  proof cases
    case 1
    with "2.prems" show ?thesis by simp
  next
    case 2
    with "2.prems" obtain e t where s: "s = e # t" by (auto split: list.splits)
    show ?thesis
    proof (cases "e = CHR ''u''")
      case True
      with 2 s "2.prems" obtain d t' where u: "scan_u t = Some (d, t')" "\<not> length t \<le> 4"
        and eq: "scan_str b (d # acc) t' = Inr (x, r)"
        by (auto split: if_splits option.splits)
      have "length r < length t'"
        using 2 s True u eq by (intro "2.IH"(1) [of e t "(d, t')" d t']) auto
      with scan_u_length [OF u(1)] s show ?thesis by simp
    next
      case False
      with 2 s "2.prems" obtain d where d: "unescape e = Some d"
        and eq: "scan_str b (d # acc) t = Inr (x, r)"
        by (auto split: if_splits option.splits)
      have "length r < length t"
        using 2 s False d eq by (intro "2.IH"(2) [of e t d]) auto
      with s show ?thesis by simp
    qed
  next
    case 3
    with "2.prems" have "scan_str b (c # acc) s = Inr (x, r)" "\<not> code c < 32"
      by (auto split: if_splits)
    with 3 "2.IH"(3) show ?thesis by fastforce
  qed
qed simp

lemma scan_literal_length: "scan_literal s = Some (v, r) \<Longrightarrow> length r < length s"
  by (auto simp: scan_literal_def startswith_iff split: if_splits)

lemma map_sum_eq_Inr: "map_sum id f z = Inr y \<longleftrightarrow> (\<exists>x. z = Inr x \<and> y = f x)"
  by (cases z) auto

lemma scan_number_length:
  assumes "scan_number s = Some (Inr (v, r))"
  shows "length r < length s"
proof -
  define s1 where "s1 = (if s \<noteq> [] \<and> hd s = CHR ''-'' then tl s else s)"
  define ip where "ip = num_int s1"
  have ip: "ip \<noteq> []" and r: "length r \<le> length (drop (length ip) s1)"
    using assms unfolding scan_number_def Let_def s1_def [symmetric] ip_def [symmetric]
    by (auto split: if_splits simp: map_sum_eq_Inr)
  then have "s1 \<noteq> []" by (auto simp: ip_def num_int_def split: if_splits)
  with ip have "length (drop (length ip) s1) < length s1" by simp
  moreover have "length s1 \<le> length s" by (simp add: s1_def)
  ultimately show ?thesis using r by linarith
qed

lemma length_tl_skip_ws: "skip_ws s \<noteq> [] \<Longrightarrow> length (tl (skip_ws s)) < length s"
  using length_skip_ws [of s] by (cases "skip_ws s") auto

lemma scan_members_Inr:
  assumes "scan_members (Suc f) acc s = Inr (v, r)"
  obtains k r0 x r2 where "scan_str s [] (tl s) = Inr (k, r0)" "s \<noteq> []" "skip_ws r0 \<noteq> []"
    "scan_value f (skip_ws (tl (skip_ws r0))) = Inr (x, r2)" "skip_ws r2 \<noteq> []"
    "v = JObj (dset k x acc) \<and> r = tl (skip_ws r2)
     \<or> scan_members f (dset k x acc) (skip_ws (tl (skip_ws r2))) = Inr (v, r)"
  using assms by (auto simp: Let_def split: if_splits sum.splits)

lemma scan_elems_Inr:
  assumes "scan_elems (Suc f) acc s = Inr (v, r)"
  obtains x r2 where "scan_value f s = Inr (x, r2)" "skip_ws r2 \<noteq> []"
    "v = JArr (acc @ [x]) \<and> r = tl (skip_ws r2)
     \<or> scan_elems f (acc @ [x]) (skip_ws (tl (skip_ws r2))) = Inr (v, r)"
  using assms by (auto simp: Let_def split: if_splits sum.splits)

lemma scan_value_Inr:
  assumes "scan_value (Suc f) s = Inr (v, r)"
  obtains (str) t x where "s = CHR 0x22 # t" "scan_str s [] t = Inr (x, r)" "v = JStr x"
    | (eobj) t where "s = CHR ''{'' # t" "skip_ws t \<noteq> []" "v = JObj []" "r = tl (skip_ws t)"
    | (obj) t where "s = CHR ''{'' # t" "scan_members f [] (skip_ws t) = Inr (v, r)"
    | (earr) t where "s = CHR ''['' # t" "skip_ws t \<noteq> []" "v = JArr []" "r = tl (skip_ws t)"
    | (arr) t where "s = CHR ''['' # t" "scan_elems f [] (skip_ws t) = Inr (v, r)"
    | (lit) "scan_literal s = Some (v, r)"
    | (num) "scan_number s = Some (Inr (v, r))"
proof (cases s)
  case Nil
  with assms show ?thesis by simp
next
  case (Cons c t)
  consider "c = CHR 0x22" | "c = CHR ''{''" | "c = CHR ''[''"
    | "c \<noteq> CHR 0x22" "c \<noteq> CHR ''{''" "c \<noteq> CHR ''[''" by blast
  then show ?thesis
  proof cases
    case 1
    with assms Cons obtain x where "scan_str s [] t = Inr (x, r)" "v = JStr x"
      by (auto split: sum.splits)
    with 1 Cons str show ?thesis by blast
  next
    case 2
    with assms Cons have "skip_ws t \<noteq> [] \<and> v = JObj [] \<and> r = tl (skip_ws t)
        \<or> scan_members f [] (skip_ws t) = Inr (v, r)" by (auto simp: Let_def split: if_splits)
    with 2 Cons eobj obj show ?thesis by blast
  next
    case 3
    with assms Cons have "skip_ws t \<noteq> [] \<and> v = JArr [] \<and> r = tl (skip_ws t)
        \<or> scan_elems f [] (skip_ws t) = Inr (v, r)" by (auto simp: Let_def split: if_splits)
    with 3 Cons earr arr show ?thesis by blast
  next
    case 4
    with assms Cons have "(case scan_literal s of Some res \<Rightarrow> Inr res
        | None \<Rightarrow> (case scan_number s of Some res \<Rightarrow> res
            | None \<Rightarrow> Inl (Expect ''Expecting value'' s))) = Inr (v, r)"
      unfolding Cons by simp
    with lit num show ?thesis by (auto split: option.splits)
  qed
qed

lemma scan_lengths:
  "(scan_value f s = Inr (v, r) \<longrightarrow> length r < length s)
   \<and> (scan_members f acc s = Inr (v, r) \<longrightarrow> length r < length s)
   \<and> (scan_elems f xs s = Inr (v, r) \<longrightarrow> length r < length s)"
proof (induction f arbitrary: s acc xs v r)
  case 0
  show ?case by simp
next
  case (Suc f)
  have vl: "length r < length s" if "scan_value f s = Inr (v, r)" for s v r
    using Suc.IH that by blast
  have ml: "length r < length s" if "scan_members f acc s = Inr (v, r)" for acc s v r
    using Suc.IH that by blast
  have el: "length r < length s" if "scan_elems f xs s = Inr (v, r)" for xs s v r
    using Suc.IH that by blast
  have 1: "length r < length s" if "scan_value (Suc f) s = Inr (v, r)"
    using that
  proof (cases rule: scan_value_Inr)
    case (obj t)
    with ml [OF obj(2)] length_skip_ws [of t] show ?thesis by simp
  next
    case (arr t)
    with el [OF arr(2)] length_skip_ws [of t] show ?thesis by simp
  qed (auto dest: scan_str_length scan_literal_length scan_number_length
      length_tl_skip_ws intro: less_SucI)
  have 2: "length r < length s" if "scan_members (Suc f) acc s = Inr (v, r)"
    using that
  proof (cases rule: scan_members_Inr)
    case (1 k r0 x r2)
    then have "length r0 < length s" "length (tl (skip_ws r0)) < length r0"
      "length r2 < length (skip_ws (tl (skip_ws r0)))" "length (tl (skip_ws r2)) < length r2"
      using scan_str_length [OF 1(1)] length_tl_skip_ws [of r0] vl [OF 1(4)] length_tl_skip_ws [of r2]
      by auto
    then show ?thesis
      using 1(6) ml [of "dset k x acc" "skip_ws (tl (skip_ws r2))" v r]
        length_skip_ws [of "tl (skip_ws r0)"] length_skip_ws [of "tl (skip_ws r2)"] by auto
  qed
  have 3: "length r < length s" if "scan_elems (Suc f) xs s = Inr (v, r)"
    using that
  proof (cases rule: scan_elems_Inr)
    case (1 x r2)
    then have "length r2 < length s" "length (tl (skip_ws r2)) < length r2"
      using vl [OF 1(1)] length_tl_skip_ws [of r2] by auto
    then show ?thesis
      using 1(3) el [of "xs @ [x]" "skip_ws (tl (skip_ws r2))" v r]
        length_skip_ws [of "tl (skip_ws r2)"] by auto
  qed
  from 1 2 3 show ?case by blast
qed

text \<open>Twice the length of the text, plus one, is fuel enough.\<close>

lemma scan_str_NoFuel: "scan_str b acc s \<noteq> Inl NoFuel"
proof (induction b acc s rule: scan_str.induct)
  case (2 b acc c s)
  consider "c = CHR 0x22" | "c \<noteq> CHR 0x22" "c = bs" | "c \<noteq> CHR 0x22" "c \<noteq> bs" by blast
  then show ?case
  proof cases
    case 1
    then show ?thesis by simp
  next
    case 2
    show ?thesis
    proof (cases s)
      case Nil
      with 2 show ?thesis by simp
    next
      case (Cons e t)
      with 2 "2.IH"(1) [of e t] "2.IH"(2) [of e t] show ?thesis
        by (auto split: option.splits)
    qed
  next
    case 3
    with "2.IH"(3) show ?thesis by simp
  qed
qed simp

lemma scan_number_NoFuel: "scan_number s \<noteq> Some (Inl NoFuel)"
  by (auto simp: scan_number_def num_value_def Let_def map_sum_def split: sum.splits)

lemma scan_fuel:
  "(2 * length s + 1 \<le> f \<longrightarrow> scan_value f s \<noteq> Inl NoFuel)
   \<and> (2 * length s + 1 \<le> f \<longrightarrow> scan_members f acc s \<noteq> Inl NoFuel)
   \<and> (2 * length s + 2 \<le> f \<longrightarrow> scan_elems f xs s \<noteq> Inl NoFuel)"
proof (induction f arbitrary: s acc xs)
  case 0
  show ?case by simp
next
  case (Suc f)
  have vf: "scan_value f s \<noteq> Inl NoFuel" if "2 * length s + 1 \<le> f" for s
    using Suc.IH that by blast
  have mf: "scan_members f acc s \<noteq> Inl NoFuel" if "2 * length s + 1 \<le> f" for acc s
    using Suc.IH that by blast
  have ef: "scan_elems f xs s \<noteq> Inl NoFuel" if "2 * length s + 2 \<le> f" for xs s
    using Suc.IH that by blast
  have 1: "scan_value (Suc f) s \<noteq> Inl NoFuel" if le: "2 * length s + 1 \<le> Suc f"
  proof (cases s)
    case Nil
    then show ?thesis by simp
  next
    case (Cons c t)
    have t: "2 * length (skip_ws t) + 2 \<le> f"
      using length_skip_ws [of t] le Cons by simp
    have "(case scan_literal s of Some res \<Rightarrow> Inr res
        | None \<Rightarrow> (case scan_number s of Some res \<Rightarrow> res
            | None \<Rightarrow> Inl (Expect ''Expecting value'' s))) \<noteq> Inl NoFuel"
      using scan_number_NoFuel [of s] by (auto split: option.splits)
    with Cons t mf [of "skip_ws t" "[]"] ef [of "skip_ws t" "[]"] show ?thesis
      using scan_str_NoFuel [of s "[]" t] by (auto simp: Let_def split: sum.splits)
  qed
  have 2: "scan_members (Suc f) acc s \<noteq> Inl NoFuel" if le: "2 * length s + 1 \<le> Suc f"
  proof
    assume a: "scan_members (Suc f) acc s = Inl NoFuel"
    then obtain k r0 where k: "scan_str s [] (tl s) = Inr (k, r0)" "s \<noteq> []" "skip_ws r0 \<noteq> []"
      and c: "scan_value f (skip_ws (tl (skip_ws r0))) = Inl NoFuel
        \<or> (\<exists>x r2. scan_value f (skip_ws (tl (skip_ws r0))) = Inr (x, r2) \<and> skip_ws r2 \<noteq> []
            \<and> scan_members f (dset k x acc) (skip_ws (tl (skip_ws r2))) = Inl NoFuel)"
      using scan_str_NoFuel by (auto simp: Let_def split: if_splits sum.splits)
    have l0: "length (skip_ws (tl (skip_ws r0))) + 2 \<le> length s"
      using scan_str_length [OF k(1)] k(2) length_tl_skip_ws [OF k(3)]
        length_skip_ws [of "tl (skip_ws r0)"] by (cases s) auto
    from c show False
    proof (elim disjE exE conjE)
      assume "scan_value f (skip_ws (tl (skip_ws r0))) = Inl NoFuel"
      with vf l0 le show False by auto
    next
      fix x r2
      assume x: "scan_value f (skip_ws (tl (skip_ws r0))) = Inr (x, r2)" "skip_ws r2 \<noteq> []"
        and m: "scan_members f (dset k x acc) (skip_ws (tl (skip_ws r2))) = Inl NoFuel"
      have "length r2 < length (skip_ws (tl (skip_ws r0)))" using scan_lengths x(1) by blast
      with l0 length_tl_skip_ws [OF x(2)] length_skip_ws [of "tl (skip_ws r2)"] le
      have "2 * length (skip_ws (tl (skip_ws r2))) + 1 \<le> f" by linarith
      with mf m show False by blast
    qed
  qed
  have 3: "scan_elems (Suc f) xs s \<noteq> Inl NoFuel" if le: "2 * length s + 2 \<le> Suc f"
  proof
    assume a: "scan_elems (Suc f) xs s = Inl NoFuel"
    have "scan_value f s \<noteq> Inl NoFuel" using le by (intro vf) simp
    with a obtain x r2 where x: "scan_value f s = Inr (x, r2)" "skip_ws r2 \<noteq> []"
      and m: "scan_elems f (xs @ [x]) (skip_ws (tl (skip_ws r2))) = Inl NoFuel"
      by (auto simp: Let_def split: if_splits sum.splits)
    have "length r2 < length s" using scan_lengths x(1) by blast
    with length_tl_skip_ws [OF x(2)] length_skip_ws [of "tl (skip_ws r2)"] le
    have "2 * length (skip_ws (tl (skip_ws r2))) + 2 \<le> f" by linarith
    with ef m show False by blast
  qed
  from 1 2 3 show ?case by blast
qed

lemma loads_scan_fuel: "loads_scan doc \<noteq> Inl NoFuel"
  using scan_fuel [of "skip_ws doc" "2 * length doc + 1"] length_skip_ws [of doc]
  by (auto simp: loads_scan_def)

text \<open>Every object in a decoded value has distinct keys.\<close>

fun json_ok :: "json \<Rightarrow> bool" where
  "json_ok (JArr xs) = list_all json_ok xs"
| "json_ok (JObj d) = (dict_ok d \<and> list_all (\<lambda>(k, v). json_ok v) d)"
| "json_ok _ = True"

lemma list_all_dset: "list_all (\<lambda>(k, v). P v) d \<Longrightarrow> P v \<Longrightarrow> list_all (\<lambda>(k, v). P v) (dset k v d)"
  by (induction k v d rule: dset.induct) auto

lemma scan_ok:
  "(scan_value f s = Inr (v, r) \<longrightarrow> json_ok v)
   \<and> (scan_members f acc s = Inr (v, r) \<and> json_ok (JObj acc) \<longrightarrow> json_ok v)
   \<and> (scan_elems f xs s = Inr (v, r) \<and> json_ok (JArr xs) \<longrightarrow> json_ok v)"
proof (induction f arbitrary: s acc xs v r)
  case 0
  show ?case by simp
next
  case (Suc f)
  have 1: "json_ok v" if "scan_value (Suc f) s = Inr (v, r)"
    using that
  proof (cases rule: scan_value_Inr)
    case (obj t)
    with Suc.IH show ?thesis by fastforce
  next
    case (arr t)
    with Suc.IH show ?thesis by fastforce
  next
    case lit
    then show ?thesis by (auto simp: scan_literal_def split: if_splits)
  next
    case num
    then show ?thesis
      by (auto simp: scan_number_def num_value_def Let_def map_sum_eq_Inr split: if_splits)
  qed auto
  have 2: "json_ok v" if "scan_members (Suc f) acc s = Inr (v, r)" "json_ok (JObj acc)"
    using that(1)
  proof (cases rule: scan_members_Inr)
    case (1 k r0 x r2)
    have "json_ok x" using Suc.IH 1(4) by blast
    then have "json_ok (JObj (dset k x acc))" using that(2) by (auto intro: list_all_dset)
    with 1(6) Suc.IH show ?thesis by blast
  qed
  have 3: "json_ok v" if "scan_elems (Suc f) xs s = Inr (v, r)" "json_ok (JArr xs)"
    using that(1)
  proof (cases rule: scan_elems_Inr)
    case (1 x r2)
    have "json_ok x" using Suc.IH 1(1) by blast
    then have "json_ok (JArr (xs @ [x]))" using that(2) by simp
    with 1(3) Suc.IH show ?thesis by blast
  qed
  from 1 2 3 show ?case by blast
qed

lemma loads_ok: "loads doc = Inr v \<Longrightarrow> json_ok v"
proof -
  assume "loads doc = Inr v"
  then obtain r where "loads_scan doc = Inr (v, r)"
    by (auto simp: loads_def Let_def split: sum.splits if_splits)
  then show ?thesis unfolding loads_scan_def using scan_ok by blast
qed

end
