(* ===== verification/State.thy ===== *)
theory State
  imports Json
begin

text \<open>
  The shared state of the pipeline (\<open>backend/core/state.py\<close>): task nodes,
  recalled memory items, the \<open>NexusState\<close> dictionary and its initial value, and
  the updates agents return, which the graph runtime merges key by key.
\<close>

datatype task_status = Pending | In_progress | Done | Failed

record task_node =
  task_id :: string
  description :: string
  status :: task_status
  depends_on :: "string list"
  tool_hints :: "string list"
  assigned_model :: string
  task_output :: "string option"

record tool_result =
  tr_tool :: string
  tr_task_id :: string
  tr_ok :: bool
  tr_data :: string
  tr_error :: "string option"

record memory_item =
  mi_session_id :: string
  mi_goal :: string
  mi_quality_score :: pyfloat
  mi_content_preview :: string
  mi_output_type :: string

record nexus_state =
  user_goal :: string
  session_id :: string
  user_id :: string
  task_plan :: "task_node list"
  research_context :: "string dict"
  execution_output :: "string dict"
  verification_report :: "json dict"
  quality_score :: pyfloat
  reflection_feedback :: string
  iteration_count :: int
  max_iterations :: int
  session_memory :: "memory_item list"
  error_log :: "string list"
  disclaimer :: "string option"

definition initial_state :: "string \<Rightarrow> string \<Rightarrow> string \<Rightarrow> memory_item list \<Rightarrow> nexus_state" where
  "initial_state goal sid uid mem =
     \<lparr>user_goal = goal, session_id = sid, user_id = uid,
      task_plan = [], research_context = [], execution_output = [],
      verification_report = [], quality_score = Fin 0, reflection_feedback = [],
      iteration_count = 0, max_iterations = 3, session_memory = mem,
      error_log = [], disclaimer = None\<rparr>"

text \<open>
  A node of the graph returns a dictionary with some of the keys of the state.
  A key that is absent is \<open>None\<close>; the state has no reducers, so merging replaces
  the value of every key that is present.
\<close>

record state_update =
  u_task_plan :: "task_node list option"
  u_research_context :: "string dict option"
  u_execution_output :: "string dict option"
  u_verification_report :: "json dict option"
  u_quality_score :: "pyfloat option"
  u_reflection_feedback :: "string option"
  u_iteration_count :: "int option"
  u_error_log :: "string list option"
  u_disclaimer :: "string option"

definition no_update :: state_update where
  "no_update = \<lparr>u_task_plan = None, u_research_context = None, u_execution_output = None,
     u_verification_report = None, u_quality_score = None, u_reflection_feedback = None,
     u_iteration_count = None, u_error_log = None, u_disclaimer = None\<rparr>"

definition or_else :: "'a option \<Rightarrow> 'a \<Rightarrow> 'a" where
  "or_else x y = (case x of None \<Rightarrow> y | Some v \<Rightarrow> v)"

lemma or_else_simps [simp]: "or_else None y = y" "or_else (Some v) y = v"
  by (simp_all add: or_else_def)

definition merge_update :: "nexus_state \<Rightarrow> state_update \<Rightarrow> nexus_state" where
  "merge_update st u = st
     \<lparr>task_plan := or_else (u_task_plan u) (task_plan st),
      research_context := or_else (u_research_context u) (research_context st),
      execution_output := or_else (u_execution_output u) (execution_output st),
      verification_report := or_else (u_verification_report u) (verification_report st),
      quality_score := or_else (u_quality_score u) (quality_score st),
      reflection_feedback := or_else (u_reflection_feedback u) (reflection_feedback st),
      iteration_count := or_else (u_iteration_count u) (iteration_count st),
      error_log := or_else (u_error_log u) (error_log st),
      disclaimer := (case u_disclaimer u of None \<Rightarrow> disclaimer st | Some d \<Rightarrow> Some d)\<rparr>"

lemma merge_update_fields [simp]:
  "task_plan (merge_update st u) = or_else (u_task_plan u) (task_plan st)"
  "research_context (merge_update st u) = or_else (u_research_context u) (research_context st)"
  "execution_output (merge_update st u) = or_else (u_execution_output u) (execution_output st)"
  "verification_report (merge_update st u) = or_else (u_verification_report u) (verification_report st)"
  "quality_score (merge_update st u) = or_else (u_quality_score u) (quality_score st)"
  "reflection_feedback (merge_update st u) = or_else (u_reflection_feedback u) (reflection_feedback st)"
  "iteration_count (merge_update st u) = or_else (u_iteration_count u) (iteration_count st)"
  "error_log (merge_update st u) = or_else (u_error_log u) (error_log st)"
  "disclaimer (merge_update st u) = (case u_disclaimer u of None \<Rightarrow> disclaimer st | Some d \<Rightarrow> Some d)"
  by (simp_all add: merge_update_def)

lemma merge_update_frame [simp, frame_simps]:
  "user_goal (merge_update st u) = user_goal st"
  "session_id (merge_update st u) = session_id st"
  "user_id (merge_update st u) = user_id st"
  "max_iterations (merge_update st u) = max_iterations st"
  "session_memory (merge_update st u) = session_memory st"
  by (simp_all add: merge_update_def)

text \<open>\<open>x or d\<close> on an integer and on a string: zero and the empty string count as absent.\<close>

definition int_or :: "int \<Rightarrow> int \<Rightarrow> int" where
  "int_or i d = (if i = 0 then d else i)"

definition disclaimed :: "nexus_state \<Rightarrow> bool" where
  "disclaimed st \<longleftrightarrow> disclaimer st \<noteq> None \<and> disclaimer st \<noteq> Some []"

end
