(* ===== verification/Context.thy ===== *)
theory Context
  imports State
begin

text \<open>
  Context assembly (\<open>backend/core/context.py\<close>): the user message each agent receives.
  Shown here: no message exceeds the agent's input budget, whatever the state holds; the
  map fields enter a message in key order, so a message depends on what the maps hold and
  not on the order they were filled in; and what truncation keeps of an over-long text.
\<close>

section \<open>Constants and helpers\<close>

definition chars_per_token :: int where "chars_per_token = 4"
definition planner_budget :: int where "planner_budget = 4000 * chars_per_token"
definition executor_budget :: int where "executor_budget = 8000 * chars_per_token"
definition verifier_budget :: int where "verifier_budget = 12000 * chars_per_token"
definition reflector_budget :: int where "reflector_budget = 8000 * chars_per_token"
definition summarise_threshold :: int where "summarise_threshold = 6000 * chars_per_token"

text \<open>\<open>load_prompt\<close>: the cache is a module-level dictionary; \<open>read_file\<close> is the
  directory of prompt files, absent files raising.\<close>

definition load_prompt :: "(string \<Rightarrow> string result) \<Rightarrow> string \<Rightarrow> string dict \<Rightarrow> (string \<times> string dict) result" where
  "load_prompt read_file agent cache =
     (if dget cache agent = None
      then rbind (read_file (agent @ ''.md'')) (\<lambda>text. Inr (text, dset agent text cache))
      else Inr (dget_or cache agent [], cache))"

text \<open>\<open>xs[:i]\<close>: a negative bound counts from the end.\<close>

definition py_prefix :: "int \<Rightarrow> 'a list \<Rightarrow> 'a list" where
  "py_prefix i xs = (if 0 \<le> i then take (nat i) xs else take (length xs - nat (- i)) xs)"

definition trunc_suffix :: "int \<Rightarrow> string \<Rightarrow> string" where
  "trunc_suffix max_chars label = nl @ ''... ['' @ label @ '' truncated to ''
     @ str_of_int (max_chars div chars_per_token) @ '' tokens]''"

definition truncate_text :: "string \<Rightarrow> int \<Rightarrow> string \<Rightarrow> string" where
  "truncate_text text max_chars label =
     (if int (length text) \<le> max_chars then text
      else (let suffix = trunc_suffix max_chars label
            in py_prefix (max_chars - int (length suffix)) text @ suffix))"

definition json_opts :: dump_opts where
  "json_opts = \<lparr>ensure_ascii = False, sort_keys = True, item_sep = '', '', key_sep = '': ''\<rparr>"

definition to_json :: "json \<Rightarrow> string" where
  "to_json j = dumps json_opts j"

definition str_map_json :: "string dict \<Rightarrow> json" where
  "str_map_json d = JObj (map (\<lambda>(k, v). (k, JStr v)) d)"

definition summarise_map :: "string dict \<Rightarrow> int \<Rightarrow> string dict" where
  "summarise_map d entry_limit = map (\<lambda>(k, v). (k, truncate_text v entry_limit k)) (dsorted d)"

definition entry_limit :: int where "entry_limit = 500 * chars_per_token"

definition maybe_summarise :: "string dict \<Rightarrow> string dict" where
  "maybe_summarise d =
     (if summarise_threshold < int (length (to_json (str_map_json d)))
      then summarise_map d entry_limit
      else dsorted d)"

section \<open>The values of the state as JSON\<close>

fun status_str :: "task_status \<Rightarrow> string" where
  "status_str Pending = ''pending''"
| "status_str In_progress = ''in_progress''"
| "status_str Done = ''done''"
| "status_str Failed = ''failed''"

definition task_json :: "task_node \<Rightarrow> json" where
  "task_json t = JObj
     [(''id'', JStr (task_id t)), (''description'', JStr (description t)),
      (''status'', JStr (status_str (status t))),
      (''depends_on'', JArr (map JStr (depends_on t))), (''tool_hints'', JArr (map JStr (tool_hints t))),
      (''assigned_model'', JStr (assigned_model t)),
      (''output'', (case task_output t of None \<Rightarrow> JNull | Some s \<Rightarrow> JStr s))]"

section \<open>Context builders\<close>

definition memory_line :: "memory_item \<Rightarrow> string" where
  "memory_line m = ''- ('' @ repr_float (round_float 2 (mi_quality_score m)) @ '') '' @ mi_goal m
     @ '' '' @ rarrow @ '' '' @ take 200 (mi_content_preview m)"

definition planner_parts :: "nexus_state \<Rightarrow> string list" where
  "planner_parts st =
     [''Goal: '' @ user_goal st]
     @ (if session_memory st \<noteq> []
        then [join nl ([[], ''Prior relevant work from your past sessions:'']
                @ map memory_line (take 5 (session_memory st)))]
        else [])
     @ (if 1 < iteration_count st
        then [nl @ ''This is iteration '' @ str_of_int (iteration_count st) @ ''. The previous attempt scored ''
               @ format_fixed 2 (quality_score st) @ '' and the Reflector flagged:'' @ nl
               @ reflection_feedback st @ nl @ ''Produce a REVISED plan that addresses these issues.'']
        else [])"

definition build_planner_context :: "nexus_state \<Rightarrow> string" where
  "build_planner_context st =
     truncate_text (join (nl @ nl) (planner_parts st)) planner_budget ''planner_context''"

definition dep_line :: "string dict \<Rightarrow> string \<Rightarrow> string" where
  "dep_line exec_out d = ''- '' @ d @ '': ''
     @ truncate_text (dget_or exec_out d ''(no output)'') (1000 * chars_per_token) d"

definition executor_parts :: "task_node \<Rightarrow> nexus_state \<Rightarrow> string list" where
  "executor_parts task st =
     (let task_research = truncate_text
            (dget_or (research_context st) (task_id task) ''No research context available.'')
            (3000 * chars_per_token) ''research_context'';
          dep_lines = map (dep_line (execution_output st)) (sort (depends_on task))
      in [''Task ID: '' @ task_id task,
          ''Description: '' @ description task,
          ''Tool hints: '' @ join '', '' (tool_hints task),
          ''Research context for this task:'' @ nl @ task_research]
         @ (if dep_lines \<noteq> [] then [''Outputs from dependencies:'' @ nl @ join nl dep_lines] else [])
         @ [''Generate a Python script. Use print() for captured output.''])"

definition build_executor_context :: "task_node \<Rightarrow> nexus_state \<Rightarrow> string" where
  "build_executor_context task st =
     truncate_text (join (nl @ nl) (executor_parts task st)) executor_budget ''executor_context''"

definition verifier_parts :: "nexus_state \<Rightarrow> string list" where
  "verifier_parts st =
     [''Original goal: '' @ user_goal st,
      ''Task plan:'' @ nl @ to_json (JArr (map task_json (task_plan st))),
      ''Research context (summarised):'' @ nl @ to_json (str_map_json (maybe_summarise (research_context st))),
      ''Execution outputs:'' @ nl
        @ truncate_text (to_json (str_map_json (maybe_summarise (execution_output st))))
            (8000 * chars_per_token) ''execution_output'',
      ''Verify completeness, factual_grounding, and format_compliance.'' @ nl
        @ ''Output the verification report JSON.'']"

definition build_verifier_context :: "nexus_state \<Rightarrow> string" where
  "build_verifier_context st =
     truncate_text (join (nl @ nl) (verifier_parts st)) verifier_budget ''verifier_context''"

definition reflector_parts :: "nexus_state \<Rightarrow> string list" where
  "reflector_parts st =
     [''Original goal: '' @ user_goal st,
      ''Iteration: '' @ str_of_int (iteration_count st) @ '' of '' @ str_of_int (max_iterations st),
      ''Verifier report:'' @ nl @ to_json (JObj (verification_report st)),
      ''Execution output (truncated preview):'' @ nl
        @ truncate_text (to_json (str_map_json (dsorted (execution_output st))))
            (4000 * chars_per_token) ''execution_output'',
      ''Error log (last 10):'' @ nl
        @ to_json (JArr (map JStr (drop (length (error_log st) - 10) (error_log st))))]"

definition build_reflector_context :: "nexus_state \<Rightarrow> string" where
  "build_reflector_context st =
     truncate_text (join (nl @ nl) (reflector_parts st)) reflector_budget ''reflector_context''"

section \<open>Truncation\<close>

lemmas budget_simps = chars_per_token_def planner_budget_def executor_budget_def
  verifier_budget_def reflector_budget_def summarise_threshold_def entry_limit_def

lemma length_py_prefix:
  "int (length (py_prefix i xs)) = (if 0 \<le> i then min i (int (length xs)) else max 0 (int (length xs) + i))"
  by (auto simp: py_prefix_def)

lemma truncate_text_length:
  assumes "int (length (trunc_suffix m l)) \<le> m"
  shows "int (length (truncate_text text m l)) \<le> m"
  using assms by (simp add: truncate_text_def Let_def length_py_prefix)

text \<open>The suffix of a label for a budget below ten million tokens.\<close>

lemma length_trunc_suffix:
  assumes "0 \<le> m" "m div 4 < 10 ^ 6"
  shows "int (length (trunc_suffix m l)) \<le> int (length l) + 34"
proof -
  have "length (str_of_digits (m div 4)) \<le> 6"
    using assms by (intro length_str_of_digits) auto
  moreover have "\<not> m div 4 < 0" using assms(1) by (simp add: not_less)
  ultimately show ?thesis
    by (simp add: trunc_suffix_def nl_def chars_per_token_def str_of_int_def)
qed

lemma truncate_budget:
  assumes "int (length l) + 34 \<le> m" "m div 4 < 10 ^ 6"
  shows "int (length (truncate_text text m l)) \<le> m"
proof (rule truncate_text_length)
  have "0 \<le> m" using assms(1) by linarith
  from length_trunc_suffix [OF this assms(2), of l] assms(1)
  show "int (length (trunc_suffix m l)) \<le> m" by linarith
qed

lemma truncate_keeps: "int (length text) \<le> m \<Longrightarrow> truncate_text text m l = text"
  by (simp add: truncate_text_def)

section \<open>Key order\<close>

text \<open>Two dictionaries with the same entries.\<close>

definition same_entries :: "'v dict \<Rightarrow> 'v dict \<Rightarrow> bool" where
  "same_entries d d' \<longleftrightarrow> dict_ok d \<and> dict_ok d' \<and> (\<forall>k. dget d k = dget d' k)"

lemma dict_entries: "dict_ok d \<Longrightarrow> set d = {(k, v). dget d k = Some v}"
  by (auto simp: dict_ok_def dkeys_def dget_def map_of_eq_Some_iff)

lemma same_entries_set: "same_entries d d' \<Longrightarrow> set d = set d'"
  by (simp add: same_entries_def dict_entries)

lemma sort_fst_unique:
  assumes "distinct (map fst d)" "distinct (map fst d')" "set d = set d'"
  shows "sort_key fst d = sort_key fst d'"
proof (rule map_sorted_distinct_set_unique [where f = fst])
  have "inj_on fst (set d)" using assms(1) by (simp add: distinct_map)
  with assms(3) show "inj_on fst (set (sort_key fst d) \<union> set (sort_key fst d'))" by simp
  show "distinct (map fst (sort_key fst d))" "distinct (map fst (sort_key fst d'))"
    using assms(1,2) by (simp_all add: distinct_map)
qed (use assms(3) in simp_all)

lemma dsorted_unique: "same_entries d d' \<Longrightarrow> dsorted d = dsorted d'"
  using same_entries_set [of d d'] sort_fst_unique [of d d']
  by (auto simp: dsorted_def same_entries_def dict_ok_def dkeys_def)

lemma to_json_obj_unique:
  assumes "same_entries d d'"
  shows "to_json (str_map_json d) = to_json (str_map_json d')"
proof -
  let ?f = "\<lambda>(k, v). (k, dumps json_opts v)" and ?g = "\<lambda>(k, v). (k, JStr v)"
  have fst: "map fst (map ?f (map ?g e)) = dkeys e" for e :: "string dict"
    by (auto simp: dkeys_def)
  have "sort_key fst (map ?f (map ?g d)) = sort_key fst (map ?f (map ?g d'))"
  proof (rule sort_fst_unique)
    show "distinct (map fst (map ?f (map ?g d)))" "distinct (map fst (map ?f (map ?g d')))"
      using assms unfolding fst by (auto simp: same_entries_def dict_ok_def)
    show "set (map ?f (map ?g d)) = set (map ?f (map ?g d'))"
      using same_entries_set [OF assms] by simp
  qed
  then show ?thesis
    by (simp add: to_json_def str_map_json_def json_opts_def)
qed

lemma maybe_summarise_unique: "same_entries d d' \<Longrightarrow> maybe_summarise d = maybe_summarise d'"
  by (simp add: maybe_summarise_def to_json_obj_unique summarise_map_def dsorted_unique [of d d'])

section \<open>Properties\<close>

text \<open>C34: no message exceeds its agent's input budget: 16,000 characters for the planner, 32,000
  for the executor and the reflector and 48,000 for the verifier, for every state and task.\<close>

theorem contexts_within_budget:
  "int (length (build_planner_context st)) \<le> 16000
   \<and> int (length (build_executor_context task st)) \<le> 32000
   \<and> int (length (build_verifier_context st)) \<le> 48000
   \<and> int (length (build_reflector_context st)) \<le> 32000"
  unfolding build_planner_context_def build_executor_context_def build_verifier_context_def
    build_reflector_context_def budget_simps
  by (intro conjI order_trans [OF truncate_budget]) simp_all

text \<open>The messages depend on what the research and execution maps hold, never on the order
  their entries were added in: replacing both maps by others with the same entries leaves
  the verifier's, the executor's and the reflector's message unchanged.\<close>

theorem contexts_key_order:
  assumes "same_entries (research_context st) rc" "same_entries (execution_output st) eo"
  defines "st' \<equiv> st\<lparr>research_context := rc, execution_output := eo\<rparr>"
  shows "build_verifier_context st' = build_verifier_context st
    \<and> build_executor_context task st' = build_executor_context task st
    \<and> build_reflector_context st' = build_reflector_context st"
proof -
  have g: "dget_or rc k x = dget_or (research_context st) k x"
    "dget_or eo k x = dget_or (execution_output st) k x" for k and x :: string
    using assms(1,2) by (simp_all add: same_entries_def dget_or_def)
  then have "dep_line eo = dep_line (execution_output st)"
    by (simp add: dep_line_def fun_eq_iff)
  with g have e: "executor_parts task st' = executor_parts task st"
    by (simp add: executor_parts_def st'_def)
  note eqs = dsorted_unique [OF assms(2)] maybe_summarise_unique [OF assms(1)]
    maybe_summarise_unique [OF assms(2)]
  have "verifier_parts st' = verifier_parts st" "reflector_parts st' = reflector_parts st"
    by (simp_all add: verifier_parts_def reflector_parts_def st'_def eqs)
  with e show ?thesis
    by (simp add: build_verifier_context_def build_executor_context_def build_reflector_context_def)
qed

theorem contexts_key_order_witness:
  "build_reflector_context (initial_state ''g'' ''s'' ''u'' [] \<lparr>research_context := [],
       execution_output := [(''b'', ''2''), (''a'', ''1'')]\<rparr>)
     = build_reflector_context (initial_state ''g'' ''s'' ''u'' [] \<lparr>execution_output := [(''a'', ''1''), (''b'', ''2'')]\<rparr>)"
proof -
  let ?st = "initial_state ''g'' ''s'' ''u'' [] \<lparr>execution_output := [(''a'', ''1''), (''b'', ''2'')]\<rparr>"
  have "same_entries (research_context ?st) []"
    "same_entries (execution_output ?st) [(''b'', ''2''), (''a'', ''1'')]"
    by (simp_all add: same_entries_def initial_state_def dict_ok_def dkeys_def)
  from contexts_key_order [OF this, of undefined] show ?thesis by simp
qed

text \<open>The exact length of a truncated text. A text within the limit is kept; a longer one is
  cut to exactly the limit as long as the notice fits the limit. When the label is so long
  that the notice alone exceeds the limit (a task id is such a label), the cut index is
  negative and the result is longer than the limit.\<close>

theorem truncate_text_exact_length:
  "int (length (truncate_text text m label)) =
     (let n = int (length text); s = int (length (trunc_suffix m label)) in
      if n \<le> m then n else if s \<le> m then m else max s (n + m))"
  by (auto simp: truncate_text_def Let_def length_py_prefix)

end
