(* ===== verification/Database.thy ===== *)
theory Database
  imports State
begin

text \<open>
  The relational database (\<open>backend/db/migrations/001_init.sql\<close>): the rows of the tables the
  program reads and writes, the constraints the schema declares, and Python's \<open>UUID\<close>, the
  type of their keys.
\<close>

section \<open>Identifiers\<close>

text \<open>A \<open>UUID\<close> is its 128-bit number. \<open>str\<close> prints 32 hexadecimal digits in five groups.\<close>

type_synonym uuid = nat

fun hex_digits :: "nat \<Rightarrow> nat \<Rightarrow> string" where
  "hex_digits 0 n = []"
| "hex_digits (Suc k) n = hex_digits k (n div 16) @ [hex_digit (n mod 16)]"

definition uuid_str :: "uuid \<Rightarrow> string" where
  "uuid_str n = (let h = hex_digits 32 n in
     take 8 h @ ''-'' @ take 4 (drop 8 h) @ ''-'' @ take 4 (drop 12 h) @ ''-'' @ take 4 (drop 16 h) @ ''-'' @ drop 20 h)"

text \<open>\<open>s.replace(old, new)\<close> for a non-empty \<open>old\<close>.\<close>

function replace_str :: "string \<Rightarrow> string \<Rightarrow> string \<Rightarrow> string" where
  "replace_str old new [] = []"
| "replace_str old new (c # s) =
     (if old \<noteq> [] \<and> startswith (c # s) old then new @ replace_str old new (drop (length old) (c # s))
      else c # replace_str old new s)"
  by pat_completeness auto
termination by (relation "measure (\<lambda>(old, new, s). length s)") (auto simp: less_Suc_eq_le neq_Nil_conv)

definition strip_braces :: "string \<Rightarrow> string" where
  "strip_braces s = (let b = (\<lambda>c. c = CHR ''{'' \<or> c = CHR ''}'') in rev (dropWhile b (rev (dropWhile b s))))"

text \<open>\<open>int(s, 16)\<close>: white space around, a sign, a prefix, single underscores between digits.\<close>

fun hex_number :: "bool \<Rightarrow> nat \<Rightarrow> string \<Rightarrow> nat option" where
  "hex_number ok acc [] = (if ok then Some acc else None)"
| "hex_number ok acc (c # s) = (case hex_val c of
       Some d \<Rightarrow> hex_number True (16 * acc + d) s
     | None \<Rightarrow> if c = CHR ''_'' \<and> ok then hex_number False acc s else None)"

definition hex_body :: "string \<Rightarrow> nat option" where
  "hex_body s =
     (if startswith s ''0x'' \<or> startswith s ''0X''
      then (case drop 2 s of
              [] \<Rightarrow> None
            | c # r \<Rightarrow> if c = CHR ''_'' then hex_number False 0 r else hex_number False 0 (c # r))
      else hex_number False 0 s)"

definition int_16 :: "string \<Rightarrow> int result" where
  "int_16 s =
     (let t = strip s;
          value = (case t of
              [] \<Rightarrow> None
            | c # r \<Rightarrow> if c = CHR ''-'' then map_option (\<lambda>n. - int n) (hex_body r)
                      else if c = CHR ''+'' then map_option int (hex_body r)
                      else map_option int (hex_body t))
      in case value of
           Some i \<Rightarrow> Inr i
         | None \<Rightarrow> Inl (Exn ValueError (''invalid literal for int() with base 16: '' @ py_repr s)))"

definition uuid_of :: "string \<Rightarrow> uuid result" where
  "uuid_of s =
     (let h = replace_str ''-'' [] (strip_braces (replace_str ''uuid:'' [] (replace_str ''urn:'' [] s)))
      in if length h \<noteq> 32 then Inl (Exn ValueError ''badly formed hexadecimal UUID string'')
         else rbind (int_16 h) (\<lambda>i.
              if 0 \<le> i \<and> i < 2 ^ 128 then Inr (nat i)
              else Inl (Exn ValueError ''int is out of range (need a 128-bit value)'')))"

section \<open>Tables\<close>

record user_row =
  us_id :: uuid
  us_email :: string
  us_password_hash :: string
  us_created_at :: int
  us_last_login_at :: "int option"
  us_is_active :: bool

record session_row =
  se_id :: uuid
  se_user_id :: uuid
  se_goal :: string
  se_status :: string
  se_final_output :: "string option"
  se_final_quality :: "pyfloat option"
  se_iteration_count :: int
  se_created_at :: int
  se_completed_at :: "int option"

record audit_row =
  au_id :: int
  au_session_id :: uuid
  au_agent_name :: string
  au_iteration :: int
  au_model_used :: string
  au_tokens_in :: int
  au_tokens_out :: int
  au_latency_ms :: int
  au_error :: "string option"
  au_created_at :: int

text \<open>Rows stand in the order they were inserted in.\<close>

record database =
  db_users :: "user_row list"
  db_sessions :: "session_row list"
  db_audit :: "audit_row list"

definition empty_db :: database where
  "empty_db = \<lparr>db_users = [], db_sessions = [], db_audit = []\<rparr>"

definition session_statuses :: "string list" where
  "session_statuses = [''pending'', ''running'', ''completed'', ''failed'', ''aborted'']"

text \<open>The constraints of the schema: keys and addresses are unique, statuses are among the five,
  and every session and audit entry refers to a row that exists.\<close>

definition db_ok :: "database \<Rightarrow> bool" where
  "db_ok db \<longleftrightarrow> distinct (map us_id (db_users db)) \<and> distinct (map us_email (db_users db))
     \<and> distinct (map se_id (db_sessions db))
     \<and> (\<forall>s \<in> set (db_sessions db). se_status s \<in> set session_statuses \<and> se_user_id s \<in> us_id ` set (db_users db))
     \<and> (\<forall>a \<in> set (db_audit db). au_session_id a \<in> se_id ` set (db_sessions db))"

definition violation :: "string \<Rightarrow> pyexn" where
  "violation constraint = Exn OtherError (''duplicate key value violates unique constraint '' @ constraint)"

text \<open>\<open>UPDATE ... WHERE\<close> on the session table; the command tag counts the rows it changed.\<close>

definition update_sessions :: "(session_row \<Rightarrow> bool) \<Rightarrow> (session_row \<Rightarrow> session_row) \<Rightarrow> database \<Rightarrow> nat \<times> database" where
  "update_sessions p f db =
     (length (filter p (db_sessions db)),
      db\<lparr>db_sessions := map (\<lambda>s. if p s then f s else s) (db_sessions db)\<rparr>)"

definition set_status :: "string \<Rightarrow> session_row \<Rightarrow> session_row" where
  "set_status st s = s\<lparr>se_status := st\<rparr>"

definition find_session :: "database \<Rightarrow> uuid \<Rightarrow> session_row option" where
  "find_session db i = find (\<lambda>s. se_id s = i) (db_sessions db)"

definition find_user :: "database \<Rightarrow> uuid \<Rightarrow> user_row option" where
  "find_user db i = find (\<lambda>u. us_id u = i) (db_users db)"

lemma set_status_fields [simp]:
  "se_id (set_status st s) = se_id s" "se_user_id (set_status st s) = se_user_id s"
  "se_status (set_status st s) = st" "se_goal (set_status st s) = se_goal s"
  "se_final_quality (set_status st s) = se_final_quality s" "se_created_at (set_status st s) = se_created_at s"
  "se_final_output (set_status st s) = se_final_output s"
  by (simp_all add: set_status_def)

lemma update_sessions_ok:
  assumes "db_ok db" "\<And>s. p s \<Longrightarrow> se_id (f s) = se_id s \<and> se_user_id (f s) = se_user_id s
      \<and> se_status (f s) \<in> set session_statuses"
  shows "db_ok (snd (update_sessions p f db))"
proof -
  let ?ss = "map (\<lambda>s. if p s then f s else s) (db_sessions db)"
  have ids: "map se_id ?ss = map se_id (db_sessions db)" using assms(2) by simp
  then have "se_id ` set ?ss = se_id ` set (db_sessions db)" by (metis list.set_map)
  with ids show ?thesis using assms unfolding db_ok_def update_sessions_def
    by (simp del: map_map list.set_map set_map) auto
qed

lemma find_session_Some: "find_session db i = Some s \<Longrightarrow> s \<in> set (db_sessions db) \<and> se_id s = i"
  by (auto simp: find_session_def find_Some_iff)

lemma find_session_None: "find_session db i = None \<longleftrightarrow> (\<forall>s \<in> set (db_sessions db). se_id s \<noteq> i)"
  by (auto simp: find_session_def find_None_iff)

lemma find_session_unique:
  assumes "distinct (map se_id (db_sessions db))" "s \<in> set (db_sessions db)"
  shows "find_session db (se_id s) = Some s"
proof (cases "find_session db (se_id s)")
  case None
  with assms(2) show ?thesis by (auto simp: find_session_None)
next
  case (Some t)
  with find_session_Some [OF this] assms show ?thesis by (auto simp: distinct_map dest: inj_onD)
qed

lemma find_map:
  "(\<And>x. P (f x) = P x) \<Longrightarrow> find P (map f xs) = map_option f (find P xs)"
  by (induction xs) auto

lemma find_session_update:
  assumes "\<And>s. se_id (f s) = se_id s"
  shows "find_session (snd (update_sessions p f db)) i = map_option (\<lambda>s. if p s then f s else s) (find_session db i)"
  unfolding find_session_def update_sessions_def by (simp add: find_map assms)

section \<open>Printing and reading identifiers\<close>

definition hex_char :: "char \<Rightarrow> bool" where
  "hex_char c \<longleftrightarrow> c \<in> set ''0123456789abcdef''"

lemma hex_digit_char: "hex_char (hex_digit (n mod 16)) \<and> hex_val (hex_digit (n mod 16)) = Some (n mod 16)"
proof -
  have "\<forall>k \<in> set [0..<16]. hex_char (hex_digit k) \<and> hex_val (hex_digit k) = Some k" by code_simp
  moreover have "n mod 16 \<in> set [0..<16]" by simp
  ultimately show ?thesis by blast
qed

lemma hex_digits_chars: "c \<in> set (hex_digits k n) \<Longrightarrow> hex_char c"
  by (induction k arbitrary: n) (auto simp: hex_digit_char)

lemma length_hex_digits [simp]: "length (hex_digits k n) = k"
  by (induction k arbitrary: n) auto

lemma hex_number_append:
  "(\<forall>c \<in> set s. hex_val c \<noteq> None) \<Longrightarrow> s \<noteq> [] \<Longrightarrow>
     hex_number ok acc (s @ t) = hex_number True (the (hex_number ok acc s)) t"
proof (induction s arbitrary: ok acc)
  case (Cons c s)
  then obtain d where d: "hex_val c = Some d" by auto
  show ?case
  proof (cases "s = []")
    case False
    with Cons d show ?thesis by simp
  qed (simp add: d)
qed simp

lemma hex_number_digits: "0 < k \<Longrightarrow> n < 16 ^ k \<Longrightarrow> hex_number ok 0 (hex_digits k n) = Some n"
proof (induction k arbitrary: n)
  case (Suc k)
  have last: "hex_number b acc [hex_digit (n mod 16)] = Some (16 * acc + n mod 16)" for b acc
    using hex_digit_char [of n] by simp
  show ?case
  proof (cases "k = 0")
    case False
    have "n div 16 < 16 ^ k" using Suc.prems(2) by (simp add: less_mult_imp_div_less mult.commute)
    with Suc.IH False have "hex_number ok 0 (hex_digits k (n div 16)) = Some (n div 16)" by simp
    moreover have "\<forall>c \<in> set (hex_digits k (n div 16)). hex_val c \<noteq> None"
    proof
      fix c assume "c \<in> set (hex_digits k (n div 16))"
      then have "hex_char c" by (rule hex_digits_chars)
      moreover have "\<forall>c \<in> set ''0123456789abcdef''. hex_val c \<noteq> None" by code_simp
      ultimately show "hex_val c \<noteq> None" unfolding hex_char_def by blast
    qed
    moreover have "hex_digits k (n div 16) \<noteq> []" using False by (metis length_0_conv length_hex_digits)
    ultimately show ?thesis using last hex_number_append by simp
  qed (use Suc.prems last in simp)
qed simp

lemma replace_str_id: "old \<noteq> [] \<Longrightarrow> hd old \<notin> set s \<Longrightarrow> replace_str old new s = s"
proof (induction s)
  case (Cons c s)
  then have "\<not> startswith (c # s) old" by (cases old) (auto simp: startswith_def)
  with Cons show ?case by simp
qed simp

lemma remove_dash: "replace_str ''-'' [] s = filter (\<lambda>c. c \<noteq> CHR ''-'') s"
  by (induction s) (auto simp: startswith_def)

lemma strip_braces_id:
  assumes "s \<noteq> []" "hex_char (hd s)" "hex_char (last s)"
  shows "strip_braces s = s"
proof -
  have "\<not> hex_char (CHR ''{'')" "\<not> hex_char (CHR ''}'')" by code_simp+
  with assms(2,3) have "hd s \<noteq> CHR ''{'' \<and> hd s \<noteq> CHR ''}''" "last s \<noteq> CHR ''{'' \<and> last s \<noteq> CHR ''}''"
    by metis+
  then have "dropWhile (\<lambda>c. c = CHR ''{'' \<or> c = CHR ''}'') s = s"
    "dropWhile (\<lambda>c. c = CHR ''{'' \<or> c = CHR ''}'') (rev s) = rev s"
    using assms(1) by (simp_all only: dropWhile_eq_self_iff hd_rev rev_is_Nil_conv simp_thms)
  then show ?thesis unfolding strip_braces_def Let_def by (simp only: rev_rev_ident)
qed

lemma int_16_digits:
  assumes "\<forall>c \<in> set s. hex_char c" "s \<noteq> []" "hex_number False 0 s = Some n"
  shows "int_16 s = Inr (int n)"
proof -
  have c: "\<forall>c \<in> set ''0123456789abcdef''. \<not> is_space c \<and> c \<noteq> CHR ''-'' \<and> c \<noteq> CHR ''+'' \<and> c \<noteq> CHR ''x'' \<and> c \<noteq> CHR ''X''"
    by code_simp
  with assms(1) have h: "\<forall>c \<in> set s. \<not> is_space c \<and> c \<noteq> CHR ''-'' \<and> c \<noteq> CHR ''+'' \<and> c \<noteq> CHR ''x'' \<and> c \<noteq> CHR ''X''"
    unfolding hex_char_def by blast
  then have "\<not> is_space (hd s)" "\<not> is_space (last s)" using assms(2) by simp_all
  then have "lstrip s = s" "dropWhile is_space (rev s) = rev s"
    using assms(2) by (simp_all add: lstrip_def dropWhile_eq_self_iff hd_rev)
  then have st: "strip s = s" by (simp add: strip_def)
  have x: "\<not> startswith s [c1, y]" if "y = CHR ''x'' \<or> y = CHR ''X''" for y c1
  proof
    assume "startswith s [c1, y]"
    then obtain t where "s = [c1, y] @ t" unfolding startswith_iff by blast
    then have "y \<in> set s" by simp
    with h that show False by blast
  qed
  have body: "hex_body s = Some n"
    unfolding hex_body_def using x [of "CHR ''x''"] x [of "CHR ''X''"] assms(3) by (simp only: if_False simp_thms)
  obtain d r where s: "s = d # r" using assms(2) by (cases s) auto
  with h have "d \<noteq> CHR ''-''" "d \<noteq> CHR ''+''" by simp_all
  with st body s show ?thesis unfolding int_16_def Let_def by (simp only: st list.case if_False option.map option.case)
qed

definition hyphenated :: "string \<Rightarrow> string" where
  "hyphenated h = take 8 h @ ''-'' @ take 4 (drop 8 h) @ ''-'' @ take 4 (drop 12 h) @ ''-'' @ take 4 (drop 16 h) @ ''-'' @ drop 20 h"

lemma uuid_of_hyphenated:
  assumes "length h = 32" "\<forall>c \<in> set h. hex_char c" "hex_number False 0 h = Some n" "n < 2 ^ 128"
  shows "uuid_of (hyphenated h) = Inr n"
proof -
  have "\<forall>c \<in> set ''0123456789abcdef''. c \<noteq> CHR ''u'' \<and> c \<noteq> CHR ''-''" by code_simp
  with assms(2) have ch: "\<forall>c \<in> set h. c \<noteq> CHR ''u'' \<and> c \<noteq> CHR ''-''" unfolding hex_char_def by blast
  let ?u = "hyphenated h"
  have "set ?u \<subseteq> insert (CHR ''-'') (set h)"
    by (auto simp: hyphenated_def dest: in_set_takeD in_set_dropD)
  with ch have u: "CHR ''u'' \<notin> set ?u" by auto
  have "drop 12 h = drop 4 (drop 8 h)" "drop 16 h = drop 4 (drop 12 h)" "drop 20 h = drop 4 (drop 16 h)" by simp_all
  then have parts: "take 8 h @ take 4 (drop 8 h) @ take 4 (drop 12 h) @ take 4 (drop 16 h) @ drop 20 h = h"
    by (simp only: append_take_drop_id)
  have keep: "filter (\<lambda>c. c \<noteq> CHR ''-'') xs = xs" if "set xs \<subseteq> set h" for xs
    using ch that by (intro filter_True) blast
  have subs: "set (take i (drop j h)) \<subseteq> set h" "set (drop j h) \<subseteq> set h" "set (take i h) \<subseteq> set h" for i j
    by (auto dest: in_set_takeD in_set_dropD)
  have filt: "filter (\<lambda>c. c \<noteq> CHR ''-'') ?u = h"
    unfolding hyphenated_def filter_append keep [OF subs(1)] keep [OF subs(2)] keep [OF subs(3)]
    using parts by simp
  have ends: "take 8 h \<noteq> []" "drop 20 h \<noteq> []" using assms(1) by auto
  then have "hd ?u \<in> set h" "last ?u \<in> set h"
    using subs(2,3) [THEN subsetD] by (auto simp: hyphenated_def hd_append last_append intro: list.set_sel last_in_set)
  then have braces: "strip_braces ?u = ?u"
    using assms(2) ends by (intro strip_braces_id) (auto simp: hyphenated_def)
  have noh: "replace_str ''uuid:'' [] ?u = ?u" "replace_str ''urn:'' [] ?u = ?u"
    using u by (intro replace_str_id; simp)+
  have "h \<noteq> []" using assms(1) by auto
  from int_16_digits [OF assms(2) this assms(3)] have "int_16 h = Inr (int n)" .
  with assms(1,4) show ?thesis unfolding uuid_of_def noh braces remove_dash filt Let_def by simp
qed

lemma uuid_of_str:
  assumes "n < 2 ^ 128"
  shows "uuid_of (uuid_str n) = Inr n"
proof -
  have "hex_number False 0 (hex_digits 32 n) = Some n"
    by (rule hex_number_digits) (use assms in simp_all)
  moreover have "uuid_str n = hyphenated (hex_digits 32 n)" by (simp only: uuid_str_def hyphenated_def Let_def)
  moreover have "\<forall>c \<in> set (hex_digits 32 n). hex_char c" using hex_digits_chars by blast
  ultimately show ?thesis using uuid_of_hyphenated [OF length_hex_digits] assms by (simp only:)
qed

end
