(* ===== verification/World.thy ===== *)
theory World
  imports Context Database
begin

text \<open>
  What the agents run against. The program's own mutable state outside \<open>NexusState\<close>
  is a record: the module-level singletons (model router, prompt cache, connection pool),
  the Redis and Postgres databases, the vectors written to the index, the files, and the
  frames sent on the web socket. Everything the program calls and does not implement is an oracle in the
  record \<open>env\<close>: chat models, sandbox server, search and embedding services, the hash
  function, the clock. Oracles are indexed by a counter of external events, so two calls
  with the same arguments may answer differently, fail, or succeed.

  Code that may raise and changes state is an action, a function from states to a result and
  the state afterwards; an exception keeps the changes made before it. The state is the world
  everywhere but in the theory of the clients.
\<close>

section \<open>Configuration (backend/config.py)\<close>

record settings =
  database_url :: string
  redis_url :: string
  openai_api_key :: string
  anthropic_api_key :: "string option"
  google_api_key :: "string option"
  provider_mode :: string
  tavily_api_key :: string
  pinecone_api_key :: string
  pinecone_index :: string
  jwt_secret :: string
  jwt_algorithm :: string
  jwt_expiry_seconds :: int
  sandbox_url :: string
  log_level :: string
  otel_exporter_otlp_endpoint :: string

definition no_key :: "string option \<Rightarrow> bool" where
  "no_key k \<longleftrightarrow> k = None \<or> k = Some []"

definition missing_key :: "string \<Rightarrow> pyexn" where
  "missing_key name = Exn ConfigurationError (''PROVIDER_MODE is '' @ py_repr ''multi'' @ '' but '' @ name
     @ '' is not set. Either set the key or set PROVIDER_MODE=openai_only.'')"

definition validate_multi_provider_keys :: "settings \<Rightarrow> settings result" where
  "validate_multi_provider_keys cfg =
     (if provider_mode cfg = ''multi'' then
        (if no_key (anthropic_api_key cfg) then Inl (missing_key ''ANTHROPIC_API_KEY'')
         else if no_key (google_api_key cfg) then Inl (missing_key ''GOOGLE_API_KEY'')
         else Inr cfg)
      else Inr cfg)"

section \<open>The world and its oracles\<close>

datatype chat_model = ChatOpenAI string | ChatAnthropic string | ChatGoogle string

record model_router =
  rt_mode :: string
  rt_names :: "string dict"
  rt_reasoning :: chat_model
  rt_code :: chat_model
  rt_extract :: chat_model

record exec_request =
  rq_code :: string
  rq_timeout :: int
  rq_task_id :: string

record exec_response =
  rs_success :: bool
  rs_stdout :: string
  rs_stderr :: string
  rs_exit_code :: int
  rs_wall_ms :: int

text \<open>A failed remote call carries a status name and a detail text.\<close>

datatype rpc_error = RpcError string string

text \<open>How an HTTP request can fail: time-out, other transport error, anything else.\<close>

datatype http_failure = HttpTimeout | HttpRequestError string | HttpOther pyexn

text \<open>A vector written to the index: its namespace, id, values and metadata.\<close>

record vector_row =
  ve_namespace :: string
  ve_id :: string
  ve_values :: json
  ve_metadata :: "json dict"

record env =
  e_settings :: settings
  e_new_client :: "chat_model \<Rightarrow> string option \<Rightarrow> pyexn option"
  e_prompt_file :: "string \<Rightarrow> string result"
  e_llm :: "nat \<Rightarrow> chat_model \<Rightarrow> string \<Rightarrow> string \<Rightarrow> json result"
  e_sandbox :: "nat \<Rightarrow> exec_request \<Rightarrow> int \<Rightarrow> rpc_error + exec_response"
  e_wall_ms :: "nat \<Rightarrow> int"
  e_redis_error :: "nat \<Rightarrow> pyexn option"
  e_time :: "nat \<Rightarrow> int"
  e_sha256 :: "string \<Rightarrow> string"
  e_set_order :: "string list \<Rightarrow> string list"
  e_tavily :: "nat \<Rightarrow> string \<Rightarrow> int \<Rightarrow> json result"
  e_embedding :: "nat \<Rightarrow> string \<Rightarrow> json result"
  e_vector_query :: "nat \<Rightarrow> vector_row list \<Rightarrow> json \<Rightarrow> int \<Rightarrow> string \<Rightarrow> pyfloat \<Rightarrow> json result"
  e_http :: "nat \<Rightarrow> string \<Rightarrow> string \<Rightarrow> string dict \<Rightarrow> json \<Rightarrow> http_failure + int \<times> string"
  e_pg_error :: "nat \<Rightarrow> pyexn option"
  e_row_order :: "nat \<Rightarrow> nat \<Rightarrow> nat list"
  e_new_uuid :: "nat \<Rightarrow> uuid"
  e_bcrypt_hash :: "nat \<Rightarrow> string \<Rightarrow> string result"
  e_bcrypt_check :: "string \<Rightarrow> string \<Rightarrow> bool result"
  e_jwt_encode :: "string \<Rightarrow> int \<Rightarrow> int \<Rightarrow> string \<Rightarrow> string \<Rightarrow> string"
  e_jwt_decode :: "int \<Rightarrow> string \<Rightarrow> string \<Rightarrow> string \<Rightarrow> json dict option"
  e_upsert_error :: "nat \<Rightarrow> pyexn option"
  e_isoformat :: "int \<Rightarrow> string"

text \<open>A Redis key holds a string or a set, and possibly the time it expires at.\<close>

datatype rvalue = RStr string | RSet "string list"

type_synonym redis_db = "string \<Rightarrow> (rvalue \<times> int option) option"

record world =
  w_tick :: nat
  w_llm_calls :: nat
  w_runs :: nat
  w_router :: "model_router option"
  w_prompts :: "string dict"
  w_redis :: redis_db
  w_files :: "string list \<Rightarrow> string option"
  w_pool :: bool
  w_db :: database
  w_vectors :: "vector_row list"
  w_frames :: "json dict list"

definition fresh_world :: world where
  "fresh_world = \<lparr>w_tick = 0, w_llm_calls = 0, w_runs = 0, w_router = None, w_prompts = [], w_redis = (\<lambda>_. None),
     w_files = (\<lambda>_. None), w_pool = False, w_db = empty_db, w_vectors = [], w_frames = []\<rparr>"

section \<open>Actions\<close>

type_synonym ('s, 'a) action = "'s \<Rightarrow> 'a result \<times> 's"
type_synonym 'a act = "(world, 'a) action"

definition aret :: "'a \<Rightarrow> ('s, 'a) action" where "aret x = (\<lambda>w. (Inr x, w))"

definition alift :: "'a result \<Rightarrow> ('s, 'a) action" where "alift r = (\<lambda>w. (r, w))"

definition abind :: "('s, 'a) action \<Rightarrow> ('a \<Rightarrow> ('s, 'b) action) \<Rightarrow> ('s, 'b) action" where
  "abind m f = (\<lambda>w. case m w of (Inl e, w') \<Rightarrow> (Inl e, w') | (Inr x, w') \<Rightarrow> f x w')"

text \<open>\<open>try: m except: h\<close>\<close>

definition acatch :: "('s, 'a) action \<Rightarrow> (pyexn \<Rightarrow> ('s, 'a) action) \<Rightarrow> ('s, 'a) action" where
  "acatch m h = (\<lambda>w. case m w of (Inl e, w') \<Rightarrow> h e w' | (Inr x, w') \<Rightarrow> (Inr x, w'))"

lemma aret_apply [simp]: "aret x w = (Inr x, w)"
  by (simp add: aret_def)

lemma alift_apply [simp]: "alift r w = (r, w)"
  by (simp add: alift_def)

lemma abind_Inr: "abind m f w = (Inr y, w'') \<longleftrightarrow> (\<exists>x w'. m w = (Inr x, w') \<and> f x w' = (Inr y, w''))"
  by (auto simp: abind_def split: prod.splits sum.splits)

lemma abind_step [simp]:
  "m w = (Inr x, w') \<Longrightarrow> abind m f w = f x w'"
  "m w = (Inl e, w') \<Longrightarrow> abind m f w = (Inl e, w')"
  by (simp_all add: abind_def)

lemma acatch_step [simp]:
  "m w = (Inr x, w') \<Longrightarrow> acatch m h w = (Inr x, w')"
  "m w = (Inl e, w') \<Longrightarrow> acatch m h w = h e w'"
  by (simp_all add: acatch_def)

definition is_ok :: "'a result \<Rightarrow> bool" where
  "is_ok r = (case r of Inl e \<Rightarrow> False | Inr x \<Rightarrow> True)"

lemma is_ok_run: "is_ok (fst m) \<Longrightarrow> \<exists>x w'. m = (Inr x, w')"
  by (cases m) (auto simp: is_ok_def split: sum.splits)

text \<open>
  A relation between the state before and after that every action of a program keeps:
  reflexive and transitive, so it goes through sequencing and exception handling.
\<close>

definition act_keeps :: "('s \<Rightarrow> 's \<Rightarrow> bool) \<Rightarrow> ('s, 'a) action \<Rightarrow> bool" where
  "act_keeps R m \<longleftrightarrow> (\<forall>w. R w (snd (m w)))"

locale world_order =
  fixes R :: "'s \<Rightarrow> 's \<Rightarrow> bool"
  assumes refl: "R w w"
    and trans: "R w w' \<Longrightarrow> R w' w'' \<Longrightarrow> R w w''"
begin

lemma keeps_aret [intro]: "act_keeps R (aret x)"
  by (simp add: act_keeps_def refl)

lemma keeps_alift [intro]: "act_keeps R (alift r)"
  by (simp add: act_keeps_def refl)

lemma keeps_abind [intro]:
  assumes "act_keeps R m" "\<And>x. act_keeps R (f x)"
  shows "act_keeps R (abind m f)"
  unfolding act_keeps_def
proof
  fix w
  obtain r w' where m: "m w = (r, w')" by (cases "m w")
  have "R w w'" using assms(1) m by (auto simp: act_keeps_def dest: spec [of _ w])
  moreover have "R w' (snd (f x w'))" for x using assms(2) by (simp add: act_keeps_def)
  ultimately show "R w (snd (abind m f w))"
    using trans m by (cases r) (auto simp: abind_def)
qed

lemma keeps_acatch [intro]:
  assumes "act_keeps R m" "\<And>e. act_keeps R (h e)"
  shows "act_keeps R (acatch m h)"
  unfolding act_keeps_def
proof
  fix w
  obtain r w' where m: "m w = (r, w')" by (cases "m w")
  have "R w w'" using assms(1) m by (auto simp: act_keeps_def dest: spec [of _ w])
  moreover have "R w' (snd (h e w'))" for e using assms(2) by (simp add: act_keeps_def)
  ultimately show "R w (snd (acatch m h w))"
    using trans m by (cases r) (auto simp: acatch_def)
qed

end

text \<open>Branching goes through any such relation.\<close>

lemma keeps_option: "act_keeps R a \<Longrightarrow> (\<And>y. act_keeps R (f y)) \<Longrightarrow> act_keeps R (case x of None \<Rightarrow> a | Some y \<Rightarrow> f y)"
  by (cases x) auto

lemma keeps_if: "(b \<Longrightarrow> act_keeps R m) \<Longrightarrow> (\<not> b \<Longrightarrow> act_keeps R n) \<Longrightarrow> act_keeps R (if b then m else n)"
  by simp

text \<open>External events and the clock.\<close>

definition tick :: "world \<Rightarrow> world" where
  "tick w = w\<lparr>w_tick := Suc (w_tick w)\<rparr>"

definition now :: "env \<Rightarrow> world \<Rightarrow> int" where
  "now env w = e_time env (w_tick w)"

lemma tick_simps [simp]:
  "w_tick (tick w) = Suc (w_tick w)" "w_llm_calls (tick w) = w_llm_calls w" "w_runs (tick w) = w_runs w"
  "w_router (tick w) = w_router w" "w_prompts (tick w) = w_prompts w" "w_redis (tick w) = w_redis w"
  "w_files (tick w) = w_files w" "w_pool (tick w) = w_pool w" "w_db (tick w) = w_db w"
  "w_vectors (tick w) = w_vectors w" "w_frames (tick w) = w_frames w"
  by (simp_all add: tick_def)

section \<open>Redis\<close>

definition live :: "int \<Rightarrow> (rvalue \<times> int option) option \<Rightarrow> rvalue option" where
  "live t e = (case e of
       None \<Rightarrow> None
     | Some (v, None) \<Rightarrow> Some v
     | Some (v, Some x) \<Rightarrow> if t < x then Some v else None)"

definition wrong_type :: pyexn where
  "wrong_type = Exn OtherError ''WRONGTYPE Operation against a key holding the wrong kind of value''"

definition db_get :: "int \<Rightarrow> string \<Rightarrow> redis_db \<Rightarrow> string option result" where
  "db_get t k db = (case live t (db k) of
       None \<Rightarrow> Inr None
     | Some (RStr s) \<Rightarrow> Inr (Some s)
     | Some (RSet _) \<Rightarrow> Inl wrong_type)"

definition db_set :: "int \<Rightarrow> string \<Rightarrow> string \<Rightarrow> int option \<Rightarrow> redis_db \<Rightarrow> redis_db" where
  "db_set t k s ttl db = db(k := Some (RStr s, map_option (\<lambda>d. t + d) ttl))"

text \<open>\<open>SADD\<close> counts the members it added, and keeps the expiry of a live key.\<close>

definition db_sadd :: "int \<Rightarrow> string \<Rightarrow> string \<Rightarrow> redis_db \<Rightarrow> (int \<times> redis_db) result" where
  "db_sadd t k m db = (case live t (db k) of
       None \<Rightarrow> Inr (1, db(k := Some (RSet [m], None)))
     | Some (RSet ms) \<Rightarrow> if m \<in> set ms then Inr (0, db)
                        else Inr (1, db(k := Some (RSet (ms @ [m]), snd (the (db k)))))
     | Some (RStr _) \<Rightarrow> Inl wrong_type)"

definition db_expire :: "int \<Rightarrow> string \<Rightarrow> int \<Rightarrow> redis_db \<Rightarrow> redis_db" where
  "db_expire t k ttl db = (case live t (db k) of
       None \<Rightarrow> db
     | Some v \<Rightarrow> db(k := Some (v, Some (t + ttl))))"

text \<open>A command either fails to reach the server or is carried out at the time of the call.\<close>

definition redis_cmd :: "env \<Rightarrow> (int \<Rightarrow> redis_db \<Rightarrow> ('a \<times> redis_db) result) \<Rightarrow> 'a act" where
  "redis_cmd env f = (\<lambda>w. case e_redis_error env (w_tick w) of
       Some e \<Rightarrow> (Inl e, tick w)
     | None \<Rightarrow> (case f (now env w) (w_redis w) of
           Inl e \<Rightarrow> (Inl e, tick w)
         | Inr (x, db) \<Rightarrow> (Inr x, tick (w\<lparr>w_redis := db\<rparr>))))"

definition redis_get :: "env \<Rightarrow> string \<Rightarrow> string option act" where
  "redis_get env k = redis_cmd env (\<lambda>t db. rbind (db_get t k db) (\<lambda>v. Inr (v, db)))"

definition redis_set :: "env \<Rightarrow> string \<Rightarrow> string \<Rightarrow> int option \<Rightarrow> unit act" where
  "redis_set env k s ttl = redis_cmd env (\<lambda>t db. Inr ((), db_set t k s ttl db))"

definition redis_sadd :: "env \<Rightarrow> string \<Rightarrow> string \<Rightarrow> int act" where
  "redis_sadd env k m = redis_cmd env (\<lambda>t db. db_sadd t k m db)"

definition redis_expire :: "env \<Rightarrow> string \<Rightarrow> int \<Rightarrow> unit act" where
  "redis_expire env k ttl = redis_cmd env (\<lambda>t db. Inr ((), db_expire t k ttl db))"

lemma live_simps [simp]:
  "live t None = None" "live t (Some (v, None)) = Some v"
  "live t (Some (v, Some x)) = (if t < x then Some v else None)"
  by (simp_all add: live_def)

lemma db_get_set:
  "db_get t' k' (db_set t k s ttl db) =
     (if k' = k then (case ttl of None \<Rightarrow> Inr (Some s) | Some d \<Rightarrow> Inr (if t' < t + d then Some s else None))
      else db_get t' k' db)"
  by (auto simp: db_get_def db_set_def split: option.splits)

text \<open>
  What a cache relies on: a value reads back until it expires, is gone afterwards, and
  writing one key leaves the others alone.
\<close>

locale ttl_store =
  fixes get :: "int \<Rightarrow> 'k \<Rightarrow> 'db \<Rightarrow> 'v option result"
    and set :: "int \<Rightarrow> 'k \<Rightarrow> 'v \<Rightarrow> int option \<Rightarrow> 'db \<Rightarrow> 'db"
  assumes get_set_live: "(\<And>d. ttl = Some d \<Longrightarrow> t' < t + d) \<Longrightarrow> get t' k (set t k v ttl db) = Inr (Some v)"
    and get_set_expired: "t + d \<le> t' \<Longrightarrow> get t' k (set t k v (Some d) db) = Inr None"
    and get_set_other: "k' \<noteq> k \<Longrightarrow> get t' k' (set t k v ttl db) = get t' k' db"
begin

text \<open>Reading through the cache: a fetched value is stored for \<open>d\<close> seconds.\<close>

definition read_through :: "int \<Rightarrow> 'k \<Rightarrow> int \<Rightarrow> 'v \<Rightarrow> 'db \<Rightarrow> 'v \<times> 'db" where
  "read_through t k d fetched db = (case get t k db of
       Inr (Some v) \<Rightarrow> (v, db)
     | _ \<Rightarrow> (fetched, set t k fetched (Some d) db))"

lemma read_through_hit:
  assumes "get t k db = Inr None" "t' < t + d" "read_through t k d v db = (x, db')"
  shows "read_through t' k d v' db' = (x, db')"
  using assms get_set_live [of "Some d" t' t k v db] by (auto simp: read_through_def)

lemma read_through_miss:
  assumes "get t k db = Inr None" "t + d \<le> t'" "read_through t k d v db = (x, db')"
  shows "fst (read_through t' k d v' db') = v'"
  using assms get_set_expired [of t d t' k v db] by (auto simp: read_through_def)

lemma last_write_wins:
  "(\<And>d. ttl' = Some d \<Longrightarrow> t' < t + d) \<Longrightarrow> get t' k (set t k v' ttl' (set t0 k v ttl db)) = Inr (Some v')"
  by (rule get_set_live)

end

interpretation redis: ttl_store db_get db_set
  by unfold_locales (auto simp: db_get_set split: option.splits)

end
