(* ===== verification/Router.thy ===== *)
theory Router
  imports World
begin

text \<open>
  Model routing (\<open>backend/core/models.py\<close>) and the provider switch: construction of a
  router for a provider mode, dispatch of a task type to a chat model, the module-level
  singleton, the configuration endpoints (\<open>backend/api/routes/config.py\<close>) and the mode
  loaded at start-up (\<open>backend/api/main.py\<close>). Chat model clients are third-party; what
  the program fixes is which provider and model name is behind each role.
\<close>

section \<open>Construction\<close>

definition code_keywords :: "string list" where
  "code_keywords = [''code'', ''script'', ''program'', ''implement'', ''function'', ''debug'']"

definition extract_keywords :: "string list" where
  "extract_keywords = [''extract'', ''parse'', ''scrape'', ''summarize'', ''chunk'']"

definition model_names_table :: "string dict dict" where
  "model_names_table =
     [(''openai_only'', [(''reasoning'', ''gpt-4o''), (''code'', ''gpt-4o''), (''extraction'', ''gpt-4o-mini'')]),
      (''multi'', [(''reasoning'', ''claude-sonnet-4-5''), (''code'', ''gpt-4o''),
                 (''extraction'', ''gemini-2.5-flash-preview-04-17'')])]"

text \<open>Constructing a client may raise, which depends on the client's library.\<close>

definition new_client :: "env \<Rightarrow> chat_model \<Rightarrow> string option \<Rightarrow> chat_model result" where
  "new_client env m key = (case e_new_client env m key of Some e \<Rightarrow> Inl e | None \<Rightarrow> Inr m)"

definition make_router :: "env \<Rightarrow> string option \<Rightarrow> model_router result" where
  "make_router env mode_arg =
     (let cfg = e_settings env;
          mode = (case mode_arg of Some m \<Rightarrow> if m = [] then provider_mode cfg else m | None \<Rightarrow> provider_mode cfg)
      in case dget model_names_table mode of
           None \<Rightarrow> Inl (Exn KeyError (py_repr mode))
         | Some names \<Rightarrow>
             if mode = ''openai_only'' then
               rbind (new_client env (ChatOpenAI ''gpt-4o'') (Some (openai_api_key cfg))) (\<lambda>r.
               rbind (new_client env (ChatOpenAI ''gpt-4o'') (Some (openai_api_key cfg))) (\<lambda>c.
               rbind (new_client env (ChatOpenAI ''gpt-4o-mini'') (Some (openai_api_key cfg))) (\<lambda>x.
               Inr \<lparr>rt_mode = mode, rt_names = names, rt_reasoning = r, rt_code = c, rt_extract = x\<rparr>)))
             else
               rbind (new_client env (ChatAnthropic ''claude-sonnet-4-5'') (anthropic_api_key cfg)) (\<lambda>r.
               rbind (new_client env (ChatOpenAI ''gpt-4o'') (Some (openai_api_key cfg))) (\<lambda>c.
               rbind (new_client env (ChatGoogle ''gemini-2.5-flash-preview-04-17'') (google_api_key cfg)) (\<lambda>x.
               Inr \<lparr>rt_mode = mode, rt_names = names, rt_reasoning = r, rt_code = c, rt_extract = x\<rparr>))))"

section \<open>Dispatch\<close>

definition router_get :: "model_router \<Rightarrow> string \<Rightarrow> chat_model" where
  "router_get r task_type =
     (let normalised = strip (lower task_type) in
      if normalised = ''code'' \<or> (\<exists>kw \<in> set code_keywords. contains kw normalised) then rt_code r
      else if normalised = ''extract'' \<or> (\<exists>kw \<in> set extract_keywords. contains kw normalised) then rt_extract r
      else rt_reasoning r)"

text \<open>The properties of a router: one for each role, and the older names by provider.\<close>

definition named_model :: "model_router \<Rightarrow> string \<Rightarrow> chat_model option" where
  "named_model r name =
     (if name = ''reasoning'' \<or> name = ''claude'' then Some (rt_reasoning r)
      else if name = ''code'' \<or> name = ''gpt4o'' then Some (rt_code r)
      else if name = ''extract'' \<or> name = ''gemini'' then Some (rt_extract r)
      else None)"

lemma dispatch_agrees: "name \<in> {''reasoning'', ''code'', ''extract''} \<Longrightarrow> named_model r name = Some (router_get r name)"
proof -
  have "router_get r ''reasoning'' = rt_reasoning r" "router_get r ''code'' = rt_code r" "router_get r ''extract'' = rt_extract r"
    by code_simp+
  then show "name \<in> {''reasoning'', ''code'', ''extract''} \<Longrightarrow> named_model r name = Some (router_get r name)"
    by (auto simp: named_model_def)
qed

section \<open>The active router\<close>

definition get_model_router :: "env \<Rightarrow> model_router act" where
  "get_model_router env = (\<lambda>w. case w_router w of
       Some r \<Rightarrow> (Inr r, w)
     | None \<Rightarrow> (case make_router env None of
           Inl e \<Rightarrow> (Inl e, w)
         | Inr r \<Rightarrow> (Inr r, w\<lparr>w_router := Some r\<rparr>)))"

definition set_model_router :: "model_router \<Rightarrow> unit act" where
  "set_model_router r = (\<lambda>w. (Inr (), w\<lparr>w_router := Some r\<rparr>))"

section \<open>The provider mode endpoints\<close>

datatype 'a http = Reply nat 'a | HttpError nat string

record provider_mode_response =
  pm_mode :: string
  pm_models :: "string dict"

definition redis_mode_key :: string where
  "redis_mode_key = ''nexus:config:provider_mode''"

definition get_provider_mode :: "env \<Rightarrow> provider_mode_response act" where
  "get_provider_mode env = abind (get_model_router env) (\<lambda>r. aret \<lparr>pm_mode = rt_mode r, pm_models = rt_names r\<rparr>)"

text \<open>\<open>mode\<close> is the validated field of the request body: one of the two modes.\<close>

definition update_provider_mode :: "env \<Rightarrow> string \<Rightarrow> provider_mode_response http act" where
  "update_provider_mode env mode =
     (case make_router env (Some mode) of
        Inl e \<Rightarrow> aret (HttpError (if exn_class e = ConfigurationError then 422 else 500) (exn_str e))
      | Inr new_router \<Rightarrow>
          abind (set_model_router new_router) (\<lambda>_.
          abind (acatch (redis_set env redis_mode_key mode None) (\<lambda>e. aret ())) (\<lambda>_.
          aret (Reply 200 \<lparr>pm_mode = rt_mode new_router, pm_models = rt_names new_router\<rparr>))))"

text \<open>The part of the start-up that restores the mode.\<close>

definition load_persisted_mode :: "env \<Rightarrow> unit act" where
  "load_persisted_mode env = acatch
     (abind (redis_get env redis_mode_key) (\<lambda>stored.
        (case stored of
           None \<Rightarrow> aret ()
         | Some mode \<Rightarrow>
             if mode \<noteq> [] \<and> mode \<in> {''multi'', ''openai_only''}
             then abind (alift (make_router env (Some mode))) set_model_router
             else aret ())))
     (\<lambda>e. aret ())"

section \<open>Facts about routers\<close>

definition known_mode :: "string \<Rightarrow> bool" where
  "known_mode m \<longleftrightarrow> m = ''multi'' \<or> m = ''openai_only''"

definition model_name :: "chat_model \<Rightarrow> string" where
  "model_name m = (case m of ChatOpenAI n \<Rightarrow> n | ChatAnthropic n \<Rightarrow> n | ChatGoogle n \<Rightarrow> n)"

text \<open>The router of a mode, when the clients can be built.\<close>

definition mode_router :: "string \<Rightarrow> model_router" where
  "mode_router m = \<lparr>rt_mode = m, rt_names = dget_or model_names_table m [],
     rt_reasoning = (if m = ''multi'' then ChatAnthropic ''claude-sonnet-4-5'' else ChatOpenAI ''gpt-4o''),
     rt_code = ChatOpenAI ''gpt-4o'',
     rt_extract = (if m = ''multi'' then ChatGoogle ''gemini-2.5-flash-preview-04-17'' else ChatOpenAI ''gpt-4o-mini'')\<rparr>"

lemma new_client_Inr: "new_client env m k = Inr m' \<Longrightarrow> m' = m"
  by (auto simp: new_client_def split: option.splits)

lemma new_client_Inl: "new_client env m k = Inl e \<longleftrightarrow> e_new_client env m k = Some e"
  by (auto simp: new_client_def split: option.splits)

lemma make_router_Inr:
  assumes "make_router env a = Inr r"
  shows "known_mode (rt_mode r) \<and> r = mode_router (rt_mode r)"
proof -
  let ?m = "case a of Some m \<Rightarrow> if m = [] then provider_mode (e_settings env) else m
    | None \<Rightarrow> provider_mode (e_settings env)"
  consider "?m = ''openai_only''" | "?m = ''multi''" | "dget model_names_table ?m = None"
    by (cases "?m = ''openai_only''"; cases "?m = ''multi''") (auto simp: model_names_table_def)
  then show ?thesis
  proof cases
    case 1
    with assms show ?thesis
      by (auto simp: make_router_def Let_def rbind_eq_Inr mode_router_def known_mode_def dget_or_def
          model_names_table_def dest!: new_client_Inr split: option.splits)
  next
    case 2
    with assms show ?thesis
      by (auto simp: make_router_def Let_def rbind_eq_Inr mode_router_def known_mode_def dget_or_def
          model_names_table_def dest!: new_client_Inr split: option.splits)
  next
    case 3
    with assms show ?thesis by (simp add: make_router_def Let_def)
  qed
qed

lemma make_router_mode:
  assumes "make_router env (Some m) = Inr r" "m \<noteq> []"
  shows "rt_mode r = m"
  using assms by (auto simp: make_router_def Let_def rbind_eq_Inr split: option.splits if_splits)

lemma make_router_error:
  assumes "make_router env (Some m) = Inl e" "known_mode m"
  shows "\<exists>c k. e_new_client env c k = Some e"
  using assms
  by (auto simp: make_router_def Let_def rbind_eq_Inl new_client_Inl known_mode_def model_names_table_def
      split: option.splits if_splits)

section \<open>Properties\<close>

text \<open>Every model assignment a validated task can carry reaches the model of that role, in
  either mode, and the names the configuration endpoint reports for the three roles are the
  names of the models the router dispatches to.\<close>

theorem router_roles:
  assumes "make_router env a = Inr r"
  shows "router_get r ''reasoning'' = rt_reasoning r \<and> router_get r ''code'' = rt_code r
    \<and> router_get r ''extract'' = rt_extract r
    \<and> dget (rt_names r) ''reasoning'' = Some (model_name (router_get r ''reasoning''))
    \<and> dget (rt_names r) ''code'' = Some (model_name (router_get r ''code''))
    \<and> dget (rt_names r) ''extraction'' = Some (model_name (router_get r ''extract''))"
proof -
  have k: "router_get r ''reasoning'' = rt_reasoning r" "router_get r ''code'' = rt_code r"
    "router_get r ''extract'' = rt_extract r" for r by code_simp+
  from make_router_Inr [OF assms] obtain m where "known_mode m" "r = mode_router m" by blast
  then show ?thesis unfolding k
    by (auto simp: known_mode_def mode_router_def dget_or_def model_names_table_def model_name_def)
qed

definition plain_settings :: settings where
  "plain_settings = \<lparr>database_url = ''postgresql://db'', redis_url = ''redis://r'', openai_api_key = ''k'', anthropic_api_key = None, google_api_key = None,
     provider_mode = ''openai_only'', tavily_api_key = ''t'',
     pinecone_api_key = ''p'', pinecone_index = ''nexus-memory'',
     jwt_secret = ''s'', jwt_algorithm = ''HS256'', jwt_expiry_seconds = 3600,
     sandbox_url = ''sandbox:50051'', log_level = ''INFO'', otel_exporter_otlp_endpoint = []\<rparr>"

text \<open>Tokens of an environment without cryptography: the two times in unary notation and the subject,
  readable until they expire.\<close>

definition unary :: "int \<Rightarrow> string" where
  "unary i = (if i < 0 then ''-'' else []) @ replicate (nat \<bar>i\<bar>) (CHR ''1'')"

definition unary_value :: "string \<Rightarrow> int" where
  "unary_value s = (if startswith s ''-'' then - int (length s - 1) else int (length s))"

definition plain_encode :: "string \<Rightarrow> int \<Rightarrow> int \<Rightarrow> string \<Rightarrow> string \<Rightarrow> string" where
  "plain_encode sub until since secret alg = unary until @ ''.'' @ unary since @ ''.'' @ sub"

definition plain_decode :: "int \<Rightarrow> string \<Rightarrow> string \<Rightarrow> string \<Rightarrow> json dict option" where
  "plain_decode t token secret alg =
     (let part = takeWhile (\<lambda>c. c \<noteq> CHR ''.''); rest = (\<lambda>s. drop 1 (dropWhile (\<lambda>c. c \<noteq> CHR ''.'') s));
          until = unary_value (part token); since = unary_value (part (rest token))
      in if contains ''.'' token \<and> t < until
         then Some [(''sub'', JStr (rest (rest token))), (''exp'', JInt until), (''iat'', JInt since)]
         else None)"

text \<open>An environment in which every service answers and every chat model reply is \<open>llm\<close>.\<close>

definition calm_env :: "(nat \<Rightarrow> string \<Rightarrow> json result) \<Rightarrow> env" where
  "calm_env llm = \<lparr>e_settings = plain_settings, e_new_client = (\<lambda>m k. None),
     e_prompt_file = (\<lambda>f. Inr f), e_llm = (\<lambda>n m p c. llm n p),
     e_sandbox = (\<lambda>n rq t. Inr \<lparr>rs_success = True, rs_stdout = rq_task_id rq @ '' ok'', rs_stderr = [],
        rs_exit_code = 0, rs_wall_ms = 5\<rparr>),
     e_wall_ms = (\<lambda>n. 7), e_redis_error = (\<lambda>n. None), e_time = int, e_sha256 = (\<lambda>s. s),
     e_set_order = (\<lambda>xs. xs),
     e_tavily = (\<lambda>n q k. Inr (JObj [])), e_embedding = (\<lambda>n t. Inr (JArr [JInt 1])),
     e_vector_query = (\<lambda>n rows v k ns q. Inr (JObj [])),
     e_http = (\<lambda>n m u h b. Inr (200, ''ok'')),
     e_pg_error = (\<lambda>n. None), e_row_order = (\<lambda>n k. [0..<k]), e_new_uuid = (\<lambda>n. n), e_bcrypt_hash = (\<lambda>n p. Inr (''#'' @ p)),
     e_bcrypt_check = (\<lambda>p h. Inr (h = ''#'' @ p)), e_jwt_encode = plain_encode, e_jwt_decode = plain_decode,
     e_upsert_error = (\<lambda>n. None), e_isoformat = str_of_int\<rparr>"

lemma calm_redis [simp]: "e_redis_error (calm_env llm) n = None"
  by (simp add: calm_env_def)

theorem router_roles_witness:
  "dget (rt_names (mode_router ''multi'')) ''extraction''
     = Some (model_name (router_get (mode_router ''multi'') ''extract''))"
proof -
  have "make_router (calm_env (\<lambda>n p. Inr JNull)) (Some ''multi'') = Inr (mode_router ''multi'')"
    by code_simp
  from router_roles [OF this] show ?thesis by simp
qed

text \<open>Dispatch reads the task type without regard to case or surrounding white space: it
  goes to the code model exactly when the text mentions a code keyword, otherwise to the
  extraction model exactly when it mentions an extraction keyword, otherwise to the
  reasoning model; a text that mentions both kinds is a coding task.\<close>

theorem router_dispatch:
  "router_get r t =
     (if \<exists>kw \<in> set code_keywords. \<exists>u v. strip (lower t) = u @ kw @ v then rt_code r
      else if \<exists>kw \<in> set extract_keywords. \<exists>u v. strip (lower t) = u @ kw @ v then rt_extract r
      else rt_reasoning r)"
proof -
  have c: "(t = ''code'' \<or> (\<exists>kw \<in> set code_keywords. contains kw t)) = (\<exists>kw \<in> set code_keywords. contains kw t)"
    for t by (auto simp: code_keywords_def contains_iff intro: exI [of _ "[]"])
  have x: "(t = ''extract'' \<or> (\<exists>kw \<in> set extract_keywords. contains kw t)) = (\<exists>kw \<in> set extract_keywords. contains kw t)"
    for t by (auto simp: extract_keywords_def contains_iff intro: exI [of _ "[]"])
  show ?thesis unfolding router_get_def Let_def c x by (simp add: contains_iff)
qed

text \<open>C36: switching the mode takes effect at once and survives a restart: after a successful
  switch with Redis reachable, a fresh process that loads the stored mode has exactly the
  router the switch installed.\<close>

theorem provider_mode_survives_restart:
  assumes "known_mode mode" "update_provider_mode env mode w = (Inr (Reply 200 resp), w')"
    and "e_redis_error env (w_tick w) = None" "e_redis_error env (w_tick w') = None"
  shows "w_router w' = Some (mode_router mode) \<and> pm_mode resp = mode
    \<and> w_router (snd (load_persisted_mode env (w'\<lparr>w_router := None\<rparr>))) = w_router w'"
proof -
  obtain r where r: "make_router env (Some mode) = Inr r"
    using assms(2) by (auto simp: update_provider_mode_def split: sum.splits)
  have ne: "mode \<noteq> []" using assms(1) by (auto simp: known_mode_def)
  then have m: "rt_mode r = mode" using make_router_mode r by blast
  then have rm: "r = mode_router mode" using make_router_Inr [OF r] by simp
  have w': "w' = tick (w\<lparr>w_router := Some r,
      w_redis := db_set (now env (w\<lparr>w_router := Some r\<rparr>)) redis_mode_key mode None (w_redis w)\<rparr>)"
    and resp: "pm_mode resp = mode"
    using assms(2,3) r m
    by (auto simp: update_provider_mode_def abind_def acatch_def set_model_router_def redis_set_def
        redis_cmd_def split: prod.splits sum.splits option.splits)
  have g: "db_get (now env (w'\<lparr>w_router := None\<rparr>)) redis_mode_key (w_redis w') = Inr (Some mode)"
    by (simp add: w' tick_def db_get_set)
  have in2: "mode \<in> {''multi'', ''openai_only''}" using assms(1) by (auto simp: known_mode_def)
  have "w_router (snd (load_persisted_mode env (w'\<lparr>w_router := None\<rparr>))) = Some r"
    using assms(4) ne in2 r
    by (simp add: load_persisted_mode_def acatch_def abind_def redis_get_def redis_cmd_def g
        set_model_router_def)
  with w' rm resp show ?thesis by (simp add: tick_def)
qed

theorem provider_mode_survives_restart_witness:
  "w_router (snd (update_provider_mode (calm_env (\<lambda>n p. Inr JNull)) ''multi'' fresh_world))
     = Some (mode_router ''multi'')"
proof -
  let ?e = "calm_env (\<lambda>n p. Inr JNull)"
  let ?w = "snd (update_provider_mode ?e ''multi'' fresh_world)"
  have k: "known_mode ''multi''" by code_simp
  have r: "make_router ?e (Some ''multi'') = Inr (mode_router ''multi'')" by code_simp
  have "update_provider_mode ?e ''multi'' fresh_world
      = (Inr (Reply 200 \<lparr>pm_mode = ''multi'', pm_models = rt_names (mode_router ''multi'')\<rparr>), ?w)"
    by (simp add: update_provider_mode_def r abind_def set_model_router_def acatch_def redis_set_def
        redis_cmd_def mode_router_def)
  from provider_mode_survives_restart [OF k this] show ?thesis by simp
qed

text \<open>The switch never answers 422. The keys of the other providers are only checked when
  the settings are first read, for the mode in the environment, and building a router does
  not check them; client libraries do not raise this program's \<open>ConfigurationError\<close>. So a
  process configured for OpenAI alone accepts the multi-provider mode without the keys.\<close>

theorem mode_switch_never_422:
  assumes "known_mode mode" "\<And>c k e. e_new_client env c k = Some e \<Longrightarrow> exn_class e \<noteq> ConfigurationError"
  shows "fst (update_provider_mode env mode w) \<noteq> Inr (HttpError 422 d)"
proof (cases "make_router env (Some mode)")
  case (Inl e)
  with make_router_error [OF Inl assms(1)] assms(2) show ?thesis
    by (auto simp: update_provider_mode_def)
next
  case (Inr r)
  then show ?thesis
    by (auto simp: update_provider_mode_def abind_def set_model_router_def acatch_def
        split: prod.splits sum.splits)
qed

theorem mode_switch_never_422_witness:
  "fst (update_provider_mode (calm_env (\<lambda>n p. Inr JNull)) ''multi'' fresh_world) \<noteq> Inr (HttpError 422 [])"
  by (rule mode_switch_never_422) (simp_all add: known_mode_def calm_env_def)

end
