(* ===== verification/BaseAgent.thy ===== *)
theory BaseAgent
  imports Router
begin

text \<open>
  The scaffold every LLM agent shares (\<open>backend/agents/base.py\<close>): construction with
  the active router and the cached system prompt, the invocation with its retries, and the
  extraction of a JSON document from the model's reply. Waiting between attempts is not
  modelled, only how many attempts are made and what ends them.
\<close>

definition max_retries :: nat where "max_retries = 3"

record agent =
  ag_name :: string
  ag_router :: model_router
  ag_prompt :: string

definition cached_prompt :: "env \<Rightarrow> string \<Rightarrow> string act" where
  "cached_prompt env name = (\<lambda>w. case load_prompt (e_prompt_file env) name (w_prompts w) of
       Inl e \<Rightarrow> (Inl e, w)
     | Inr (text, cache) \<Rightarrow> (Inr text, w\<lparr>w_prompts := cache\<rparr>))"

definition new_agent :: "env \<Rightarrow> string \<Rightarrow> agent act" where
  "new_agent env name =
     abind (get_model_router env) (\<lambda>r.
     abind (cached_prompt env name) (\<lambda>p.
     aret \<lparr>ag_name = name, ag_router = r, ag_prompt = p\<rparr>))"

section \<open>Parsing the reply\<close>

definition fence :: string where
  "fence = [CHR 0x60, CHR 0x60, CHR 0x60]"

definition strip_fences :: "string \<Rightarrow> string" where
  "strip_fences raw =
     (let text = strip raw in
      if startswith text fence then
        (let lines = splitlines text in
         join nl (if strip (last lines) = fence then butlast (tl lines) else tl lines))
      else text)"

definition parse_json :: "string \<Rightarrow> json result" where
  "parse_json raw = loads (strip_fences raw)"

section \<open>Invocation\<close>

definition llm_call :: "env \<Rightarrow> chat_model \<Rightarrow> string \<Rightarrow> string \<Rightarrow> json act" where
  "llm_call env model prompt user_context = (\<lambda>w.
     (e_llm env (w_tick w) model prompt user_context,
      tick (w\<lparr>w_llm_calls := Suc (w_llm_calls w)\<rparr>)))"

text \<open>One pass of the loop body: the call, \<open>str\<close> of a content that is no string, the parse.\<close>

definition attempt :: "env \<Rightarrow> agent \<Rightarrow> chat_model \<Rightarrow> string \<Rightarrow> json act" where
  "attempt env a model user_context =
     abind (llm_call env model (ag_prompt a) user_context) (\<lambda>content. alift (parse_json (py_str content)))"

definition malformed :: "agent \<Rightarrow> pyexn \<Rightarrow> pyexn" where
  "malformed a e = Exn AgentError (ag_name a @ '': malformed JSON response '' @ dash @ '' '' @ exn_str e @ nl
     @ ''Check backend/prompts/{self.name}.md: '' @ py_repr ''Respond ONLY with valid JSON''
     @ '' must be the final instruction.'')"

definition exhausted :: "agent \<Rightarrow> pyexn option \<Rightarrow> pyexn" where
  "exhausted a lst = Exn AgentError (ag_name a @ '': all '' @ str_of_nat max_retries @ '' retries exhausted ''
     @ dash @ '' '' @ (case lst of None \<Rightarrow> ''None'' | Some e \<Rightarrow> exn_str e))"

fun attempts :: "env \<Rightarrow> agent \<Rightarrow> chat_model \<Rightarrow> string \<Rightarrow> nat \<Rightarrow> pyexn option \<Rightarrow> json act" where
  "attempts env a model ctx 0 lst = alift (Inl (exhausted a lst))"
| "attempts env a model ctx (Suc k) lst =
     acatch (attempt env a model ctx)
       (\<lambda>e. if is_ValueError e then alift (Inl (malformed a e))
            else attempts env a model ctx k (Some e))"

definition invoke_json :: "env \<Rightarrow> agent \<Rightarrow> string \<Rightarrow> string \<Rightarrow> json act" where
  "invoke_json env a model_task_type user_context =
     attempts env a (router_get (ag_router a) model_task_type) user_context max_retries None"

section \<open>What an action may cost and change\<close>

text \<open>The number of chat model calls an action makes.\<close>

definition llm_cost :: "'a act \<Rightarrow> nat \<Rightarrow> bool" where
  "llm_cost m n \<longleftrightarrow> (\<forall>w. w_llm_calls (snd (m w)) \<le> w_llm_calls w + n)"

lemma llm_costD: "llm_cost m n \<Longrightarrow> m w = (r, w') \<Longrightarrow> w_llm_calls w' \<le> w_llm_calls w + n"
  by (metis llm_cost_def snd_conv)

lemma cost_mono: "llm_cost m n \<Longrightarrow> n \<le> k \<Longrightarrow> llm_cost m k"
  by (auto simp: llm_cost_def intro: order_trans)

lemma cost_aret [simp]: "llm_cost (aret x) n" "llm_cost (alift r) n"
  by (simp_all add: llm_cost_def)

lemma cost_abind:
  assumes "llm_cost m a" "\<And>x. llm_cost (f x) b"
  shows "llm_cost (abind m f) (a + b)"
  unfolding llm_cost_def
proof
  fix w
  obtain r w' where m: "m w = (r, w')" by (cases "m w")
  have c: "w_llm_calls w' \<le> w_llm_calls w + a" by (rule llm_costD [OF assms(1) m])
  have "w_llm_calls (snd (f x w')) \<le> w_llm_calls w + (a + b)" for x
  proof -
    have "w_llm_calls (snd (f x w')) \<le> w_llm_calls w' + b" using assms(2) by (simp add: llm_cost_def)
    with c show ?thesis by linarith
  qed
  with c show "w_llm_calls (snd (abind m f w)) \<le> w_llm_calls w + (a + b)"
    using m by (cases r) (auto simp: abind_def)
qed

lemma cost_acatch:
  assumes "llm_cost m a" "\<And>e. llm_cost (h e) b"
  shows "llm_cost (acatch m h) (a + b)"
  unfolding llm_cost_def
proof
  fix w
  obtain r w' where m: "m w = (r, w')" by (cases "m w")
  have c: "w_llm_calls w' \<le> w_llm_calls w + a" by (rule llm_costD [OF assms(1) m])
  have "w_llm_calls (snd (h x w')) \<le> w_llm_calls w + (a + b)" for x
  proof -
    have "w_llm_calls (snd (h x w')) \<le> w_llm_calls w' + b" using assms(2) by (simp add: llm_cost_def)
    with c show ?thesis by linarith
  qed
  with c show "w_llm_calls (snd (acatch m h w)) \<le> w_llm_calls w + (a + b)"
    using m by (cases r) (auto simp: acatch_def)
qed

lemma cost_redis [simp]: "llm_cost (redis_cmd env f) n"
  by (auto simp: llm_cost_def redis_cmd_def split: option.splits sum.splits)

lemma cost_new_agent [simp]: "llm_cost (new_agent env name) 0"
proof -
  have "llm_cost (get_model_router env) 0" "llm_cost (cached_prompt env name) 0"
    by (auto simp: llm_cost_def get_model_router_def cached_prompt_def split: option.splits sum.splits)
  then have "llm_cost (new_agent env name) (0 + (0 + 0))"
    unfolding new_agent_def by (intro cost_abind cost_aret)
  then show ?thesis by simp
qed

lemma cost_attempt: "llm_cost (attempt env a m c) 1"
proof -
  have "llm_cost (llm_call env m (ag_prompt a) c) 1" by (simp add: llm_cost_def llm_call_def)
  then have "llm_cost (attempt env a m c) (1 + 0)"
    unfolding attempt_def by (intro cost_abind cost_aret)
  then show ?thesis by simp
qed

lemma cost_attempts: "llm_cost (attempts env a m c k lst) k"
proof (induction k arbitrary: lst)
  case (Suc k)
  have "llm_cost (attempts env a m c (Suc k) lst) (1 + k)"
    unfolding attempts.simps using Suc by (intro cost_acatch cost_attempt) simp
  then show ?case by simp
qed simp

lemma cost_invoke: "llm_cost (invoke_json env a t c) 3"
  unfolding invoke_json_def max_retries_def by (rule cost_attempts)

text \<open>Caches only grow, the active router stays once chosen, and what belongs to the API is untouched: the
  relational database, the vector index and the frames on the socket.\<close>

definition world_le :: "world \<Rightarrow> world \<Rightarrow> bool" where
  "world_le w w' \<longleftrightarrow> w_tick w \<le> w_tick w' \<and> w_llm_calls w \<le> w_llm_calls w' \<and> w_runs w \<le> w_runs w'
     \<and> (\<forall>k v. dget (w_prompts w) k = Some v \<longrightarrow> dget (w_prompts w') k = Some v)
     \<and> (\<forall>r. w_router w = Some r \<longrightarrow> w_router w' = Some r)
     \<and> w_db w' = w_db w \<and> w_pool w' = w_pool w \<and> w_vectors w' = w_vectors w \<and> w_frames w' = w_frames w"

interpretation grow: world_order world_le
  by unfold_locales (auto simp: world_le_def)

lemma keeps_Pair [simp]: "act_keeps world_le (Pair r)"
  by (simp add: act_keeps_def grow.refl)

lemma keeps_redis: "act_keeps world_le (redis_cmd env f)"
  by (auto simp: act_keeps_def world_le_def redis_cmd_def split: option.splits sum.splits)

lemma keeps_new_agent: "act_keeps world_le (new_agent env name)"
  unfolding new_agent_def
proof (intro grow.keeps_abind grow.keeps_aret)
  show "act_keeps world_le (get_model_router env)"
    by (auto simp: act_keeps_def world_le_def get_model_router_def split: option.splits sum.splits)
  show "act_keeps world_le (cached_prompt env name)"
    by (auto simp: act_keeps_def world_le_def cached_prompt_def load_prompt_def rbind_def
        split: option.splits sum.splits)
qed

lemma keeps_invoke: "act_keeps world_le (invoke_json env a t c)"
proof -
  have a: "act_keeps world_le (attempt env a m c)" for m
    unfolding attempt_def
    by (intro grow.keeps_abind grow.keeps_alift) (simp add: act_keeps_def world_le_def llm_call_def)
  have "act_keeps world_le (attempts env a m c k lst)" for m k lst
    by (induction k arbitrary: lst) (auto intro!: grow.keeps_acatch a)
  then show ?thesis by (simp add: invoke_json_def)
qed

section \<open>The retry loop\<close>

text \<open>The outcome of attempt number \<open>i\<close>, counted from the first.\<close>

definition outcome :: "env \<Rightarrow> agent \<Rightarrow> string \<Rightarrow> string \<Rightarrow> world \<Rightarrow> nat \<Rightarrow> json result" where
  "outcome env a t c w i =
     rbind (e_llm env (w_tick w + i) (router_get (ag_router a) t) (ag_prompt a) c) (\<lambda>content. parse_json (py_str content))"

text \<open>A transient failure: the only kind another attempt follows.\<close>

definition transient :: "json result \<Rightarrow> bool" where
  "transient r \<longleftrightarrow> (\<exists>e. r = Inl e \<and> \<not> is_ValueError e)"

lemma attempt_outcome:
  "attempt env a (router_get (ag_router a) t) c w
     = (outcome env a t c w 0, tick (w\<lparr>w_llm_calls := Suc (w_llm_calls w)\<rparr>))"
  by (auto simp: attempt_def abind_def llm_call_def outcome_def split: sum.splits)

lemma outcome_next: "outcome env a t c (tick (w\<lparr>w_llm_calls := n\<rparr>)) i = outcome env a t c w (Suc i)"
  by (simp add: outcome_def)

lemma attempts_spec:
  "attempts env a (router_get (ag_router a) t) c k lst w = (r, w') \<Longrightarrow>
     \<exists>n \<le> k. w_llm_calls w' = w_llm_calls w + n \<and> w_tick w' = w_tick w + n
       \<and> (\<forall>i. Suc i < n \<longrightarrow> transient (outcome env a t c w i))
       \<and> (case r of Inr v \<Rightarrow> 0 < n \<and> outcome env a t c w (n - 1) = Inr v
          | Inl e \<Rightarrow> (n = k \<and> (n = 0 \<or> transient (outcome env a t c w (n - 1))) \<and> (\<exists>l. e = exhausted a l))
             \<or> 0 < n \<and> (\<exists>x. outcome env a t c w (n - 1) = Inl x \<and> is_ValueError x \<and> e = malformed a x))"
proof (induction k arbitrary: lst w)
  case 0
  then show ?case by auto
next
  case (Suc k)
  let ?o = "outcome env a t c w"
  let ?w1 = "tick (w\<lparr>w_llm_calls := Suc (w_llm_calls w)\<rparr>)"
  note step = Suc.prems [unfolded attempts.simps acatch_def attempt_outcome]
  consider (ok) v where "?o 0 = Inr v" | (bad) e where "?o 0 = Inl e" "is_ValueError e"
    | (again) e where "?o 0 = Inl e" "\<not> is_ValueError e" by (cases "?o 0") auto
  then show ?case
  proof cases
    case ok
    with step have "r = Inr v" "w' = ?w1" by auto
    with ok show ?thesis by (intro exI [of _ "Suc 0"]) simp
  next
    case bad
    with step have "r = Inl (malformed a e)" "w' = ?w1" by auto
    with bad show ?thesis by (intro exI [of _ "Suc 0"]) simp
  next
    case again
    with step have rest: "attempts env a (router_get (ag_router a) t) c k (Some e) ?w1 = (r, w')" by simp
    from Suc.IH [OF this, unfolded outcome_next] obtain n where n: "n \<le> k"
      "w_llm_calls w' = Suc (w_llm_calls w) + n" "w_tick w' = Suc (w_tick w) + n"
      "\<forall>i. Suc i < n \<longrightarrow> transient (?o (Suc i))"
      "case r of Inr v \<Rightarrow> 0 < n \<and> ?o (Suc (n - 1)) = Inr v
         | Inl e \<Rightarrow> (n = k \<and> (n = 0 \<or> transient (?o (Suc (n - 1)))) \<and> (\<exists>l. e = exhausted a l))
            \<or> 0 < n \<and> (\<exists>x. ?o (Suc (n - 1)) = Inl x \<and> is_ValueError x \<and> e = malformed a x)"
      by auto
    have t0: "transient (?o 0)" using again by (auto simp: transient_def)
    have t: "\<forall>i. Suc i < Suc n \<longrightarrow> transient (?o i)"
    proof (intro allI impI)
      fix i assume "Suc i < Suc n"
      with n(4) t0 show "transient (?o i)" by (cases i) auto
    qed
    from n t t0 show ?thesis
      by (intro exI [of _ "Suc n"], cases n) (auto split: sum.splits)
  qed
qed

lemma invoke_json_error: "invoke_json env a t c w = (Inl e, w') \<Longrightarrow> exn_class e = AgentError"
  unfolding invoke_json_def by (drule attempts_spec) (auto simp: exhausted_def malformed_def)

section \<open>Fenced replies\<close>

lemma splitlines_aux_append:
  assumes "\<forall>c \<in> set s. \<not> is_linebreak c" "code n = 10"
  shows "splitlines_aux cur (s @ n # t) = (rev cur @ s) # splitlines_aux [] t"
  using assms(1)
proof (induction s arbitrary: cur)
  case Nil
  have n: "is_linebreak n" "\<not> (code n = 13 \<and> P)" for P using assms(2) by (simp_all add: is_linebreak_def)
  show ?case by (cases t) (simp_all add: n)
next
  case (Cons c s)
  then have c: "\<not> is_linebreak c" by simp
  then have "code c \<noteq> 13" by (auto simp: is_linebreak_def)
  with c Cons show ?case by (cases "s @ n # t") auto
qed

lemma splitlines_aux_single:
  "\<forall>c \<in> set s. \<not> is_linebreak c \<Longrightarrow> cur @ s \<noteq> [] \<Longrightarrow> splitlines_aux cur s = [rev cur @ s]"
proof (induction s arbitrary: cur)
  case (Cons c s)
  then have c: "\<not> is_linebreak c" by simp
  then have "code c \<noteq> 13" by (auto simp: is_linebreak_def)
  with c Cons show ?case by (cases s) auto
qed simp

text \<open>A text whose only line breaks are line feeds is the lines it splits into, joined.\<close>

lemma splitlines_lines:
  assumes "\<forall>l \<in> set ls. \<forall>c \<in> set l. \<not> is_linebreak c" "ls \<noteq> []" "last ls \<noteq> []"
  shows "splitlines (join nl ls) = ls"
  using assms
proof (induction ls rule: induct_list012)
  case (2 l)
  then show ?case by (simp add: splitlines_def splitlines_aux_single)
next
  case (3 l m ls)
  have "code (CHR 0x0A) = 10" by (simp add: code_def)
  with 3 show ?case
    by (simp add: splitlines_def nl_def splitlines_aux_append)
qed simp

definition plain_line :: "string \<Rightarrow> bool" where
  "plain_line l \<longleftrightarrow> (\<forall>c \<in> set l. \<not> is_linebreak c)"

lemma strip_fence: "strip fence = fence"
  by code_simp

lemma strip_fenced: "strip (fence @ s @ nl @ fence) = fence @ s @ nl @ fence"
proof -
  have "lstrip (fence @ s @ nl @ fence) = fence @ s @ nl @ fence"
    by (simp add: lstrip_def fence_def is_space_def code_def)
  moreover have "dropWhile is_space (rev (fence @ s @ nl @ fence)) = rev (fence @ s @ nl @ fence)"
    by (simp add: fence_def is_space_def code_def)
  ultimately show ?thesis by (simp only: strip_def rev_rev_ident)
qed

lemma join_Cons: "xs \<noteq> [] \<Longrightarrow> join sep (x # xs) = x @ sep @ join sep xs"
  by (cases xs) auto

lemma join_snoc: "xs \<noteq> [] \<Longrightarrow> join sep (xs @ [x]) = join sep xs @ sep @ x"
proof (induction xs)
  case (Cons y ys)
  then show ?case by (cases ys) (auto simp: join_Cons)
qed simp

lemma strip_fences_fenced:
  assumes "plain_line lang" "\<forall>l \<in> set body. plain_line l" "body \<noteq> []"
  shows "strip_fences (fence @ lang @ nl @ join nl body @ nl @ fence) = join nl body"
proof -
  let ?ls = "(fence @ lang) # body @ [fence]"
  have eq: "fence @ lang @ nl @ join nl body @ nl @ fence = join nl ?ls"
    using assms(3) by (simp add: join_Cons join_snoc)
  have "plain_line fence" by (simp add: plain_line_def fence_def is_linebreak_def code_def)
  with assms have "splitlines (join nl ?ls) = ?ls"
    by (intro splitlines_lines) (auto simp: plain_line_def fence_def)
  moreover have "strip (join nl ?ls) = join nl ?ls"
    using strip_fenced [of "lang @ nl @ join nl body"] eq by simp
  moreover have "startswith (join nl ?ls) fence"
    unfolding eq [symmetric] by (rule startswith_append)
  ultimately show ?thesis
    unfolding eq by (simp add: strip_fences_def strip_fence)
qed

section \<open>Properties\<close>

text \<open>C30: an invocation makes one to three chat model calls. It returns the document of the first
  attempt that yields one, provided every attempt before it failed with a transient error;
  a malformed reply or any other \<open>ValueError\<close> ends it at once, and whatever goes wrong the
  caller sees an \<open>AgentError\<close> and nothing else.\<close>

theorem invoke_json_retries:
  "invoke_json env a t c w = (r, w') \<Longrightarrow>
     \<exists>n \<in> {1..3}. w_llm_calls w' = w_llm_calls w + n
       \<and> (\<forall>i. Suc i < n \<longrightarrow> transient (outcome env a t c w i))
       \<and> (case r of
            Inr v \<Rightarrow> outcome env a t c w (n - 1) = Inr v
          | Inl e \<Rightarrow> exn_class e = AgentError
              \<and> (n = 3 \<and> transient (outcome env a t c w 2)
                 \<or> (\<exists>x. outcome env a t c w (n - 1) = Inl x \<and> is_ValueError x)))"
  unfolding invoke_json_def max_retries_def
  by (drule attempts_spec) (fastforce simp: exhausted_def malformed_def split: sum.splits)

definition probe_agent :: agent where
  "probe_agent = \<lparr>ag_name = ''planner'', ag_router = mode_router ''openai_only'', ag_prompt = ''p''\<rparr>"

text \<open>A model that times out twice and then answers.\<close>

definition flaky :: "nat \<Rightarrow> string \<Rightarrow> json result" where
  "flaky n p = (if n < 2 then Inl (Exn OtherError ''timeout'') else Inr (JStr ''{}''))"

theorem invoke_json_retries_witness:
  "\<exists>n \<in> {1..3}. w_llm_calls (snd (invoke_json (calm_env flaky) probe_agent ''reasoning'' ''hi'' fresh_world)) = n
     \<and> outcome (calm_env flaky) probe_agent ''reasoning'' ''hi'' fresh_world (n - 1) = Inr (JObj [])"
proof -
  let ?m = "invoke_json (calm_env flaky) probe_agent ''reasoning'' ''hi'' fresh_world"
  have v: "fst ?m = Inr (JObj [])" by code_simp
  then have "?m = (Inr (JObj []), snd ?m)" by (cases ?m) auto
  from invoke_json_retries [OF this] show ?thesis by (auto simp: fresh_world_def)
qed

text \<open>A reply wrapped in a Markdown fence, with or without a language tag, parses as the
  document inside it, for every document whose line breaks are line feeds.\<close>

theorem parse_json_fenced:
  assumes "plain_line lang" "\<forall>l \<in> set body. plain_line l" "body \<noteq> []"
  shows "parse_json (fence @ lang @ nl @ join nl body @ nl @ fence) = loads (join nl body)"
  by (simp add: parse_json_def strip_fences_fenced [OF assms])

theorem parse_json_fenced_witness:
  "parse_json (fence @ ''json'' @ nl @ ''[1]'' @ nl @ fence) = Inr (JArr [JInt 1])"
proof -
  have "parse_json (fence @ ''json'' @ nl @ join nl [''[1]''] @ nl @ fence) = loads (join nl [''[1]''])"
    by (rule parse_json_fenced) (simp_all add: plain_line_def is_linebreak_def code_def)
  moreover have "loads ''[1]'' = Inr (JArr [JInt 1])" by code_simp
  ultimately show ?thesis by simp
qed

end
