(* ===== verification/TaskDag.thy ===== *)
theory TaskDag
  imports State
begin

text \<open>
  The planner's validation of the task graph an LLM proposes
  (\<open>validate_task_dag\<close> and \<open>_check_no_cycles\<close> of \<open>backend/agents/planner.py\<close>), and
  the proof that it accepts exactly the well-formed acyclic plans.
\<close>

section \<open>Validation\<close>

definition valid_models :: "string list" where
  "valid_models = [''reasoning'', ''code'', ''extract'']"

definition valid_tools :: "string list" where
  "valid_tools = [''web_search'', ''code_exec'', ''file_write'', ''api_caller'', ''rag_recall'']"

definition max_tasks :: nat where
  "max_tasks = 10"

definition required_fields :: "string list" where
  "required_fields = [''id'', ''description'', ''depends_on'', ''tool_hints'', ''assigned_model'']"

abbreviation value_error :: "string \<Rightarrow> pyexn" where
  "value_error m \<equiv> Exn ValueError m"

text \<open>\<open>for x in (j or [])\<close>\<close>

definition iter_or_empty :: "json \<Rightarrow> json list result" where
  "iter_or_empty j = (if truthy j then py_iter j else Inr [])"

text \<open>\<open>[str(t) for t in hints if t in _VALID_TOOLS]\<close>\<close>

fun keep_tools :: "json list \<Rightarrow> string list result" where
  "keep_tools [] = Inr []"
| "keep_tools (t # ts) =
     rbind (in_str_set t valid_tools) (\<lambda>b.
       rbind (keep_tools ts) (\<lambda>rest. Inr (if b then py_str t # rest else rest)))"

definition validate_one :: "nat \<Rightarrow> string set \<Rightarrow> json \<Rightarrow> task_node result" where
  "validate_one i ids raw =
     (case raw of
        JObj d \<Rightarrow>
          (case find (\<lambda>f. dget d f = None) required_fields of
             Some f \<Rightarrow> Inl (value_error (''task['' @ str_of_nat i @ ''] missing required field '' @ [CHR 0x27] @ f @ [CHR 0x27]))
           | None \<Rightarrow>
               (let tid = py_str (dget_or d ''id'' JNull); assigned = dget_or d ''assigned_model'' JNull in
                if tid \<in> ids then Inl (value_error (''Duplicate task id: '' @ py_repr tid))
                else rbind (in_str_set assigned valid_models) (\<lambda>ok.
                  if \<not> ok then Inl (value_error (''task '' @ tid @ '': invalid assigned_model '' @ repr_json assigned))
                  else rbind (iter_or_empty (dget_or d ''depends_on'' JNull)) (\<lambda>deps.
                    rbind (rbind (iter_or_empty (dget_or d ''tool_hints'' JNull)) keep_tools) (\<lambda>hints.
                      Inr \<lparr>task_id = tid,
                           description = py_str (dget_or d ''description'' JNull),
                           status = Pending,
                           depends_on = map py_str deps,
                           tool_hints = hints,
                           assigned_model = py_str assigned,
                           task_output = None\<rparr>)))))
      | _ \<Rightarrow> Inl (value_error (''task['' @ str_of_nat i @ ''] is not an object'')))"

fun validate_tasks :: "nat \<Rightarrow> string set \<Rightarrow> json list \<Rightarrow> task_node list result" where
  "validate_tasks i ids [] = Inr []"
| "validate_tasks i ids (raw # raws) =
     rbind (validate_one i ids raw) (\<lambda>n.
       rbind (validate_tasks (Suc i) (insert (task_id n) ids) raws) (\<lambda>ns. Inr (n # ns)))"

fun check_deps :: "string list \<Rightarrow> task_node list \<Rightarrow> unit result" where
  "check_deps ids [] = Inr ()"
| "check_deps ids (n # ns) =
     (case find (\<lambda>d. d \<notin> set ids) (depends_on n) of
        Some d \<Rightarrow> Inl (value_error (''task '' @ task_id n @ '' depends on unknown id '' @ py_repr d))
      | None \<Rightarrow> check_deps ids ns)"

section \<open>Cycle detection\<close>

text \<open>
  The colours of \<open>_check_no_cycles\<close>: 0 unvisited, 1 in progress, 2 done. The
  recursion of \<open>dfs\<close> is bounded by a fuel that stands for the depth of the call
  stack; \<open>None\<close> is running out of it.
\<close>

type_synonym colours = "int dict"

definition adjacency :: "task_node list \<Rightarrow> string list dict" where
  "adjacency nodes = fold (\<lambda>n. dset (task_id n) (depends_on n)) nodes []"

fun dfs :: "nat \<Rightarrow> string list dict \<Rightarrow> colours \<Rightarrow> string \<Rightarrow> colours result option"
  and dfs_deps :: "nat \<Rightarrow> string list dict \<Rightarrow> colours \<Rightarrow> string list \<Rightarrow> colours result option" where
  "dfs 0 adj st n = None"
| "dfs (Suc k) adj st n =
     (case dget st n of
        None \<Rightarrow> Some (Inl (Exn KeyError (py_repr n)))
      | Some c \<Rightarrow>
          if c = 1 then Some (Inl (value_error (''Circular dependency detected involving task '' @ py_repr n)))
          else if c = 2 then Some (Inr st)
          else (case dget adj n of
              None \<Rightarrow> Some (Inl (Exn KeyError (py_repr n)))
            | Some deps \<Rightarrow>
                (case dfs_deps k adj (dset n 1 st) deps of
                   Some (Inr st') \<Rightarrow> Some (Inr (dset n 2 st'))
                 | r \<Rightarrow> r)))"
| "dfs_deps k adj st [] = Some (Inr st)"
| "dfs_deps k adj st (d # ds) =
     (case dfs k adj st d of
        Some (Inr st') \<Rightarrow> dfs_deps k adj st' ds
      | r \<Rightarrow> r)"

text \<open>The outer loop visits every task in turn; it is the loop over dependencies again.\<close>

definition check_no_cycles :: "task_node list \<Rightarrow> unit result" where
  "check_no_cycles nodes =
     (let adj = adjacency nodes; st = map (\<lambda>(k, _). (k, 0)) adj in
      case dfs_deps (Suc (length nodes)) adj st (dkeys adj) of
        None \<Rightarrow> Inl (Exn OtherError ''maximum recursion depth exceeded'')
      | Some (Inl e) \<Rightarrow> Inl e
      | Some (Inr _) \<Rightarrow> Inr ())"

definition validate_task_dag :: "json \<Rightarrow> task_node list result" where
  "validate_task_dag raw =
     (case raw of
        JArr raws \<Rightarrow>
          if raws = [] then Inl (value_error ''task_plan must be a non-empty list'')
          else if max_tasks < length raws then
            Inl (value_error (''task_plan exceeds max '' @ str_of_nat max_tasks @ '' tasks ('' @ str_of_nat (length raws) @ '' given)''))
          else rbind (validate_tasks 0 {} raws) (\<lambda>nodes.
            rbind (check_deps (map task_id nodes) nodes) (\<lambda>_.
              rbind (check_no_cycles nodes) (\<lambda>_. Inr nodes)))
      | _ \<Rightarrow> Inl (value_error ''task_plan must be a non-empty list''))"

section \<open>Correctness of the depth-first search\<close>

definition edges :: "string list dict \<Rightarrow> (string \<times> string) set" where
  "edges adj = {(n, d). \<exists>ds. dget adj n = Some ds \<and> d \<in> set ds}"

text \<open>The dependency relation of a plan: a task points at what it depends on.\<close>

definition dep_rel :: "task_node list \<Rightarrow> (string \<times> string) set" where
  "dep_rel nodes = {(task_id n, d) |n d. n \<in> set nodes \<and> d \<in> set (depends_on n)}"

definition blacks :: "colours \<Rightarrow> string set" where
  "blacks st = {x. dget st x = Some 2}"

text \<open>The finished part of the graph is closed under dependencies and well-founded: a
  rank that decreases along every edge.\<close>

definition ranked :: "(string \<times> string) set \<Rightarrow> string set \<Rightarrow> bool" where
  "ranked E B \<longleftrightarrow> (\<exists>f::string \<Rightarrow> nat. \<forall>x d. x \<in> B \<and> (x, d) \<in> E \<longrightarrow> d \<in> B \<and> f d < f x)"

lemma ranked_insert:
  assumes "ranked E B" "n \<notin> B" "\<forall>d. (n, d) \<in> E \<longleftrightarrow> d \<in> set ds" "set ds \<subseteq> B"
  shows "ranked E (insert n B)"
proof -
  obtain f :: "string \<Rightarrow> nat" where f: "\<forall>x d. x \<in> B \<and> (x, d) \<in> E \<longrightarrow> d \<in> B \<and> f d < f x"
    using assms(1) by (auto simp: ranked_def)
  let ?g = "f(n := Suc (sum_list (map f ds)))"
  have "f d < ?g n" if "d \<in> set ds" for d
    using member_le_sum_list [of "f d" "map f ds"] that by simp
  then have "\<forall>x d. x \<in> insert n B \<and> (x, d) \<in> E \<longrightarrow> d \<in> insert n B \<and> ?g d < ?g x"
    using f assms(2-4) by (smt (verit) fun_upd_other insert_iff subsetD)
  then show ?thesis unfolding ranked_def by blast
qed

lemma ranked_acyclic:
  assumes "ranked E B" "\<And>x y. (x, y) \<in> E \<Longrightarrow> x \<in> B"
  shows "acyclic E"
proof -
  obtain f :: "string \<Rightarrow> nat" where "\<forall>x d. x \<in> B \<and> (x, d) \<in> E \<longrightarrow> d \<in> B \<and> f d < f x"
    using assms(1) by (auto simp: ranked_def)
  with assms(2) have f: "f d < f x" if "(x, d) \<in> E" for x d using that by blast
  have "f y < f x" if "(x, y) \<in> E\<^sup>+" for x y
    using that by (induction rule: trancl.induct) (auto dest: f)
  then show ?thesis by (auto simp: acyclic_def)
qed

text \<open>What one call leaves behind: grey stays grey, black stays black, no key appears.\<close>

definition same_frame :: "colours \<Rightarrow> colours \<Rightarrow> bool" where
  "same_frame st st' \<longleftrightarrow>
     (\<forall>x. (dget st' x = None \<longleftrightarrow> dget st x = None) \<and> (dget st' x = Some 1 \<longleftrightarrow> dget st x = Some 1)
        \<and> (dget st x = Some 2 \<longrightarrow> dget st' x = Some 2))"

lemma same_frame_refl: "same_frame st st"
  by (simp add: same_frame_def)

lemma same_frame_trans: "same_frame a b \<Longrightarrow> same_frame b c \<Longrightarrow> same_frame a c"
  by (simp add: same_frame_def)

lemma dfs_step_frame:
  assumes "dget st n = Some c" "c \<noteq> 1" "c \<noteq> 2" "same_frame (dset n 1 st) st2"
  shows "same_frame st (dset n 2 st2)"
  using assms unfolding same_frame_def
  by (smt (verit) dget_dset numeral_eq_one_iff option.distinct(1) option.inject semiring_norm(85))

lemma dfs_sound:
  "dfs k adj st n = Some (Inr st') \<Longrightarrow> ranked (edges adj) (blacks st) \<Longrightarrow>
     ranked (edges adj) (blacks st') \<and> same_frame st st' \<and> n \<in> blacks st'"
  "dfs_deps k adj st ds = Some (Inr st') \<Longrightarrow> ranked (edges adj) (blacks st) \<Longrightarrow>
     ranked (edges adj) (blacks st') \<and> same_frame st st' \<and> set ds \<subseteq> blacks st'"
proof (induction k adj st n and k adj st ds arbitrary: st' and st' rule: dfs_dfs_deps.induct)
  case (2 k adj st n)
  from "2.prems"(1) obtain c where c: "dget st n = Some c" "c \<noteq> 1"
    by (auto split: option.splits if_splits)
  show ?case
  proof (cases "c = 2")
    case True
    with "2.prems" c show ?thesis by (simp add: same_frame_refl blacks_def)
  next
    case False
    with "2.prems" c obtain ds st2 where ds: "dget adj n = Some ds"
      and d2: "dfs_deps k adj (dset n 1 st) ds = Some (Inr st2)" and st': "st' = dset n 2 st2"
      by (auto split: option.splits sum.splits)
    have b1: "blacks (dset n 1 st) = blacks st"
      using c False by (auto simp: blacks_def)
    have IH: "ranked (edges adj) (blacks st2)" "same_frame (dset n 1 st) st2" "set ds \<subseteq> blacks st2"
      using "2.IH" [OF c(1) c(2) False ds d2] "2.prems"(2) b1 by auto
    have "dget st2 n = Some 1" using IH(2) by (simp add: same_frame_def)
    then have "n \<notin> blacks st2" by (simp add: blacks_def)
    moreover have "\<forall>d. (n, d) \<in> edges adj \<longleftrightarrow> d \<in> set ds" using ds by (simp add: edges_def)
    ultimately have "ranked (edges adj) (insert n (blacks st2))"
      using IH by (intro ranked_insert) auto
    moreover have "blacks st' = insert n (blacks st2)" by (auto simp: blacks_def st')
    ultimately show ?thesis
      using dfs_step_frame [OF c(1,2) False IH(2)] st' by simp
  qed
next
  case (3 k adj st)
  then show ?case by (simp add: same_frame_refl)
next
  case (4 k adj st d ds)
  from "4.prems"(1) obtain st1 where s1: "dfs k adj st d = Some (Inr st1)"
    and s2: "dfs_deps k adj st1 ds = Some (Inr st')"
    by (auto split: option.splits sum.splits)
  have a: "ranked (edges adj) (blacks st1)" "same_frame st st1" "d \<in> blacks st1"
    using "4.IH"(1) [OF s1] "4.prems"(2) by auto
  have b: "ranked (edges adj) (blacks st')" "same_frame st1 st'" "set ds \<subseteq> blacks st'"
    using "4.IH"(2) [OF s1 refl s2] a(1) by auto
  show ?case
    using a b same_frame_trans by (auto simp: same_frame_def blacks_def)
qed simp

text \<open>The grey tasks are the ones on the path to the current task, so meeting a grey
  task closes a cycle.\<close>

definition colours_ok :: "string list dict \<Rightarrow> colours \<Rightarrow> bool" where
  "colours_ok adj st \<longleftrightarrow> (\<forall>x. (dget st x = None \<longleftrightarrow> dget adj x = None) \<and>
     (\<forall>c. dget st x = Some c \<longrightarrow> c = 0 \<or> c = 1 \<or> c = 2))"

definition closed_adj :: "string list dict \<Rightarrow> bool" where
  "closed_adj adj \<longleftrightarrow> (\<forall>n d. (n, d) \<in> edges adj \<longrightarrow> dget adj d \<noteq> None)"

lemma colours_ok_dset:
  "colours_ok adj st \<Longrightarrow> dget adj n \<noteq> None \<Longrightarrow> c = 0 \<or> c = 1 \<or> c = 2 \<Longrightarrow> colours_ok adj (dset n c st)"
  by (auto simp: colours_ok_def)

lemma dfs_colours_ok:
  "dfs k adj st n = Some (Inr st') \<Longrightarrow> colours_ok adj st \<Longrightarrow> colours_ok adj st'"
  "dfs_deps k adj st ds = Some (Inr st') \<Longrightarrow> colours_ok adj st \<Longrightarrow> colours_ok adj st'"
proof (induction k adj st n and k adj st ds arbitrary: st' and st' rule: dfs_dfs_deps.induct)
  case (2 k adj st n)
  from "2.prems"(1) obtain c where c: "dget st n = Some c" "c \<noteq> 1"
    by (auto split: option.splits if_splits)
  show ?case
  proof (cases "c = 2")
    case True
    with "2.prems" c show ?thesis by simp
  next
    case False
    with "2.prems" c obtain ds st2 where ds: "dget adj n = Some ds"
      and d2: "dfs_deps k adj (dset n 1 st) ds = Some (Inr st2)" and st': "st' = dset n 2 st2"
      by (auto split: option.splits sum.splits)
    have n: "dget adj n \<noteq> None" using ds by simp
    have "colours_ok adj (dset n 1 st)"
      using colours_ok_dset [OF "2.prems"(2) n] by simp
    with "2.IH" [OF c False ds d2] have "colours_ok adj st2" by simp
    from colours_ok_dset [OF this n] st' show ?thesis by simp
  qed
qed (auto split: option.splits sum.splits)

definition cycle_error :: "(string \<times> string) set \<Rightarrow> pyexn \<Rightarrow> bool" where
  "cycle_error E e \<longleftrightarrow> (\<exists>x. e = value_error (''Circular dependency detected involving task '' @ py_repr x)
     \<and> (x, x) \<in> E\<^sup>+)"

lemma dfs_error_cycle:
  "dfs k adj st n = Some (Inl e) \<Longrightarrow> closed_adj adj \<Longrightarrow> colours_ok adj st \<Longrightarrow>
     ranked (edges adj) (blacks st) \<Longrightarrow> dget adj n \<noteq> None \<Longrightarrow>
     (\<forall>g. dget st g = Some 1 \<longrightarrow> (g, n) \<in> (edges adj)\<^sup>+) \<Longrightarrow>
     cycle_error (edges adj) e"
  "dfs_deps k adj st ds = Some (Inl e) \<Longrightarrow> closed_adj adj \<Longrightarrow> colours_ok adj st \<Longrightarrow>
     ranked (edges adj) (blacks st) \<Longrightarrow> \<forall>d \<in> set ds. dget adj d \<noteq> None \<Longrightarrow>
     (\<forall>g d. dget st g = Some 1 \<and> d \<in> set ds \<longrightarrow> (g, d) \<in> (edges adj)\<^sup>+) \<Longrightarrow>
     cycle_error (edges adj) e"
proof (induction k adj st n and k adj st ds arbitrary: e and e rule: dfs_dfs_deps.induct)
  case (2 k adj st n)
  from "2.prems"(3,5) have "dget st n \<noteq> None" by (simp add: colours_ok_def)
  with "2.prems"(3) obtain c where c: "dget st n = Some c" "c = 0 \<or> c = 1 \<or> c = 2"
    unfolding colours_ok_def by blast
  show ?case
  proof (cases "c = 1")
    case True
    with "2.prems"(1) c have "e = value_error (''Circular dependency detected involving task '' @ py_repr n)"
      by simp
    moreover have "(n, n) \<in> (edges adj)\<^sup>+" using "2.prems"(6) c True by simp
    ultimately show ?thesis unfolding cycle_error_def by blast
  next
    case False
    with "2.prems"(1) c have c2: "c \<noteq> 2" by auto
    from "2.prems"(5) obtain ds where ds: "dget adj n = Some ds" by blast
    with "2.prems"(1) c False c2 have d: "dfs_deps k adj (dset n 1 st) ds = Some (Inl e)"
      by (auto split: option.splits sum.splits)
    have b1: "blacks (dset n 1 st) = blacks st"
      using c c2 by (auto simp: blacks_def)
    have edge: "(n, d) \<in> edges adj" if "d \<in> set ds" for d using ds that by (simp add: edges_def)
    have grey: "(g, d) \<in> (edges adj)\<^sup>+" if "dget (dset n 1 st) g = Some 1" "d \<in> set ds" for g d
      using that "2.prems"(6) edge [OF that(2)] by (cases "g = n") (auto intro: trancl_into_trancl)
    have "colours_ok adj (dset n 1 st)"
      using colours_ok_dset [OF "2.prems"(3,5)] by simp
    moreover have "\<forall>d \<in> set ds. dget adj d \<noteq> None"
      using "2.prems"(2) edge unfolding closed_adj_def by blast
    moreover have "ranked (edges adj) (blacks (dset n 1 st))" using "2.prems"(4) b1 by simp
    ultimately show ?thesis
      using "2.IH" [OF c(1) False c2 ds d "2.prems"(2)] grey by blast
  qed
next
  case (4 k adj st d ds)
  show ?case
  proof (cases "\<exists>e'. dfs k adj st d = Some (Inl e')")
    case True
    with "4.prems"(1) have d: "dfs k adj st d = Some (Inl e)" by auto
    show ?thesis using "4.IH"(1) [OF d] "4.prems" by auto
  next
    case False
    with "4.prems"(1) obtain st1 where s1: "dfs k adj st d = Some (Inr st1)"
      and s2: "dfs_deps k adj st1 ds = Some (Inl e)"
      by (auto split: option.splits sum.splits)
    have a: "ranked (edges adj) (blacks st1)" "same_frame st st1"
      using dfs_sound(1) [OF s1 "4.prems"(4)] by auto
    have "colours_ok adj st1" using dfs_colours_ok(1) [OF s1 "4.prems"(3)] .
    with a show ?thesis
      using "4.IH"(2) [OF s1 refl s2] "4.prems" by (auto simp: same_frame_def)
  qed
qed auto

text \<open>Every nested call whitens one task less, so the number of unvisited tasks bounds the depth.\<close>

definition whites :: "colours \<Rightarrow> string set" where
  "whites st = {x. dget st x = Some 0}"

lemma finite_whites [simp]: "finite (whites st)"
proof (rule finite_subset)
  show "whites st \<subseteq> set (dkeys st)"
    using dget_eq_None_iff [of st] by (force simp: whites_def)
qed simp

lemma same_frame_whites: "same_frame st st' \<Longrightarrow> colours_ok adj st \<Longrightarrow> whites st' \<subseteq> whites st"
proof
  fix x
  assume a: "same_frame st st'" "colours_ok adj st" "x \<in> whites st'"
  then have x: "dget st' x = Some 0" by (simp add: whites_def)
  from a(1) have "(dget st' x = None \<longleftrightarrow> dget st x = None) \<and> (dget st' x = Some 1 \<longleftrightarrow> dget st x = Some 1)
      \<and> (dget st x = Some 2 \<longrightarrow> dget st' x = Some 2)"
    unfolding same_frame_def by blast
  with x have "dget st x \<noteq> None" "dget st x \<noteq> Some 1" "dget st x \<noteq> Some 2" by auto
  with a(2) show "x \<in> whites st" unfolding colours_ok_def whites_def by blast
qed

lemma dfs_enough_fuel:
  "card (whites st) < k \<Longrightarrow> colours_ok adj st \<Longrightarrow> ranked (edges adj) (blacks st) \<Longrightarrow> dfs k adj st n \<noteq> None"
  "card (whites st) < k \<Longrightarrow> colours_ok adj st \<Longrightarrow> ranked (edges adj) (blacks st) \<Longrightarrow> dfs_deps k adj st ds \<noteq> None"
proof (induction k adj st n and k adj st ds rule: dfs_dfs_deps.induct)
  case (2 k adj st n)
  show ?case
  proof (cases "dget st n = Some 0 \<and> dget adj n \<noteq> None")
    case True
    then obtain ds where c: "dget st n = Some 0" and ds: "dget adj n = Some ds" by blast
    have "whites (dset n 1 st) = whites st - {n}" by (auto simp: whites_def)
    moreover have "n \<in> whites st" using c by (simp add: whites_def)
    ultimately have "card (whites (dset n 1 st)) < card (whites st)"
      using card_Diff1_less [OF finite_whites] by metis
    moreover have "blacks (dset n 1 st) = blacks st" using c by (auto simp: blacks_def)
    ultimately have "dfs_deps k adj (dset n 1 st) ds \<noteq> None"
      using "2.IH" [OF c _ _ ds] "2.prems" colours_ok_dset [of adj st n 1] ds by auto
    with c ds show ?thesis by (auto split: sum.splits)
  next
    case False
    with "2.prems"(2) show ?thesis
      by (auto simp: colours_ok_def split: option.splits)
  qed
next
  case (4 k adj st d ds)
  have 1: "dfs k adj st d \<noteq> None" using "4.IH"(1) "4.prems" by auto
  show ?case
  proof (cases "\<exists>st1. dfs k adj st d = Some (Inr st1)")
    case True
    then obtain st1 where s1: "dfs k adj st d = Some (Inr st1)" by blast
    have a: "ranked (edges adj) (blacks st1)" "same_frame st st1"
      using dfs_sound(1) [OF s1 "4.prems"(3)] by auto
    have "card (whites st1) \<le> card (whites st)"
      using same_frame_whites [OF a(2) "4.prems"(2)] by (intro card_mono) auto
    with a s1 show ?thesis
      using "4.IH"(2) [OF s1 refl] "4.prems" dfs_colours_ok(1) [OF s1] by auto
  next
    case False
    with 1 show ?thesis by (auto split: sum.splits)
  qed
qed auto

lemma adjacency_distinct:
  "distinct (map task_id nodes) \<Longrightarrow> adjacency nodes = map (\<lambda>n. (task_id n, depends_on n)) nodes"
proof -
  have new: "dset k v d = d @ [(k, v)]" if "k \<notin> set (dkeys d)" for k and v :: "string list" and d
    using that by (induction k v d rule: dset.induct) (auto simp: dkeys_def)
  have "fold (\<lambda>n. dset (task_id n) (depends_on n)) nodes d = d @ map (\<lambda>n. (task_id n, depends_on n)) nodes"
    if "distinct (map task_id nodes)" "set (map task_id nodes) \<inter> set (dkeys d) = {}" for d
    using that
  proof (induction nodes arbitrary: d)
    case (Cons n ns)
    then have "dset (task_id n) (depends_on n) d = d @ [(task_id n, depends_on n)]"
      by (intro new) auto
    with Cons show ?case by (force simp: dkeys_def)
  qed simp
  from this [of "[]"] show "distinct (map task_id nodes) \<Longrightarrow> ?thesis"
    by (simp add: adjacency_def dkeys_def)
qed

definition deps_known :: "task_node list \<Rightarrow> bool" where
  "deps_known nodes \<longleftrightarrow> (\<forall>n \<in> set nodes. set (depends_on n) \<subseteq> set (map task_id nodes))"

lemma dget_adjacency:
  assumes "distinct (map task_id nodes)"
  shows "dget (adjacency nodes) x = Some ds \<longleftrightarrow> (\<exists>n \<in> set nodes. task_id n = x \<and> depends_on n = ds)"
proof -
  have "distinct (map fst (map (\<lambda>n. (task_id n, depends_on n)) nodes))" using assms by (simp add: comp_def)
  from map_of_eq_Some_iff [OF this] show ?thesis
    unfolding adjacency_distinct [OF assms] dget_def by auto
qed

lemma edges_adjacency: "distinct (map task_id nodes) \<Longrightarrow> edges (adjacency nodes) = dep_rel nodes"
  by (auto simp: edges_def dep_rel_def dget_adjacency)

lemma closed_adjacency:
  assumes "distinct (map task_id nodes)" "deps_known nodes"
  shows "closed_adj (adjacency nodes)"
  unfolding closed_adj_def edges_adjacency [OF assms(1)]
proof (intro allI impI)
  fix n d
  assume "(n, d) \<in> dep_rel nodes"
  with assms(2) obtain m where "m \<in> set nodes" "task_id m = d"
    by (auto simp: dep_rel_def deps_known_def)
  with dget_adjacency [OF assms(1), of d] show "dget (adjacency nodes) d \<noteq> None" by auto
qed

text \<open>The search as a whole: it succeeds on acyclic graphs, and names a task on a cycle otherwise.\<close>

lemma check_no_cycles_cases:
  assumes "distinct (map task_id nodes)" "deps_known nodes"
  shows "check_no_cycles nodes = Inr () \<and> acyclic (dep_rel nodes)
    \<or> (\<exists>e. check_no_cycles nodes = Inl e \<and> cycle_error (dep_rel nodes) e)"
proof -
  define adj where "adj = adjacency nodes"
  define st where "st = map (\<lambda>(k, ds). (k, 0::int)) adj"
  have E: "edges adj = dep_rel nodes" using assms(1) by (simp add: adj_def edges_adjacency)
  have get: "dget st x = map_option (\<lambda>_. 0) (dget adj x)" for x
    by (simp add: st_def dget_def map_of_map split_beta)
  have ok: "colours_ok adj st" by (auto simp: colours_ok_def get)
  have b: "blacks st = {}" by (auto simp: blacks_def get)
  have r: "ranked (edges adj) (blacks st)" by (simp add: b ranked_def)
  have keys: "dget adj d \<noteq> None" if "d \<in> set (dkeys adj)" for d using that by (simp add: dget_eq_None_iff)
  have "whites st \<subseteq> set (map task_id nodes)"
    using dget_adjacency [OF assms(1)] by (auto simp: whites_def get adj_def)
  then have "card (whites st) \<le> length nodes"
    using card_mono [of "set (map task_id nodes)"] card_length [of "map task_id nodes"]
    by (metis List.finite_set length_map order_trans)
  then have fuel: "dfs_deps (Suc (length nodes)) adj st (dkeys adj) \<noteq> None"
    using ok r by (intro dfs_enough_fuel) auto
  have def: "check_no_cycles nodes = (case dfs_deps (Suc (length nodes)) adj st (dkeys adj) of
        None \<Rightarrow> Inl (Exn OtherError ''maximum recursion depth exceeded'')
      | Some (Inl e) \<Rightarrow> Inl e | Some (Inr _) \<Rightarrow> Inr ())"
    by (simp add: check_no_cycles_def adj_def st_def Let_def)
  from fuel consider e where "dfs_deps (Suc (length nodes)) adj st (dkeys adj) = Some (Inl e)"
    | st' where "dfs_deps (Suc (length nodes)) adj st (dkeys adj) = Some (Inr st')"
    by (metis option.exhaust sum.exhaust)
  then show ?thesis
  proof cases
    case 1
    have "cycle_error (edges adj) e"
      using closed_adjacency [OF assms] ok r keys
      by (intro dfs_error_cycle(2) [OF 1]) (auto simp: adj_def get)
    with 1 def E show ?thesis by simp
  next
    case 2
    have s: "ranked (edges adj) (blacks st')" "set (dkeys adj) \<subseteq> blacks st'"
      using dfs_sound(2) [OF 2 r] by auto
    have "x \<in> set (dkeys adj)" if "(x, y) \<in> edges adj" for x y
      using that dget_eq_None_iff [of adj x] by (auto simp: edges_def)
    with s have "acyclic (edges adj)" by (intro ranked_acyclic) auto
    with 2 def E show ?thesis by simp
  qed
qed

lemma check_no_cycles_iff:
  assumes "distinct (map task_id nodes)" "deps_known nodes"
  shows "check_no_cycles nodes = Inr () \<longleftrightarrow> acyclic (dep_rel nodes)"
  using check_no_cycles_cases [OF assms] by (auto simp: cycle_error_def acyclic_def)

section \<open>What validation accepts\<close>

definition task_ok :: "task_node \<Rightarrow> bool" where
  "task_ok n \<longleftrightarrow> status n = Pending \<and> task_output n = None
     \<and> assigned_model n \<in> set valid_models \<and> set (tool_hints n) \<subseteq> set valid_tools"

text \<open>What the rest of the pipeline may rely on in a plan.\<close>

definition plan_ok :: "task_node list \<Rightarrow> bool" where
  "plan_ok nodes \<longleftrightarrow> nodes \<noteq> [] \<and> length nodes \<le> max_tasks \<and> distinct (map task_id nodes)
     \<and> deps_known nodes \<and> acyclic (dep_rel nodes) \<and> (\<forall>n \<in> set nodes. task_ok n)"

lemma in_str_set_Inr: "in_str_set j ss = Inr True \<longleftrightarrow> (\<exists>s. j = JStr s \<and> s \<in> set ss)"
  by (cases "(j, ss)" rule: in_str_set.cases) auto

lemma keep_tools_valid: "keep_tools ts = Inr hs \<Longrightarrow> set hs \<subseteq> set valid_tools"
  by (induction ts arbitrary: hs)
    (auto simp: rbind_eq_Inr in_str_set_Inr split: if_splits)

lemma validate_one_ok:
  "validate_one i ids raw = Inr n \<Longrightarrow> task_ok n \<and> task_id n \<notin> ids"
  by (auto simp: validate_one_def Let_def rbind_eq_Inr task_ok_def in_str_set_Inr
      dest!: keep_tools_valid split: json.splits option.splits if_splits)

lemma validate_tasks_ok:
  "validate_tasks i ids raws = Inr ns \<Longrightarrow>
     length ns = length raws \<and> distinct (map task_id ns) \<and> set (map task_id ns) \<inter> ids = {}
     \<and> (\<forall>n \<in> set ns. task_ok n)"
proof (induction i ids raws arbitrary: ns rule: validate_tasks.induct)
  case (2 i ids raw raws)
  then obtain n ns' where n: "validate_one i ids raw = Inr n" "ns = n # ns'"
    and ns': "validate_tasks (Suc i) (insert (task_id n) ids) raws = Inr ns'"
    by (auto simp: rbind_eq_Inr)
  with "2.IH" [OF ns'] validate_one_ok [OF n(1)] show ?case by auto
qed simp

lemma check_deps_iff: "check_deps ids ns = Inr () \<longleftrightarrow> (\<forall>n \<in> set ns. set (depends_on n) \<subseteq> set ids)"
  by (induction ids ns rule: check_deps.induct)
    (auto simp: find_None_iff find_Some_iff split: option.splits dest!: nth_mem)

lemma validate_accepts_iff:
  "validate_task_dag (JArr raws) = Inr nodes \<longleftrightarrow>
     raws \<noteq> [] \<and> length raws \<le> max_tasks \<and> validate_tasks 0 {} raws = Inr nodes
     \<and> deps_known nodes \<and> acyclic (dep_rel nodes)"
  using validate_tasks_ok [of 0 "{}" raws] check_no_cycles_iff
  by (auto simp: validate_task_dag_def rbind_eq_Inr deps_known_def check_deps_iff)

lemma validate_plan_ok: "validate_task_dag raw = Inr nodes \<Longrightarrow> plan_ok nodes"
proof -
  assume a: "validate_task_dag raw = Inr nodes"
  then obtain raws where r: "raw = JArr raws" by (auto simp: validate_task_dag_def split: json.splits)
  with a validate_tasks_ok [of 0 "{}" raws nodes] show ?thesis
    by (auto simp: validate_accepts_iff plan_ok_def)
qed

section \<open>Properties\<close>

lemma dep_relI: "n \<in> set nodes \<Longrightarrow> d \<in> set (depends_on n) \<Longrightarrow> (task_id n, d) \<in> dep_rel nodes"
  by (auto simp: dep_rel_def)

text \<open>A proposed plan of two tasks, the first depending on the second, as the planner's
  JSON carries it; and the same with the second depending back on the first.\<close>

definition raw_task :: "string \<Rightarrow> string list \<Rightarrow> json" where
  "raw_task i ds = JObj [(''id'', JStr i), (''description'', JStr ''do it''),
     (''depends_on'', JArr (map JStr ds)), (''tool_hints'', JArr [JStr ''web_search'', JStr ''other'']),
     (''assigned_model'', JStr ''code'')]"

definition node_of :: "string \<Rightarrow> string list \<Rightarrow> task_node" where
  "node_of i ds = \<lparr>task_id = i, description = ''do it'', status = Pending, depends_on = ds,
     tool_hints = [''web_search''], assigned_model = ''code'', task_output = None\<rparr>"

lemma example_plan_valid:
  "validate_task_dag (JArr [raw_task ''a'' [''b''], raw_task ''b'' []]) = Inr [node_of ''a'' [''b''], node_of ''b'' []]"
  by code_simp

text \<open>C8: a plan that passes validation has between one and ten tasks with distinct ids, depends
  on known tasks only, has no dependency cycle, and every task is pending, carries no output,
  is assigned to a known model and keeps known tools only.\<close>

theorem validate_task_dag_sound:
  "validate_task_dag raw = Inr nodes \<Longrightarrow> plan_ok nodes"
  by (rule validate_plan_ok)

theorem validate_task_dag_sound_witness:
  "plan_ok [node_of ''a'' [''b''], node_of ''b'' []]"
  by (rule validate_task_dag_sound [OF example_plan_valid])

text \<open>C9: validation accepts a list of raw tasks exactly when it is non-empty, within the limit,
  its tasks pass the field checks, every dependency is the id of a task and the dependency
  relation is acyclic; no other plan is rejected.\<close>

theorem validate_task_dag_iff:
  "validate_task_dag (JArr raws) = Inr nodes \<longleftrightarrow>
     raws \<noteq> [] \<and> length raws \<le> 10 \<and> validate_tasks 0 {} raws = Inr nodes
     \<and> deps_known nodes \<and> acyclic (dep_rel nodes)"
  by (simp add: validate_accepts_iff max_tasks_def)

text \<open>When the only thing wrong with a plan is a dependency cycle, validation raises
  \<open>ValueError\<close>, and the task its message names lies on a cycle; the depth-first
  search never runs out of stack on the way.\<close>

theorem validate_task_dag_cycle:
  assumes "raws \<noteq> []" "length raws \<le> 10" "validate_tasks 0 {} raws = Inr nodes"
    and "deps_known nodes" "\<not> acyclic (dep_rel nodes)"
  shows "\<exists>x. validate_task_dag (JArr raws)
           = Inl (Exn ValueError (''Circular dependency detected involving task '' @ py_repr x))
         \<and> (x, x) \<in> (dep_rel nodes)\<^sup>+"
proof -
  have "distinct (map task_id nodes)" using validate_tasks_ok [OF assms(3)] by simp
  from check_no_cycles_cases [OF this assms(4)] assms(5) obtain e
    where e: "check_no_cycles nodes = Inl e" "cycle_error (dep_rel nodes) e" by auto
  have "check_deps (map task_id nodes) nodes = Inr ()"
    using assms(4) by (simp add: check_deps_iff deps_known_def)
  with e(1) assms(1-3) have "validate_task_dag (JArr raws) = Inl e"
    by (simp add: validate_task_dag_def max_tasks_def)
  with e(2) show ?thesis by (auto simp: cycle_error_def)
qed

theorem validate_task_dag_cycle_witness:
  "\<exists>x. validate_task_dag (JArr [raw_task ''a'' [''b''], raw_task ''b'' [''a'']])
     = Inl (Exn ValueError (''Circular dependency detected involving task '' @ py_repr x))"
proof -
  let ?ns = "[node_of ''a'' [''b''], node_of ''b'' [''a'']]"
  have v: "validate_tasks 0 {} [raw_task ''a'' [''b''], raw_task ''b'' [''a'']] = Inr ?ns"
    by code_simp
  have d: "deps_known ?ns" by code_simp
  have "(task_id (node_of ''a'' [''b'']), ''b'') \<in> dep_rel ?ns"
    "(task_id (node_of ''b'' [''a'']), ''a'') \<in> dep_rel ?ns"
    by (rule dep_relI; simp add: node_of_def)+
  then have "(''a'', ''b'') \<in> dep_rel ?ns" "(''b'', ''a'') \<in> dep_rel ?ns"
    by (simp_all add: node_of_def)
  then have c: "\<not> acyclic (dep_rel ?ns)"
    unfolding acyclic_def by (meson trancl.intros)
  from validate_task_dag_cycle [OF _ _ v d c] show ?thesis by auto
qed

end
