(* ===== verification/FloatText.thy ===== *)
theory FloatText
  imports Json
begin

text \<open>
  The text of a float reads back as the float. \<open>repr\<close> prints the shortest digits that round to it,
  seventeen of which always do; \<open>json.loads\<close> rounds what it reads. Of the printed forms (a fraction
  with leading zeros, an integer with \<open>.0\<close>, digits on both sides of the point, an exponent) each is a
  numeral \<open>(ip, fp, ex)\<close> of integer digits, fraction digits and exponent.
\<close>

section \<open>Rounding what is near a float gives the float\<close>

lemma rhe_near:
  assumes "\<bar>z - of_int m\<bar> < 1 / 2"
  shows "rhe z = m"
proof -
  have "\<bar>of_int (rhe z) - z\<bar> \<le> (1 / 2 :: rat)" by (rule rhe_error)
  with assms have "\<bar>of_int (rhe z) - of_int m\<bar> < (1::rat)" by linarith
  then have "\<bar>of_int (rhe z - m)\<bar> < (1::rat)" by simp
  then have "\<bar>rhe z - m\<bar> < 1" by linarith
  then show ?thesis by simp
qed

lemma fl_pos_near:
  assumes "0 < y" "x = of_int j * 2 powi qexp y" "\<bar>y - x\<bar> < 2 powi qexp y / 2"
  shows "fl_pos y = x"
proof -
  let ?u = "(2::rat) powi qexp y"
  have "\<bar>y / ?u - of_int j\<bar> = \<bar>y - x\<bar> / ?u" by (simp add: assms(2) abs_divide diff_divide_distrib [symmetric] divide_simps)
  also have "\<dots> < 1 / 2" using assms(3) by (simp add: pos_divide_less_eq)
  finally have "rhe (y / ?u) = j" by (rule rhe_near)
  then show ?thesis by (simp add: fl_pos_def assms(2))
qed

lemma expo_upper: "0 < y \<Longrightarrow> y < 2 powi (qexp y + 53)"
proof -
  assume "0 < y"
  then have "y < 2 powi (expo 2 y + 1)" using expo2_bounds by blast
  also have "\<dots> \<le> 2 powi (qexp y + 53)" by (simp add: qexp_def)
  finally show ?thesis .
qed

lemma two_powi_scale: "(2::rat) powi (q + 53) = 2 ^ 53 * 2 powi q"
  by (simp add: power_int_add)

text \<open>A float is a multiple of the spacing around it.\<close>

lemma fl_pos_grid: "fl_pos x = x \<Longrightarrow> \<exists>m. x = of_int m * 2 powi qexp x"
  unfolding fl_pos_def by metis

lemma grid_finer:
  assumes "x = of_int m * (2::rat) powi q" "p \<le> q"
  shows "x = of_int (m * 2 ^ nat (q - p)) * 2 powi p"
  using assms two_powi_divide [OF assms(2)] by (simp add: divide_simps)

lemma grid_gap:
  assumes "of_int i * u < of_int j * u" "(0::rat) < u"
  shows "of_int i * u + u \<le> of_int j * u"
proof -
  have "i + 1 \<le> j" using assms by simp
  then have "(of_int (i + 1) :: rat) \<le> of_int j" by (simp only: of_int_le_iff)
  then have "of_int (i + 1) * u \<le> of_int j * u" using assms(2) by (simp only: mult_right_mono less_imp_le)
  then show ?thesis by (simp add: algebra_simps)
qed

lemma grid_far: "y < 2 ^ 53 * u \<Longrightarrow> x - y < x / 2 ^ 54 \<Longrightarrow> 2 ^ 53 * u + u \<le> x \<Longrightarrow> 0 < u \<Longrightarrow> False" for u :: rat
  by simp

lemma fl_pos_nearest:
  assumes x: "0 < x" "fl_pos x = x" and y: "0 < y" "\<bar>y - x\<bar> < x / 2 ^ 54"
  shows "fl_pos y = x"
proof -
  let ?v = "(2::rat) powi qexp x" and ?u = "(2::rat) powi qexp y"
  from y(2) have near: "y - x < x / 2 ^ 54" "x - y < x / 2 ^ 54" by linarith+
  obtain m where m: "x = of_int m * ?v" using fl_pos_grid [OF x(2)] by blast
  have ux: "x < 2 ^ 53 * ?v" using expo_upper [OF x(1)] by (simp add: two_powi_scale)
  have uy: "y < 2 ^ 53 * ?u" using expo_upper [OF y(1)] by (simp add: two_powi_scale)
  have coarse: "qexp y \<le> qexp x"
  proof (rule ccontr)
    assume "\<not> qexp y \<le> qexp x"
    then have q: "qexp x + 1 \<le> qexp y" by simp
    then have "expo 2 y = qexp y + 52" using qexp_ge [of x] by (simp add: qexp_def max_def split: if_splits)
    then have "2 powi (qexp y + 52) \<le> y" using expo2_bounds [OF y(1)] by simp
    moreover have "(2::rat) powi (qexp x + 53) \<le> 2 powi (qexp y + 52)" using q by simp
    ultimately have far: "2 ^ 53 * ?v \<le> y" by (simp only: two_powi_scale)
    have "of_int m * ?v < of_int (2 ^ 53) * ?v" using ux m by simp
    then have "x + ?v \<le> 2 ^ 53 * ?v" using grid_gap [of m ?v "2 ^ 53"] m by simp
    with far near(1) ux show False by simp
  qed
  define j where "j = m * 2 ^ nat (qexp x - qexp y)"
  have j: "x = of_int j * ?u" using grid_finer [OF m coarse] by (simp add: j_def)
  have "x \<le> 2 ^ 53 * ?u"
  proof (rule ccontr)
    assume "\<not> x \<le> 2 ^ 53 * ?u"
    then have "of_int (2 ^ 53) * ?u < of_int j * ?u" using j by simp
    then have "2 ^ 53 * ?u + ?u \<le> x" using grid_gap [of "2 ^ 53" ?u j] j by simp
    with uy near(2) show False by (intro grid_far [of y ?u x]) simp_all
  qed
  then have "\<bar>y - x\<bar> < ?u / 2" using y(2) by simp
  with y(1) j show ?thesis by (rule fl_pos_near)
qed

lemma fl_fl_pos: "0 < x \<Longrightarrow> fl x = fl_pos x"
  by (simp add: fl_def)

section \<open>The shortest digits\<close>

lemma ten_powi_pos [simp]: "(0::rat) < 10 powi k"
  by simp

lemma expo10_bounds: "0 < x \<Longrightarrow> (10::rat) powi expo 10 x \<le> x \<and> x < 10 powi (expo 10 x + 1)"
  using expo_bounds [of 10 x] by simp

text \<open>Seventeen digits suffice.\<close>

lemma seventeen_digits:
  assumes "0 < x" "fl x = x"
  shows "fl (of_int (rhe (x / 10 powi (expo 10 x - 16))) * 10 powi (expo 10 x - 16)) = x"
proof -
  let ?s = "(10::rat) powi (expo 10 x - 16)"
  define y where "y = of_int (rhe (x / ?s)) * ?s"
  have s: "10 ^ 16 * ?s \<le> x" using expo10_bounds [OF assms(1)] by (simp add: power_int_diff)
  have "y - x = (of_int (rhe (x / ?s)) - x / ?s) * ?s" by (simp add: y_def algebra_simps)
  then have "\<bar>y - x\<bar> = \<bar>of_int (rhe (x / ?s)) - x / ?s\<bar> * ?s" by (simp add: abs_mult)
  also have "\<dots> \<le> 1 / 2 * ?s" by (rule mult_right_mono [OF rhe_error]) simp
  finally have d: "\<bar>y - x\<bar> < x / 2 ^ 54" using s assms(1) by simp
  then have "x - y < x / 2 ^ 54" by linarith
  then have y: "0 < y" using assms(1) by simp
  from assms have "fl_pos x = x" by (simp add: fl_fl_pos)
  from fl_pos_nearest [OF assms(1) this y d] have "fl_pos y = x" .
  with y show ?thesis by (simp add: fl_fl_pos y_def)
qed

lemma rhe_floor: "rhe z = \<lfloor>z\<rfloor> \<or> rhe z = \<lfloor>z\<rfloor> + 1"
  by (simp add: rhe_def Let_def)

lemma shortest_reads_back:
  assumes "0 < x" "fl x = x" "shortest fuel n x = (d, k)" "n + fuel = 17"
  shows "fl (of_int d * 10 powi k) = x"
  using assms(3,4)
proof (induction fuel arbitrary: n)
  case 0
  then have "k = expo 10 x - 16" "d = rhe (x / 10 powi (expo 10 x - 16))" by (auto simp: Let_def)
  with seventeen_digits [OF assms(1,2)] show ?case by simp
next
  case (Suc fuel)
  let ?k = "expo 10 x - int n + 1"
  let ?lo = "\<lfloor>x / 10 powi ?k\<rfloor>"
  have r: "rhe (x / 10 powi ?k) = ?lo \<or> rhe (x / 10 powi ?k) = ?lo + 1" by (rule rhe_floor)
  from Suc.prems have "n + 1 + fuel = 17" by simp
  with Suc.IH [of "Suc n"] Suc.prems r show ?case by (auto simp: Let_def split: if_splits)
qed

lemma strip_zeros_value:
  "strip_zeros fuel d k = (d', k') \<Longrightarrow> of_int d' * (10::rat) powi k' = of_int d * 10 powi k"
proof (induction fuel arbitrary: d k)
  case (Suc fuel)
  show ?case
  proof (cases "d \<noteq> 0 \<and> d mod 10 = 0")
    case True
    then obtain c where c: "d = 10 * c" by fastforce
    with True Suc have "of_int d' * (10::rat) powi k' = of_int c * 10 powi (k + 1)" by auto
    then show ?thesis by (simp add: c power_int_add)
  next
    case False
    with Suc.prems show ?thesis by simp
  qed
qed simp

text \<open>The digits and scale that \<open>repr\<close> prints.\<close>

lemma repr_digits:
  assumes "0 < x" "fl x = x" "shortest 16 1 x = (d0, k0)" "strip_zeros 17 d0 k0 = (d, k)"
  shows "0 < d \<and> fl (of_int d * 10 powi k) = x"
proof -
  have f: "fl (of_int d * 10 powi k) = x"
    using shortest_reads_back [OF assms(1-3)] strip_zeros_value [OF assms(4)] by simp
  have "0 < d"
  proof (rule ccontr)
    assume "\<not> 0 < d"
    then have "of_int d * (10::rat) powi k \<le> 0" by (simp add: mult_nonpos_nonneg)
    then have "fl (of_int d * 10 powi k) \<le> fl 0" by (rule fl_mono)
    with f assms(1) show False by simp
  qed
  with f show ?thesis by simp
qed

section \<open>Digits\<close>

abbreviation digits :: "string \<Rightarrow> bool" where
  "digits s \<equiv> list_all is_digit s"

lemma int_of_digits_snoc: "int_of_digits (s @ [c]) = 10 * int_of_digits s + (int (code c) - 48)"
  by (simp add: int_of_digits_def)

lemma int_of_digits_append: "int_of_digits (s @ t) = int_of_digits s * 10 ^ length t + int_of_digits t"
proof (induction t rule: rev_induct)
  case Nil
  show ?case by (simp add: int_of_digits_def)
next
  case (snoc c t)
  then show ?case using int_of_digits_snoc [of "s @ t" c] by (simp add: int_of_digits_snoc algebra_simps)
qed

lemma int_of_digits_0 [simp]: "int_of_digits [] = 0" "int_of_digits (CHR ''0'' # s) = int_of_digits s"
  by (simp_all add: int_of_digits_def code_def)

lemma zeros_digits [simp]: "digits (zeros n)" "int_of_digits (zeros n) = 0" "length (zeros n) = n"
proof -
  show "digits (zeros n)" by (simp add: zeros_def list_all_iff is_digit_def code_def)
  show "int_of_digits (zeros n) = 0" by (induction n) (simp_all add: zeros_def int_of_digits_def code_def)
  show "length (zeros n) = n" by (simp add: zeros_def)
qed

lemma digit_char_value:
  assumes "d < 10"
  shows "is_digit (digit_char d) \<and> int (code (digit_char d)) - 48 = int d"
  using assms by (simp add: digit_char_def is_digit_def code_def)

lemma str_of_digits_value:
  "0 \<le> n \<Longrightarrow> digits (str_of_digits n) \<and> int_of_digits (str_of_digits n) = n \<and> (0 < n \<longrightarrow> hd (str_of_digits n) \<noteq> CHR ''0'')"
proof (induction n rule: str_of_digits.induct)
  case (1 n)
  show ?case
  proof (cases "n < 10")
    case True
    then have d: "is_digit (digit_char (nat n))" "int (code (digit_char (nat n))) - 48 = n"
      using "1.prems" digit_char_value [of "nat n"] by auto
    then have "0 < n \<longrightarrow> digit_char (nat n) \<noteq> CHR ''0''" by (auto simp: code_def)
    with True d show ?thesis using int_of_digits_snoc [of "[]" "digit_char (nat n)"]
      by (simp add: str_of_digits.simps [of n] int_of_digits_def)
  next
    case False
    then have IH: "digits (str_of_digits (n div 10)) \<and> int_of_digits (str_of_digits (n div 10)) = n div 10
        \<and> hd (str_of_digits (n div 10)) \<noteq> CHR ''0''" using "1.IH" "1.prems" by auto
    have d: "is_digit (digit_char (nat (n mod 10)))" "int (code (digit_char (nat (n mod 10)))) - 48 = n mod 10"
      using digit_char_value [of "nat (n mod 10)"] by auto
    with False IH show ?thesis by (simp add: str_of_digits.simps [of n] int_of_digits_snoc)
  qed
qed

lemma takeWhile_digits:
  assumes "digits s" "t = [] \<or> \<not> is_digit (hd t)"
  shows "takeWhile is_digit (s @ t) = s \<and> dropWhile is_digit (s @ t) = t"
  using assms by (cases t) (auto simp: list_all_iff takeWhile_append2 dropWhile_append2 takeWhile_tail)

lemma takeWhile_all_digits: "digits s \<Longrightarrow> takeWhile is_digit s = s \<and> dropWhile is_digit s = []"
  using takeWhile_digits [of s "[]"] by simp

section \<open>Numerals\<close>

fun exp_text :: "(bool \<times> string) option \<Rightarrow> string" where
  "exp_text None = []"
| "exp_text (Some (neg, ds)) = CHR ''e'' # (if neg then CHR ''-'' else CHR ''+'') # ds"

fun exp_value :: "(bool \<times> string) option \<Rightarrow> int" where
  "exp_value None = 0"
| "exp_value (Some (neg, ds)) = (if neg then - int_of_digits ds else int_of_digits ds)"

definition point_text :: "string \<Rightarrow> string" where
  "point_text fp = (if fp = [] then [] else CHR ''.'' # fp)"

definition num_ok :: "string \<Rightarrow> string \<Rightarrow> (bool \<times> string) option \<Rightarrow> bool" where
  "num_ok ip fp ex \<longleftrightarrow> ip \<noteq> [] \<and> digits ip \<and> (hd ip = CHR ''0'' \<longrightarrow> ip = ''0'') \<and> digits fp
     \<and> (\<forall>neg ds. ex = Some (neg, ds) \<longrightarrow> ds \<noteq> [] \<and> digits ds)"

definition num_rat :: "string \<Rightarrow> string \<Rightarrow> (bool \<times> string) option \<Rightarrow> rat" where
  "num_rat ip fp ex = of_int (int_of_digits (ip @ fp)) * 10 powi (- int (length fp)) * 10 powi exp_value ex"

text \<open>What follows a value in a document does not go on with the number.\<close>

definition ends_number :: "string \<Rightarrow> bool" where
  "ends_number r \<longleftrightarrow> r = [] \<or> \<not> is_digit (hd r) \<and> hd r \<notin> {CHR ''.'', CHR ''e'', CHR ''E''}"

lemma not_digits: "\<not> is_digit (CHR ''.'')" "\<not> is_digit (CHR ''e'')" "\<not> is_digit (CHR ''-'')" "\<not> is_digit (CHR ''+'')"
  by (simp_all add: is_digit_def code_def)

lemma exp_head: "exp_text ex = [] \<or> hd (exp_text ex) = CHR ''e''"
  by (cases ex rule: exp_text.cases) simp_all

lemma parse_num_text:
  assumes "num_ok ip fp ex"
  shows "parse_decimal (ip @ point_text fp @ exp_text ex) = Some (num_rat ip fp ex)"
proof -
  from assms have ok: "ip \<noteq> []" "digits ip" "digits fp" by (simp_all add: num_ok_def)
  let ?e = "exp_text ex"
  have e: "?e = [] \<or> \<not> is_digit (hd ?e) \<and> hd ?e \<noteq> CHR ''.''" using exp_head [of ex] not_digits by auto
  then have "point_text fp @ ?e = [] \<or> \<not> is_digit (hd (point_text fp @ ?e))" using not_digits by (auto simp: point_text_def)
  then have i: "takeWhile is_digit (ip @ point_text fp @ ?e) = ip" "dropWhile is_digit (ip @ point_text fp @ ?e) = point_text fp @ ?e"
    using takeWhile_digits [OF ok(2)] by blast+
  have f: "takeWhile is_digit (fp @ ?e) = fp" "dropWhile is_digit (fp @ ?e) = ?e"
    using takeWhile_digits [OF ok(3)] e by blast+
  show ?thesis
  proof (cases ex rule: exp_text.cases)
    case 1
    then show ?thesis using i ok
      by (cases "fp = []") (simp_all add: parse_decimal_def Let_def num_rat_def point_text_def takeWhile_all_digits)
  next
    case (2 neg ds)
    with assms have ds: "ds \<noteq> []" "digits ds" by (simp_all add: num_ok_def)
    from not_digits takeWhile_digits [OF ok(2)] have
      i2: "takeWhile is_digit (ip @ CHR ''e'' # u) = ip" "dropWhile is_digit (ip @ CHR ''e'' # u) = CHR ''e'' # u"
        "takeWhile is_digit (ip @ CHR ''.'' # u) = ip" "dropWhile is_digit (ip @ CHR ''.'' # u) = CHR ''.'' # u" for u
      by simp_all
    from not_digits takeWhile_digits [OF ok(3)] have
      f2: "takeWhile is_digit (fp @ CHR ''e'' # u) = fp" "dropWhile is_digit (fp @ CHR ''e'' # u) = CHR ''e'' # u" for u
      by simp_all
    show ?thesis using ok(1) ds
      by (cases "fp = []"; cases neg) (simp_all add: 2 parse_decimal_def Let_def num_rat_def point_text_def i2 f2)
  qed
qed

lemma num_int_text:
  assumes "num_ok ip fp ex" "t = [] \<or> \<not> is_digit (hd t)"
  shows "num_int (ip @ t) = ip"
proof -
  from assms(1) obtain c cs where ip: "ip = c # cs" by (cases ip) (auto simp: num_ok_def)
  show ?thesis
  proof (cases "c = CHR ''0''")
    case True
    with assms(1) ip show ?thesis by (simp add: num_ok_def num_int_def)
  next
    case False
    with assms ip takeWhile_digits [of ip t] show ?thesis by (simp add: num_ok_def num_int_def)
  qed
qed

lemma num_frac_text:
  assumes "digits fp" "t = [] \<or> \<not> is_digit (hd t) \<and> hd t \<noteq> CHR ''.''"
  shows "num_frac (point_text fp @ t) = fp"
  using assms takeWhile_digits [of fp t] by (auto simp: num_frac_def point_text_def)

lemma num_exp_text:
  assumes "num_ok ip fp ex" "ends_number r"
  shows "num_exp (exp_text ex @ r) = exp_text ex"
proof (cases ex rule: exp_text.cases)
  case 1
  with assms(2) show ?thesis by (auto simp: num_exp_def ends_number_def)
next
  case (2 neg ds)
  with assms have "ds \<noteq> []" "takeWhile is_digit (ds @ r) = ds" using takeWhile_digits [of ds r]
    by (auto simp: num_ok_def ends_number_def)
  with 2 show ?thesis by (simp add: num_exp_def Let_def)
qed

text \<open>The scanner takes the numeral, and stops where it ends.\<close>

definition sign_text :: "bool \<Rightarrow> string" where
  "sign_text neg = (if neg then ''-'' else [])"

lemma scan_number_parts:
  assumes "num_ok ip fp ex" "ends_number r"
  shows "scan_number (sign_text neg @ ip @ point_text fp @ exp_text ex @ r)
    = map_option (map_sum id (\<lambda>v. (v, r))) (num_value neg ip fp (exp_text ex))"
proof -
  let ?t1 = "exp_text ex @ r" and ?t = "point_text fp @ exp_text ex @ r"
  have ok: "ip \<noteq> []" "digits ip" "digits fp" using assms(1) by (simp_all add: num_ok_def)
  then obtain c cs where ip: "ip = c # cs" "is_digit c" by (cases ip) auto
  then have neg: "c \<noteq> CHR ''-''" using not_digits(3) by auto
  have e: "?t1 = [] \<or> \<not> is_digit (hd ?t1) \<and> hd ?t1 \<noteq> CHR ''.''"
    using exp_head [of ex] assms(2) not_digits by (cases "exp_text ex") (auto simp: ends_number_def)
  then have t: "?t = [] \<or> \<not> is_digit (hd ?t)" using not_digits by (auto simp: point_text_def)
  have i: "num_int (ip @ ?t) = ip" by (rule num_int_text [OF assms(1) t])
  have f: "num_frac ?t = fp" by (rule num_frac_text [OF ok(3) e])
  have x: "num_exp ?t1 = exp_text ex" by (rule num_exp_text [OF assms])
  have d: "drop (if fp = [] then 0 else Suc (length fp)) ?t = ?t1" by (simp add: point_text_def)
  have s: "(sign_text neg @ ip @ ?t \<noteq> [] \<and> hd (sign_text neg @ ip @ ?t) = CHR ''-'') = neg"
    using neg ip(1) by (simp add: sign_text_def)
  have s1: "(if neg then tl (sign_text neg @ ip @ ?t) else sign_text neg @ ip @ ?t) = ip @ ?t" by (simp add: sign_text_def)
  have dr: "drop (length ip) (ip @ ?t) = ?t" "drop (length (exp_text ex)) ?t1 = r" by simp_all
  show ?thesis unfolding scan_number_def Let_def s s1 i dr(1) f d x dr(2) using ok(1) by simp
qed

lemma scan_float_text:
  assumes "num_ok ip fp ex" "fp \<noteq> [] \<or> ex \<noteq> None" "ends_number r"
  shows "scan_number (sign_text neg @ ip @ point_text fp @ exp_text ex @ r)
    = Some (Inr (JFloat (mk_float (if neg then - num_rat ip fp ex else num_rat ip fp ex)), r))"
proof -
  have "\<not> (fp = [] \<and> exp_text ex = [])" using assms(2) by (cases ex rule: exp_text.cases) auto
  then show ?thesis
    using scan_number_parts [OF assms(1,3), of neg] parse_num_text [OF assms(1)]
    by (auto simp: num_value_def point_text_def)
qed

lemma scan_int_text:
  assumes "num_ok ip [] None" "length ip \<le> 4300" "ends_number r"
  shows "scan_number (sign_text neg @ ip @ r) = Some (Inr (JInt (if neg then - int_of_digits ip else int_of_digits ip), r))"
  using scan_number_parts [OF assms(1,3), of neg] assms(2) by (simp add: num_value_def point_text_def)

section \<open>The printed forms\<close>

text \<open>A decimal is a positive integer without leading zeros; a numeral is any text that denotes a number.\<close>

definition decimal :: "string \<Rightarrow> int \<Rightarrow> bool" where
  "decimal ds d \<longleftrightarrow> ds \<noteq> [] \<and> digits ds \<and> hd ds \<noteq> CHR ''0'' \<and> int_of_digits ds = d"

lemma decimal_str: "0 < d \<Longrightarrow> decimal (str_of_digits d) d"
  using str_of_digits_value [of d] by (simp add: decimal_def)

definition numeral_of :: "string \<Rightarrow> rat \<Rightarrow> bool" where
  "numeral_of s q \<longleftrightarrow> (\<exists>ip fp ex. s = ip @ point_text fp @ exp_text ex \<and> num_ok ip fp ex \<and> (fp \<noteq> [] \<or> ex \<noteq> None) \<and> num_rat ip fp ex = q)"

lemma numeralI:
  "num_ok ip fp ex \<Longrightarrow> fp \<noteq> [] \<or> ex \<noteq> None \<Longrightarrow> num_rat ip fp ex = q \<Longrightarrow> s = ip @ point_text fp @ exp_text ex \<Longrightarrow> numeral_of s q"
  unfolding numeral_of_def by blast

lemma num_ok_take:
  assumes "decimal ip d" "0 < n" "digits fp" "\<And>neg ds. ex = Some (neg, ds) \<Longrightarrow> ds \<noteq> [] \<and> digits ds"
  shows "num_ok (take n ip) fp ex"
  using assms by (auto simp: num_ok_def decimal_def list_all_iff dest: in_set_takeD)

lemma digits_drop: "digits s \<Longrightarrow> digits (drop n s)"
  by (auto simp: list_all_iff dest: in_set_dropD)

lemma power_split: "(10::rat) powi (a + b) = 10 powi a * 10 powi b"
  by (simp add: power_int_add)

lemma ten_power_nat: "0 \<le> k \<Longrightarrow> of_int (10 ^ nat k) = (10::rat) powi k"
  by (simp flip: power_int_of_nat)

text \<open>The digits \<open>ds\<close> scaled by \<open>10 ^ k\<close> in each of the forms; \<open>pt\<close> is the place of the point.\<close>

lemma numeral_small:
  assumes "decimal ds d" "pt = int (length ds) + k" "pt \<le> 0"
  shows "numeral_of (''0.'' @ zeros (nat (- pt)) @ ds) (of_int d * 10 powi k)"
proof (rule numeralI [where ip = "''0''" and fp = "zeros (nat (- pt)) @ ds" and ex = None])
  show "num_ok ''0'' (zeros (nat (- pt)) @ ds) None" using assms(1) by (simp add: num_ok_def decimal_def is_digit_def code_def)
  show "num_rat ''0'' (zeros (nat (- pt)) @ ds) None = of_int d * 10 powi k"
    using assms by (simp add: num_rat_def decimal_def int_of_digits_append [of "zeros m" for m])
qed (use assms(1) in \<open>auto simp: point_text_def decimal_def\<close>)

lemma numeral_whole:
  assumes "decimal ds d" "pt = int (length ds) + k" "int (length ds) \<le> pt"
  shows "numeral_of (ds @ zeros (nat (pt - int (length ds))) @ ''.0'') (of_int d * 10 powi k)"
proof (rule numeralI [where ip = "ds @ zeros (nat (pt - int (length ds)))" and fp = "''0''" and ex = None])
  show "num_ok (ds @ zeros (nat (pt - int (length ds)))) ''0'' None"
    using assms(1) by (auto simp: num_ok_def decimal_def is_digit_def code_def hd_append)
  show "num_rat (ds @ zeros (nat (pt - int (length ds)))) ''0'' None = of_int d * 10 powi k"
    using assms by (simp add: num_rat_def decimal_def int_of_digits_append ten_power_nat power_int_minus flip: power_int_of_nat)
qed (simp_all add: point_text_def)

lemma numeral_mixed:
  assumes "decimal ds d" "pt = int (length ds) + k" "0 < pt" "pt < int (length ds)"
  shows "numeral_of (take (nat pt) ds @ ''.'' @ drop (nat pt) ds) (of_int d * 10 powi k)"
proof (rule numeralI [where ip = "take (nat pt) ds" and fp = "drop (nat pt) ds" and ex = None])
  have l: "int (length (drop (nat pt) ds)) = - k" "drop (nat pt) ds \<noteq> []" using assms(2-4) by auto
  show "num_rat (take (nat pt) ds) (drop (nat pt) ds) None = of_int d * 10 powi k"
    using assms(1) l(1) by (simp add: num_rat_def decimal_def)
  show "num_ok (take (nat pt) ds) (drop (nat pt) ds) None"
    using assms(1,3) by (intro num_ok_take) (auto simp: decimal_def digits_drop)
  show "drop (nat pt) ds \<noteq> [] \<or> None \<noteq> None" using l(2) by simp
  show "take (nat pt) ds @ ''.'' @ drop (nat pt) ds = take (nat pt) ds @ point_text (drop (nat pt) ds) @ exp_text None"
    using l(2) by (simp add: point_text_def)
qed

lemma numeral_exp:
  assumes "decimal ds d" "digits es" "es \<noteq> []" "int_of_digits es = \<bar>int (length ds) + k - 1\<bar>"
  shows "numeral_of (take 1 ds @ point_text (drop 1 ds) @ ''e'' @ (if int (length ds) + k - 1 < 0 then ''-'' else ''+'') @ es)
    (of_int d * 10 powi k)"
proof -
  let ?e = "int (length ds) + k - 1" and ?fp = "drop 1 ds"
  let ?ex = "Some (?e < 0, es)"
  have l: "int (length ?fp) = int (length ds) - 1" using assms(1) by (cases ds) (simp_all add: decimal_def)
  have "num_rat (take 1 ds) ?fp ?ex = of_int (int_of_digits ds) * (10 powi (- int (length ?fp)) * 10 powi ?e)"
    by (simp add: num_rat_def assms(4) mult.assoc)
  also have "\<dots> = of_int d * 10 powi k" unfolding l using assms(1) by (simp add: decimal_def flip: power_split)
  finally have "num_rat (take 1 ds) ?fp ?ex = of_int d * 10 powi k" .
  moreover have "num_ok (take 1 ds) ?fp ?ex" using assms by (intro num_ok_take) (auto simp: decimal_def digits_drop)
  ultimately show ?thesis by (intro numeralI [where ip = "take 1 ds" and fp = ?fp and ex = ?ex]) simp_all
qed

text \<open>The exponent has two digits at least.\<close>

lemma exponent_digits:
  defines "es e \<equiv> if length (str_of_int \<bar>e\<bar>) < 2 then ''0'' @ str_of_int \<bar>e\<bar> else str_of_int \<bar>e\<bar>"
  shows "digits (es e)" "es e \<noteq> []" "int_of_digits (es e) = \<bar>e\<bar>"
  using str_of_digits_value [of "\<bar>e\<bar>"] by (auto simp: es_def str_of_int_def is_digit_def code_def)

lemma repr_pos_numeral:
  assumes "0 < x" "fl x = x"
  shows "\<exists>q. numeral_of (repr_pos x) q \<and> fl q = x"
proof -
  obtain d0 k0 where s: "shortest 16 1 x = (d0, k0)" by fastforce
  obtain d k where z: "strip_zeros 17 d0 k0 = (d, k)" by fastforce
  from repr_digits [OF assms s z] have d: "0 < d" "fl (of_int d * 10 powi k) = x" by auto
  define ds where "ds = str_of_digits d"
  define n where "n = int (length ds)"
  define pt where "pt = n + k"
  define es where "es = (if length (str_of_int \<bar>pt - 1\<bar>) < 2 then ''0'' @ str_of_int \<bar>pt - 1\<bar> else str_of_int \<bar>pt - 1\<bar>)"
  have dec: "decimal ds d" using decimal_str [OF d(1)] by (simp add: ds_def)
  have "str_of_int d = ds" using d(1) by (simp add: str_of_int_def ds_def)
  then have r: "repr_pos x = (if - 4 < pt \<and> pt \<le> 16 then
           (if pt \<le> 0 then ''0.'' @ zeros (nat (- pt)) @ ds
            else if n \<le> pt then ds @ zeros (nat (pt - n)) @ ''.0''
            else take (nat pt) ds @ ''.'' @ drop (nat pt) ds)
         else take 1 ds @ (if n = 1 then [] else ''.'' @ drop 1 ds) @ ''e'' @ (if pt - 1 < 0 then ''-'' else ''+'') @ es)"
    by (simp only: repr_pos_def Let_def s z prod.case n_def pt_def es_def)
  have "0 < n" using dec by (auto simp: n_def decimal_def)
  then have "n = 1 \<longleftrightarrow> drop 1 ds = []" by (cases ds) (simp_all add: n_def)
  then have point: "(if n = 1 then [] else ''.'' @ drop 1 ds) = point_text (drop 1 ds)" by (simp add: point_text_def)
  have "numeral_of (repr_pos x) (of_int d * 10 powi k)"
    unfolding r point using numeral_small [OF dec] numeral_whole [OF dec] numeral_mixed [OF dec]
      numeral_exp [OF dec, of es k] exponent_digits [of "pt - 1"] by (simp add: n_def pt_def es_def)
  with d(2) show ?thesis by blast
qed

text \<open>A finite float is a number of 53 bits in range.\<close>

fun float_ok :: "pyfloat \<Rightarrow> bool" where
  "float_ok (Fin x) \<longleftrightarrow> fl x = x \<and> \<bar>x\<bar> < 2 ^ 1024"
| "float_ok _ \<longleftrightarrow> True"

lemma mk_float_ok: "fl q = x \<Longrightarrow> \<bar>x\<bar> < 2 ^ 1024 \<Longrightarrow> mk_float q = Fin x"
  by (auto simp: mk_float_def Let_def)

lemma repr_float_numeral:
  assumes "float_ok (Fin x)"
  shows "\<exists>neg ip fp ex. repr_float (Fin x) = sign_text neg @ ip @ point_text fp @ exp_text ex \<and> num_ok ip fp ex
    \<and> (fp \<noteq> [] \<or> ex \<noteq> None) \<and> mk_float (if neg then - num_rat ip fp ex else num_rat ip fp ex) = Fin x"
proof -
  have x: "fl x = x" "\<bar>x\<bar> < 2 ^ 1024" using assms by simp_all
  consider "x = 0" | "0 < x" | "x < 0" by linarith
  then show ?thesis
  proof cases
    case 1
    have "repr_float (Fin x) = sign_text False @ ''0'' @ point_text ''0'' @ exp_text None" "num_ok ''0'' ''0'' None"
      "mk_float (num_rat ''0'' ''0'' None) = Fin x"
      using 1 by (simp_all add: sign_text_def point_text_def num_ok_def is_digit_def code_def num_rat_def mk_float_def)
    then show ?thesis by (metis list.distinct(1))
  next
    case 2
    from repr_pos_numeral [OF 2 x(1)] obtain ip fp ex where n: "repr_pos x = ip @ point_text fp @ exp_text ex" "num_ok ip fp ex"
      "fp \<noteq> [] \<or> ex \<noteq> None" "fl (num_rat ip fp ex) = x" unfolding numeral_of_def by blast
    have "repr_float (Fin x) = sign_text False @ ip @ point_text fp @ exp_text ex" using 2 n(1) by (simp add: sign_text_def)
    with n mk_float_ok [OF n(4) x(2)] show ?thesis by metis
  next
    case 3
    then have "0 < - x" "fl (- x) = - x" using x(1) by (simp_all add: fl_uminus)
    from repr_pos_numeral [OF this] obtain ip fp ex where n: "repr_pos (- x) = ip @ point_text fp @ exp_text ex" "num_ok ip fp ex"
      "fp \<noteq> [] \<or> ex \<noteq> None" "fl (num_rat ip fp ex) = - x" unfolding numeral_of_def by blast
    have "repr_float (Fin x) = sign_text True @ ip @ point_text fp @ exp_text ex" using 3 n(1) by (simp add: sign_text_def)
    moreover have "mk_float (- num_rat ip fp ex) = Fin x" using n(4) x(2) by (intro mk_float_ok) (simp_all add: fl_uminus)
    ultimately show ?thesis using n by metis
  qed
qed

end
