(* ===== verification/JsonText.thy ===== *)
theory JsonText
  imports FloatText
begin

text \<open>
  \<open>json.loads\<close> undoes \<open>json.dumps\<close>: what the program writes as text (cached vectors, frames, outputs) it
  reads back as the same value, provided integers have at most 4300 digits, which is as many as
  Python reads, floats are floats, and dictionaries have no key twice.
\<close>

section \<open>String literals\<close>

lemma code_inj: "code c = code d \<longleftrightarrow> c = d"
  by (simp add: code_def)

lemma code_less [simp]: "code c < 256"
  by (simp add: code_def)

lemma hex_val_digit: "n < 16 \<Longrightarrow> hex_val (hex_digit n) = Some n"
proof -
  assume n: "n < 16"
  then have c: "code (hex_digit n) = (if n < 10 then 48 + n else 87 + n)"
    by (simp add: hex_digit_def code_def)
  show ?thesis using n by (auto simp: hex_val_def c)
qed

lemma hex_quad_hex4: "n < 65536 \<Longrightarrow> hex_quad (hex4 n @ t) = Some n"
proof -
  assume n: "n < 65536"
  have v: "hex_quad (hex4 n @ t) = Some (4096 * (n div 4096 mod 16) + 256 * (n div 256 mod 16)
      + 16 * (n div 16 mod 16) + n mod 16)"
    by (simp add: hex_quad_def hex4_def hex_val_digit)
  have "4096 * (n div 4096 mod 16) + 256 * (n div 256 mod 16) + 16 * (n div 16 mod 16) + n mod 16 = n"
  proof -
    have d: "n div 4096 mod 16 = n div 4096" using n by (intro mod_less) (simp add: less_mult_imp_div_less)
    have "n div 16 div 16 = n div 256" "n div 256 div 16 = n div 4096"
      by (simp_all flip: div_mult2_eq)
    then have "n = 16 * (n div 16) + n mod 16" "n div 16 = 16 * (n div 256) + n div 16 mod 16"
      "n div 256 = 16 * (n div 4096) + n div 256 mod 16"
      using mult_div_mod_eq [of 16 "n div 16"] mult_div_mod_eq [of 16 "n div 256"] by simp_all
    then show ?thesis unfolding d by linarith
  qed
  then show ?thesis unfolding v by (simp only:)
qed

lemma scan_u_hex4: "scan_u (hex4 (code c) @ t) = Some (c, t)"
proof -
  have "code c < 65536" using code_less [of c] by linarith
  then have "hex_quad (hex4 (code c) @ t) = Some (code c)" by (rule hex_quad_hex4)
  moreover have "code_point (code c) = c" by (simp add: code_point_def) (simp add: code_def)
  moreover have "\<not> 55296 \<le> code c" using code_less [of c] by linarith
  moreover have "drop 4 (hex4 (code c) @ t) = t" by (simp add: hex4_def)
  ultimately show ?thesis by (simp add: scan_u_def)
qed

lemma code_eqs:
  "code c = 34 \<longleftrightarrow> c = CHR 0x22" "code c = 92 \<longleftrightarrow> c = bs" "code c = 8 \<longleftrightarrow> c = CHR 0x08"
  "code c = 12 \<longleftrightarrow> c = CHR 0x0C" "code c = 10 \<longleftrightarrow> c = CHR 0x0A" "code c = 13 \<longleftrightarrow> c = CHR 0x0D"
  "code c = 9 \<longleftrightarrow> c = CHR 0x09"
  using code_inj [of c "CHR 0x22"] code_inj [of c bs] code_inj [of c "CHR 0x08"] code_inj [of c "CHR 0x0C"]
    code_inj [of c "CHR 0x0A"] code_inj [of c "CHR 0x0D"] code_inj [of c "CHR 0x09"]
  by (simp_all add: code_def bs_def)

lemma dump_escapes:
  "dump_char asc (CHR 0x22) = [bs, CHR 0x22]" "dump_char asc bs = [bs, bs]"
  "dump_char asc (CHR 0x08) = [bs, CHR ''b'']" "dump_char asc (CHR 0x0C) = [bs, CHR ''f'']"
  "dump_char asc (CHR 0x0A) = [bs, CHR ''n'']" "dump_char asc (CHR 0x0D) = [bs, CHR ''r'']"
  "dump_char asc (CHR 0x09) = [bs, CHR ''t'']"
  by (simp_all add: dump_char_def code_def bs_def)

lemma unescapes:
  "unescape (CHR 0x22) = Some (CHR 0x22)" "unescape bs = Some bs" "unescape (CHR ''b'') = Some (CHR 0x08)"
  "unescape (CHR ''f'') = Some (CHR 0x0C)" "unescape (CHR ''n'') = Some (CHR 0x0A)"
  "unescape (CHR ''r'') = Some (CHR 0x0D)" "unescape (CHR ''t'') = Some (CHR 0x09)"
  by (simp_all add: unescape_def bs_def)

declare scan_str.simps [simp del]

text \<open>Reading back one escaped character, and a whole string literal.\<close>

lemma scan_escape:
  "unescape e = Some d \<Longrightarrow> e \<noteq> CHR ''u'' \<Longrightarrow> scan_str b acc (bs # e # t) = scan_str b (d # acc) t"
  by (subst scan_str.simps(2)) (simp add: bs_def)

lemma scan_dump_char:
  assumes "t \<noteq> []"
  shows "scan_str b acc (dump_char asc c @ t) = scan_str b (c # acc) t"
proof -
  let ?n = "code c"
  consider (esc) "c \<in> {CHR 0x22, bs, CHR 0x08, CHR 0x0C, CHR 0x0A, CHR 0x0D, CHR 0x09}"
    | (u) "?n \<notin> {34, 92, 8, 12, 10, 13, 9}" "?n < 32 \<or> asc \<and> 127 \<le> ?n"
    | (raw) "?n \<notin> {34, 92, 8, 12, 10, 13, 9}" "\<not> (?n < 32 \<or> asc \<and> 127 \<le> ?n)"
    by (auto simp: code_eqs)
  then show ?thesis
  proof cases
    case esc
    then obtain e where "dump_char asc c = [bs, e]" "unescape e = Some c" "e \<noteq> CHR ''u''"
      using dump_escapes [of asc] unescapes by (elim insertE emptyE) (fastforce simp: bs_def)+
    then show ?thesis by (simp add: scan_escape)
  next
    case u
    then have d: "dump_char asc c = bs # CHR ''u'' # hex4 ?n" by (auto simp: dump_char_def Let_def)
    have l: "\<not> length (hex4 ?n @ t) \<le> 4" using assms by (cases t) (simp_all add: hex4_def)
    then have "scan_str b acc (bs # CHR ''u'' # (hex4 ?n @ t)) = scan_str b (c # acc) t"
      using scan_u_hex4 [of c t] by (subst scan_str.simps(2)) (simp add: bs_def)
    then show ?thesis by (simp add: d)
  next
    case raw
    then have "c \<noteq> CHR 0x22" "c \<noteq> bs" "\<not> ?n < 32" by (auto simp: bs_def code_def)
    moreover have "dump_char asc c = [c]" using raw by (auto simp: dump_char_def Let_def)
    ultimately show ?thesis by (simp add: scan_str.simps(2))
  qed
qed

lemma scan_dump_chars:
  "scan_str b acc (concat (map (dump_char asc) s) @ CHR 0x22 # r) = Inr (rev acc @ s, r)"
  by (induction s arbitrary: acc) (simp_all add: scan_dump_char scan_str.simps(2))

lemma scan_dump_str: "scan_str b [] (tl (dump_str asc s) @ r) = Inr (s, r)"
  using scan_dump_chars [of b "[]" asc s r] by (simp add: dump_str_def)

lemma dump_str_shape: "dump_str asc s = CHR 0x22 # tl (dump_str asc s)"
  by (simp add: dump_str_def)

lemma scan_dump_str_tl: "scan_str b [] (tl (dump_str asc s @ r)) = Inr (s, r)"
  using scan_dump_str [of b asc s r] by (subst dump_str_shape) simp

section \<open>Values that can be stored\<close>

fun storable :: "json \<Rightarrow> bool" where
  "storable (JInt i) \<longleftrightarrow> length (str_of_digits \<bar>i\<bar>) \<le> 4300"
| "storable (JFloat x) \<longleftrightarrow> float_ok x"
| "storable (JArr xs) \<longleftrightarrow> list_all storable xs"
| "storable (JObj d) \<longleftrightarrow> dict_ok d \<and> list_all (\<lambda>(k, v). storable v) d"
| "storable _ \<longleftrightarrow> True"

text \<open>Options under which the order of keys is kept and separators are a comma and a colon before blanks.\<close>

definition opts_ok :: "dump_opts \<Rightarrow> bool" where
  "opts_ok opt \<longleftrightarrow> \<not> sort_keys opt \<and> (\<exists>ws. item_sep opt = CHR '','' # ws \<and> list_all is_ws ws)
     \<and> (\<exists>ws. key_sep opt = CHR '':'' # ws \<and> list_all is_ws ws)"

lemma default_opts_ok [simp]: "opts_ok default_opts"
  by (simp add: opts_ok_def default_opts_def is_ws_def code_def)

text \<open>What may follow a value, and what a value may begin with.\<close>

definition after_value :: "string \<Rightarrow> bool" where
  "after_value r \<longleftrightarrow> r = [] \<or> hd r \<in> {CHR '','', CHR '']'', CHR ''}''}"

lemma after_value_simps [simp]:
  "after_value []" "after_value (CHR '','' # r)" "after_value (CHR '']'' # r)" "after_value (CHR ''}'' # r)"
  by (simp_all add: after_value_def)

lemma after_value_ends: "after_value r \<Longrightarrow> ends_number r"
  by (auto simp: after_value_def ends_number_def is_digit_def code_def)

definition begins_value :: "char \<Rightarrow> bool" where
  "begins_value c \<longleftrightarrow> \<not> is_ws c \<and> c \<noteq> CHR '']'' \<and> c \<noteq> CHR ''}''"

lemma skip_ws_simps [simp]: "skip_ws [] = []" "\<not> is_ws c \<Longrightarrow> skip_ws (c # s) = c # s"
  by (simp_all add: skip_ws_def)

lemma skip_ws_blanks: "list_all is_ws ws \<Longrightarrow> skip_ws (ws @ s) = skip_ws s"
  by (simp add: skip_ws_def list_all_iff dropWhile_append2)

lemma marks_not_ws [simp]:
  "\<not> is_ws (CHR '','')" "\<not> is_ws (CHR '']'')" "\<not> is_ws (CHR ''}'')" "\<not> is_ws (CHR '':'')" "\<not> is_ws (CHR 0x22)"
  "\<not> is_ws (CHR ''['')" "\<not> is_ws (CHR ''{'')"
  by (simp_all add: is_ws_def code_def)

lemma digit_begins: "is_digit c \<Longrightarrow> begins_value c \<and> c \<notin> {CHR 0x22, CHR ''{'', CHR ''['', CHR ''-''}"
  by (auto simp: begins_value_def is_digit_def is_ws_def code_def)

section \<open>Numbers\<close>

lemma no_literal:
  assumes "is_digit c"
  shows "scan_literal (sign_text neg @ c # t) = None"
proof -
  have "c \<noteq> CHR ''n''" "c \<noteq> CHR ''t''" "c \<noteq> CHR ''f''" "c \<noteq> CHR ''N''" "c \<noteq> CHR ''I''" "c \<noteq> CHR ''-''"
    using assms by (auto simp: is_digit_def code_def)
  then show ?thesis by (cases neg) (simp_all add: scan_literal_def startswith_def sign_text_def)
qed

text \<open>A numeral is scanned as a value: it is neither a string, a container nor a literal.\<close>

lemma scan_value_numeral:
  assumes "num_ok ip fp ex" "scan_number (sign_text neg @ ip @ t) = Some (Inr (v, r))"
  shows "scan_value (Suc f) (sign_text neg @ ip @ t) = Inr (v, r)
    \<and> (\<exists>c s. sign_text neg @ ip @ t = c # s \<and> begins_value c)"
proof -
  from assms(1) obtain c cs where ip: "ip = c # cs" "is_digit c" by (cases ip) (auto simp: num_ok_def)
  from digit_begins [OF ip(2)] no_literal [OF ip(2), of neg "cs @ t"] ip(1) assms(2) show ?thesis
    by (cases neg) (auto simp: sign_text_def begins_value_def is_ws_def code_def)
qed

lemma str_of_int_numeral: "str_of_int i = sign_text (i < 0) @ str_of_digits \<bar>i\<bar>"
  by (simp add: str_of_int_def sign_text_def)

lemma num_ok_int: "num_ok (str_of_digits \<bar>i\<bar>) [] None"
proof (cases "i = 0")
  case True
  then show ?thesis by (simp add: num_ok_def str_of_digits.simps digit_char_def is_digit_def code_def)
next
  case False
  then show ?thesis using decimal_str [of "\<bar>i\<bar>"] by (simp add: num_ok_def decimal_def)
qed

lemma scan_int_value:
  assumes "storable (JInt i)" "after_value r"
  shows "scan_value (Suc f) (str_of_int i @ r) = Inr (JInt i, r) \<and> (\<exists>c s. str_of_int i = c # s \<and> begins_value c)"
proof -
  have d: "int_of_digits (str_of_digits \<bar>i\<bar>) = \<bar>i\<bar>" using str_of_digits_value [of "\<bar>i\<bar>"] by simp
  have v: "(if i < 0 then - int_of_digits (str_of_digits \<bar>i\<bar>) else int_of_digits (str_of_digits \<bar>i\<bar>)) = i"
    unfolding d by simp
  have n: "scan_number (sign_text (i < 0) @ str_of_digits \<bar>i\<bar> @ s) = Some (Inr (JInt i, s))" if "ends_number s" for s
    using scan_int_text [OF num_ok_int [of i] _ that, of "i < 0"] assms(1) v by simp
  from scan_value_numeral [OF num_ok_int n [OF after_value_ends [OF assms(2)]]]
    scan_value_numeral [OF num_ok_int n [of "[]"]] show ?thesis
    by (simp add: str_of_int_numeral ends_number_def)
qed

lemma scan_float_value:
  assumes "float_ok x" "after_value r"
  shows "scan_value (Suc f) (dump_float x @ r) = Inr (JFloat x, r) \<and> (\<exists>c s. dump_float x = c # s \<and> begins_value c)"
proof (cases x)
  case (Fin q)
  from repr_float_numeral [OF assms(1) [unfolded Fin]] obtain neg ip fp ex where
    t: "repr_float (Fin q) = sign_text neg @ ip @ point_text fp @ exp_text ex" and ok: "num_ok ip fp ex" "fp \<noteq> [] \<or> ex \<noteq> None"
    and v: "mk_float (if neg then - num_rat ip fp ex else num_rat ip fp ex) = Fin q" by blast
  have n: "scan_number (sign_text neg @ ip @ point_text fp @ exp_text ex @ s) = Some (Inr (JFloat (Fin q), s))" if "ends_number s" for s
    using scan_float_text [OF ok that, of neg] v by simp
  from scan_value_numeral [OF ok(1) n [OF after_value_ends [OF assms(2)]]]
    scan_value_numeral [OF ok(1) n [of "[]"]] Fin t show ?thesis
    by (simp add: ends_number_def)
qed (simp_all add: scan_literal_def startswith_def begins_value_def is_ws_def code_def)

section \<open>Containers\<close>

lemma length_join_Cons: "length (join sep (x # xs)) = length x + (if xs = [] then 0 else length sep + length (join sep xs))"
  by (cases xs) simp_all

lemma join_step: "join sep (x # xs) @ r = x @ (if xs = [] then r else sep @ join sep xs @ r)"
  by (cases xs) simp_all

text \<open>What is known of the parts of a container: each is scanned back, and begins as a value does.\<close>

definition reads_back :: "dump_opts \<Rightarrow> json \<Rightarrow> bool" where
  "reads_back opt x \<longleftrightarrow> (\<exists>c s. dumps opt x = c # s \<and> begins_value c)
     \<and> (\<forall>f r. after_value r \<longrightarrow> 2 * length (dumps opt x) + 1 \<le> f \<longrightarrow> scan_value f (dumps opt x @ r) = Inr (x, r))"

lemma begins_skip:
  assumes "reads_back opt x" "list_all is_ws ws"
  shows "skip_ws (ws @ dumps opt x @ t) = dumps opt x @ t"
  using assms by (auto simp: reads_back_def begins_value_def skip_ws_blanks)

lemma scan_elems_text:
  assumes "item_sep opt = CHR '','' # ws" "list_all is_ws ws" "\<And>x. x \<in> set xs \<Longrightarrow> reads_back opt x" "xs \<noteq> []"
    "2 * length (join (item_sep opt) (map (dumps opt) xs)) + 2 \<le> f"
  shows "scan_elems f acc (join (item_sep opt) (map (dumps opt) xs) @ CHR '']'' # r) = Inr (JArr (acc @ xs), r)"
  using assms(3-5)
proof (induction xs arbitrary: f acc)
  case (Cons x xs)
  obtain g where f: "f = Suc g" using Cons.prems(3) by (cases f) auto
  let ?rest = "if xs = [] then CHR '']'' # r else item_sep opt @ join (item_sep opt) (map (dumps opt) xs) @ CHR '']'' # r"
  have x: "reads_back opt x" using Cons.prems(1) by simp
  have "after_value ?rest" by (simp add: assms(1))
  moreover have "2 * length (dumps opt x) + 1 \<le> g" using Cons.prems(3) by (simp add: f length_join_Cons)
  ultimately have v: "scan_value g (dumps opt x @ ?rest) = Inr (x, ?rest)" using x by (simp add: reads_back_def)
  have shape: "join (item_sep opt) (map (dumps opt) (x # xs)) @ CHR '']'' # r = dumps opt x @ ?rest"
    using join_step [of "item_sep opt" "dumps opt x" "map (dumps opt) xs"] by simp
  show ?case
  proof (cases xs)
    case Nil
    with v shape show ?thesis by (simp add: f Let_def)
  next
    case (Cons y ys)
    let ?more = "join (item_sep opt) (map (dumps opt) xs) @ CHR '']'' # r"
    have y: "reads_back opt y" using Cons.prems(1) Cons by simp
    have "skip_ws (ws @ ?more) = ?more"
      using begins_skip [OF y assms(2)] join_step [of "item_sep opt" "dumps opt y" "map (dumps opt) ys"] Cons by simp
    moreover have "scan_elems g (acc @ [x]) ?more = Inr (JArr ((acc @ [x]) @ xs), r)"
      using Cons.prems Cons by (intro Cons.IH) (auto simp: f length_join_Cons assms(1))
    moreover have "?rest = CHR '','' # ws @ ?more" using Cons by (simp add: assms(1))
    ultimately show ?thesis using v unfolding shape f by (simp add: Let_def)
  qed
qed simp

lemma dset_new: "k \<notin> set (dkeys d) \<Longrightarrow> dset k v d = d @ [(k, v)]"
  by (induction k v d rule: dset.induct) (auto simp: dkeys_def)

definition member_text :: "dump_opts \<Rightarrow> string \<times> json \<Rightarrow> string" where
  "member_text opt m = dump_str (ensure_ascii opt) (fst m) @ key_sep opt @ dumps opt (snd m)"

lemma scan_members_text:
  assumes "item_sep opt = CHR '','' # ws" "list_all is_ws ws" "key_sep opt = CHR '':'' # ks" "list_all is_ws ks"
    "\<And>m. m \<in> set d \<Longrightarrow> reads_back opt (snd m)" "d \<noteq> []" "distinct (dkeys acc @ dkeys d)"
    "2 * length (join (item_sep opt) (map (member_text opt) d)) + 2 \<le> f"
  shows "scan_members f acc (join (item_sep opt) (map (member_text opt) d) @ CHR ''}'' # r) = Inr (JObj (acc @ d), r)"
  using assms(5-8)
proof (induction d arbitrary: f acc)
  case (Cons m d)
  obtain g where f: "f = Suc g" using Cons.prems(4) by (cases f) auto
  obtain k v where m: "m = (k, v)" by fastforce
  let ?rest = "if d = [] then CHR ''}'' # r else item_sep opt @ join (item_sep opt) (map (member_text opt) d) @ CHR ''}'' # r"
  let ?val = "dumps opt v @ ?rest" and ?key = "dump_str (ensure_ascii opt) k"
  have v: "reads_back opt v" using Cons.prems(1) m by force
  have "after_value ?rest" by (simp add: assms(1))
  moreover have "2 * length (dumps opt v) + 1 \<le> g"
    using Cons.prems(4) by (simp add: f length_join_Cons member_text_def m assms(3))
  ultimately have val: "scan_value g ?val = Inr (v, ?rest)" using v by (simp add: reads_back_def)
  have shape: "join (item_sep opt) (map (member_text opt) (m # d)) @ CHR ''}'' # r = ?key @ CHR '':'' # ks @ ?val"
    using join_step [of "item_sep opt" "member_text opt m" "map (member_text opt) d"] by (simp add: member_text_def m assms(3))
  have key: "scan_str s [] (tl (?key @ t)) = Inr (k, t)" for s t
    by (rule scan_dump_str_tl)
  have quote: "?key @ t \<noteq> []" "hd (?key @ t) = CHR 0x22" for t by (simp_all add: dump_str_def)
  have skip: "skip_ws (ks @ ?val) = ?val" by (rule begins_skip [OF v assms(4)])
  have new: "dset k v acc = acc @ [m]" using Cons.prems(3) m by (intro dset_new [of k acc v, folded m]) (auto simp: dkeys_def)
  show ?case
  proof (cases d)
    case Nil
    with val skip new show ?thesis unfolding shape f by (simp add: Let_def key quote)
  next
    case (Cons m' d')
    let ?more = "join (item_sep opt) (map (member_text opt) d) @ CHR ''}'' # r"
    have "skip_ws (ws @ ?more) = ?more"
      using join_step [of "item_sep opt" "member_text opt m'" "map (member_text opt) d'"] Cons
      by (simp add: skip_ws_blanks assms(2) member_text_def dump_str_def)
    moreover have "scan_members g (acc @ [m]) ?more = Inr (JObj ((acc @ [m]) @ d), r)"
      using Cons.prems Cons by (intro Cons.IH) (auto simp: f length_join_Cons assms(1) dkeys_def)
    moreover have "?rest = CHR '','' # ws @ ?more" using Cons by (simp add: assms(1))
    ultimately show ?thesis using val skip new unfolding shape f by (simp add: Let_def key quote)
  qed
qed simp

lemma dumps_object:
  "\<not> sort_keys opt \<Longrightarrow> dumps opt (JObj d) = CHR ''{'' # join (item_sep opt) (map (member_text opt) d) @ ''}''"
  by (simp add: Let_def member_text_def [abs_def] comp_def case_prod_unfold)

section \<open>Values\<close>

lemma reads_back_array:
  assumes "opts_ok opt" and xs: "\<And>x. x \<in> set xs \<Longrightarrow> reads_back opt x"
  shows "reads_back opt (JArr xs)"
proof -
  from assms(1) obtain ws where ws: "item_sep opt = CHR '','' # ws" "list_all is_ws ws" by (auto simp: opts_ok_def)
  have "scan_value f (dumps opt (JArr xs) @ r) = Inr (JArr xs, r)" if f: "2 * length (dumps opt (JArr xs)) + 1 \<le> f" for f r
  proof -
    obtain g where g: "f = Suc g" using f by (cases f) auto
    show ?thesis
    proof (cases xs)
      case Nil
      then show ?thesis by (simp add: g)
    next
      case (Cons y ys)
      let ?text = "join (item_sep opt) (map (dumps opt) xs) @ CHR '']'' # r"
      have y: "reads_back opt y" using xs Cons by simp
      have t: "?text = dumps opt y @ (if ys = [] then CHR '']'' # r else item_sep opt @ join (item_sep opt) (map (dumps opt) ys) @ CHR '']'' # r)"
        using join_step [of "item_sep opt" "dumps opt y" "map (dumps opt) ys"] Cons by simp
      then have "skip_ws ?text = ?text" using begins_skip [OF y, of "[]"] by simp
      moreover have "hd ?text \<noteq> CHR '']''" using y unfolding t by (auto simp: reads_back_def begins_value_def)
      moreover have "scan_elems g [] ?text = Inr (JArr ([] @ xs), r)"
        using f Cons by (intro scan_elems_text [OF ws xs]) (auto simp: g)
      ultimately show ?thesis by (simp add: g Let_def)
    qed
  qed
  then show ?thesis by (simp add: reads_back_def begins_value_def)
qed

lemma reads_back_object:
  assumes "opts_ok opt" and d: "\<And>m. m \<in> set d \<Longrightarrow> reads_back opt (snd m)" "distinct (dkeys d)"
  shows "reads_back opt (JObj d)"
proof -
  from assms(1) obtain ws ks where ws: "item_sep opt = CHR '','' # ws" "list_all is_ws ws" "key_sep opt = CHR '':'' # ks" "list_all is_ws ks"
    and o: "\<not> sort_keys opt" by (auto simp: opts_ok_def)
  note dump = dumps_object [OF o, of d]
  have "scan_value f (dumps opt (JObj d) @ r) = Inr (JObj d, r)" if f: "2 * length (dumps opt (JObj d)) + 1 \<le> f" for f r
  proof -
    obtain g where g: "f = Suc g" using f by (cases f) auto
    show ?thesis
    proof (cases d)
      case Nil
      then show ?thesis by (simp add: g)
    next
      case (Cons m d')
      let ?text = "join (item_sep opt) (map (member_text opt) d) @ CHR ''}'' # r"
      obtain t where t: "?text = CHR 0x22 # t"
        using join_step [of "item_sep opt" "member_text opt m" "map (member_text opt) d'"] Cons
        by (simp add: member_text_def dump_str_def)
      then have "skip_ws ?text = ?text" "hd ?text \<noteq> CHR ''}''" by simp_all
      moreover have "scan_members g [] ?text = Inr (JObj ([] @ d), r)"
        using f [unfolded dump] Cons d(2) by (intro scan_members_text [OF ws d(1)]) (auto simp: g dkeys_def)
      ultimately show ?thesis unfolding dump g by (simp add: Let_def)
    qed
  qed
  then show ?thesis unfolding reads_back_def dump by (auto simp: begins_value_def)
qed

lemma storable_reads_back:
  assumes "opts_ok opt"
  shows "storable j \<Longrightarrow> reads_back opt j"
proof (induction j)
  case (JInt i)
  have "scan_value f (str_of_int i @ r) = Inr (JInt i, r)" if "after_value r" "0 < f" for f r
    using scan_int_value [OF JInt.prems that(1), of "f - 1"] that(2) by (simp del: scan_value.simps)
  moreover have "\<exists>c s. str_of_int i = c # s \<and> begins_value c" using scan_int_value [OF JInt.prems after_value_simps(1)] by blast
  ultimately show ?case by (simp add: reads_back_def)
next
  case (JFloat x)
  then have x: "float_ok x" by simp
  have "scan_value f (dump_float x @ r) = Inr (JFloat x, r)" if "after_value r" "0 < f" for f r
    using scan_float_value [OF x that(1), of "f - 1"] that(2) by (simp del: scan_value.simps)
  moreover have "\<exists>c s. dump_float x = c # s \<and> begins_value c" using scan_float_value [OF x after_value_simps(1)] by blast
  ultimately show ?case by (simp add: reads_back_def)
next
  case JNull
  have "scan_value f (''null'' @ r) = Inr (JNull, r)" if "0 < f" for f r
    using that by (cases f) (simp_all add: scan_literal_def startswith_def)
  then show ?case by (simp add: reads_back_def begins_value_def is_ws_def code_def)
next
  case (JBool b)
  have "scan_value f (''true'' @ r) = Inr (JBool True, r)" "scan_value f (''false'' @ r) = Inr (JBool False, r)" if "0 < f" for f r
    using that by (cases f; simp add: scan_literal_def startswith_def)+
  then show ?case by (cases b) (simp_all add: reads_back_def begins_value_def is_ws_def code_def)
next
  case (JStr s)
  have "scan_value f (dump_str (ensure_ascii opt) s @ r) = Inr (JStr s, r)" if "0 < f" for f r
  proof -
    obtain g where "f = Suc g" using \<open>0 < f\<close> by (cases f) auto
    with scan_dump_str_tl [of _ "ensure_ascii opt" s r] show ?thesis
      by (simp add: dump_str_def)
  qed
  then show ?case by (simp add: reads_back_def begins_value_def dump_str_def)
next
  case (JArr xs)
  then show ?case using assms by (intro reads_back_array) (simp_all add: list_all_iff)
next
  case (JObj d)
  then have "\<And>m. m \<in> set d \<Longrightarrow> reads_back opt (snd m)" "distinct (dkeys d)"
    by (fastforce simp: list_all_iff dict_ok_def)+
  then show ?case using assms by (intro reads_back_object)
qed

theorem loads_dumps:
  assumes "opts_ok opt" "storable j"
  shows "loads (dumps opt j) = Inr j"
proof -
  from storable_reads_back [OF assms] have j: "reads_back opt j" .
  have "skip_ws (dumps opt j) = dumps opt j" using begins_skip [OF j, of "[]" "[]"] by simp
  moreover have "scan_value (2 * length (dumps opt j) + 1) (dumps opt j @ []) = Inr (j, [])"
    using j unfolding reads_back_def by (metis after_value_simps(1) order_refl)
  ultimately show ?thesis by (simp add: loads_def loads_scan_def)
qed

end
