(* ===== verification/LoopDetector.thy ===== *)
theory LoopDetector
  imports BaseAgent TaskDag JsonText
begin

text \<open>
  The loop detector (\<open>backend/core/loop_detector.py\<close>): the hash of a plan and the check
  against the Redis set of the session. SHA-256 is a parameter; what depends on it not
  colliding says so.
\<close>

definition loop_ttl :: int where "loop_ttl = 3600"

definition payload_opts :: dump_opts where
  "payload_opts = \<lparr>ensure_ascii = True, sort_keys = True, item_sep = '','', key_sep = '':''\<rparr>"

definition normalised_task :: "task_node \<Rightarrow> json" where
  "normalised_task t = JObj [(''id'', JStr (task_id t)), (''description'', JStr (description t)),
     (''depends_on'', JArr (map JStr (sort (depends_on t)))), (''assigned_model'', JStr (assigned_model t))]"

text \<open>
  \<open>sorted\<close> of dictionaries: Python has no order on them, so any list with two elements
  raises. The comma after the call makes the value a tuple of one list.
\<close>

definition py_sorted_dicts :: "json list \<Rightarrow> json list result" where
  "py_sorted_dicts ds = (if length ds \<le> 1 then Inr ds
     else Inl (Exn TypeError (py_repr ''<'' @ '' not supported between instances of ''
                @ py_repr ''dict'' @ '' and '' @ py_repr ''dict'')))"

definition plan_payload :: "task_node list \<Rightarrow> string result" where
  "plan_payload plan =
     rbind (py_sorted_dicts (map normalised_task plan)) (\<lambda>ds.
     Inr (dumps payload_opts (JArr [JArr ds])))"

definition plan_hash :: "env \<Rightarrow> task_node list \<Rightarrow> string result" where
  "plan_hash env plan = rbind (plan_payload plan) (\<lambda>p. Inr (e_sha256 env p))"

definition loop_key :: "string \<Rightarrow> string" where
  "loop_key sid = ''nexus:loop_detector:'' @ sid"

text \<open>The hash is computed outside the \<open>try\<close>; a Redis failure counts as no loop.\<close>

definition loop_check :: "env \<Rightarrow> string \<Rightarrow> task_node list \<Rightarrow> bool act" where
  "loop_check env sid plan =
     abind (alift (plan_hash env plan)) (\<lambda>h.
     acatch
       (abind (redis_sadd env (loop_key sid) h) (\<lambda>added.
        abind (redis_expire env (loop_key sid) loop_ttl) (\<lambda>_.
        aret (added = 0))))
       (\<lambda>e. aret False))"

section \<open>The payload determines the plan\<close>

declare scan_str.simps [simp del]

lemma dump_str_decode:
  assumes "dump_str asc s @ r = dump_str asc s' @ r'"
  shows "s = s' \<and> r = r'"
proof -
  have "tl (dump_str asc s) @ r = tl (dump_str asc s') @ r'"
    using assms by (simp add: dump_str_def)
  then have "(Inr (s, r) :: string scan) = Inr (s', r')"
    using scan_dump_str [of "[]" asc s r] scan_dump_str [of "[]" asc s' r'] by (simp only:)
  then show ?thesis by simp
qed

lemma dump_strs_decode:
  "join '','' (map (dump_str asc) ss) @ CHR '']'' # r = join '','' (map (dump_str asc) ts) @ CHR '']'' # r'
     \<Longrightarrow> ss = ts \<and> r = r'"
proof (induction ss arbitrary: ts)
  case Nil
  then show ?case
    by (cases ts rule: remdups_adj.cases) (simp_all add: dump_str_def)
next
  case (Cons s ss)
  show ?case
  proof (cases ts)
    case Nil
    with Cons.prems show ?thesis
      by (cases ss) (simp_all add: dump_str_def)
  next
    case (Cons t us)
    have split: "join '','' (map (dump_str asc) (x # xs)) @ CHR '']'' # q =
        dump_str asc x @ (if xs = [] then CHR '']'' # q else CHR '','' # join '','' (map (dump_str asc) xs) @ CHR '']'' # q)"
      for x xs q by (cases xs) simp_all
    from Cons.prems [unfolded \<open>ts = t # us\<close> split] dump_str_decode
    have "s = t" and e: "(if ss = [] then CHR '']'' # r else CHR '','' # join '','' (map (dump_str asc) ss) @ CHR '']'' # r)
       = (if us = [] then CHR '']'' # r' else CHR '','' # join '','' (map (dump_str asc) us) @ CHR '']'' # r')"
      by blast+
    from e Cons.IH [of us] have "ss = us \<and> r = r'" by (auto split: if_splits)
    with \<open>s = t\<close> Cons show ?thesis by simp
  qed
qed

text \<open>What a task contributes to the hash.\<close>

definition task_shape :: "task_node \<Rightarrow> string \<times> string \<times> string list \<times> string" where
  "task_shape t = (task_id t, description t, sort (depends_on t), assigned_model t)"

lemma payload_single:
  "plan_payload [t] = Inr (''[[{'' @ dump_str True ''assigned_model'' @ '':'' @ dump_str True (assigned_model t)
     @ '','' @ dump_str True ''depends_on'' @ '':['' @ join '','' (map (dump_str True) (sort (depends_on t))) @ '']''
     @ '','' @ dump_str True ''description'' @ '':'' @ dump_str True (description t)
     @ '','' @ dump_str True ''id'' @ '':'' @ dump_str True (task_id t) @ ''}]]'')"
  by (simp add: plan_payload_def py_sorted_dicts_def normalised_task_def payload_opts_def comp_def)

lemma payload_shape:
  "plan_payload [t] = plan_payload [u] \<longleftrightarrow> task_shape t = task_shape u"
proof
  assume "plan_payload [t] = plan_payload [u]"
  then have e: "dump_str True (assigned_model t) @ '','' @ dump_str True ''depends_on'' @ '':[''
        @ join '','' (map (dump_str True) (sort (depends_on t))) @ CHR '']'' # '','' @ dump_str True ''description'' @ '':''
        @ dump_str True (description t) @ '','' @ dump_str True ''id'' @ '':'' @ dump_str True (task_id t) @ ''}]]''
      = dump_str True (assigned_model u) @ '','' @ dump_str True ''depends_on'' @ '':[''
        @ join '','' (map (dump_str True) (sort (depends_on u))) @ CHR '']'' # '','' @ dump_str True ''description'' @ '':''
        @ dump_str True (description u) @ '','' @ dump_str True ''id'' @ '':'' @ dump_str True (task_id u) @ ''}]]''"
    unfolding payload_single by simp
  from dump_str_decode [OF this] have m: "assigned_model t = assigned_model u"
    and "join '','' (map (dump_str True) (sort (depends_on t))) @ CHR '']'' # '','' @ dump_str True ''description'' @ '':''
        @ dump_str True (description t) @ '','' @ dump_str True ''id'' @ '':'' @ dump_str True (task_id t) @ ''}]]''
      = join '','' (map (dump_str True) (sort (depends_on u))) @ CHR '']'' # '','' @ dump_str True ''description'' @ '':''
        @ dump_str True (description u) @ '','' @ dump_str True ''id'' @ '':'' @ dump_str True (task_id u) @ ''}]]''"
    by simp_all
  from dump_strs_decode [OF this(2)] have d: "sort (depends_on t) = sort (depends_on u)"
    and "dump_str True (description t) @ '','' @ dump_str True ''id'' @ '':'' @ dump_str True (task_id t) @ ''}]]''
      = dump_str True (description u) @ '','' @ dump_str True ''id'' @ '':'' @ dump_str True (task_id u) @ ''}]]''"
    by simp_all
  from dump_str_decode [OF this(2)] have i: "description t = description u"
    and "dump_str True (task_id t) @ ''}]]'' = dump_str True (task_id u) @ ''}]]''" by simp_all
  from dump_str_decode [OF this(2)] m d i show "task_shape t = task_shape u" by (simp add: task_shape_def)
next
  assume "task_shape t = task_shape u"
  then show "plan_payload [t] = plan_payload [u]" by (simp add: payload_single task_shape_def)
qed

section \<open>The check\<close>

lemma loop_check_no_order:
  "2 \<le> length plan \<Longrightarrow> \<exists>m. loop_check env sid plan w = (Inl (Exn TypeError m), w)"
  by (simp add: loop_check_def plan_hash_def plan_payload_def py_sorted_dicts_def abind_def)

lemma plan_payload_short: "length plan \<le> 1 \<Longrightarrow> \<exists>p. plan_payload plan = Inr p"
  by (simp add: plan_payload_def py_sorted_dicts_def)

text \<open>The first check of a session, and a check whose set is known.\<close>

lemma loop_check_first:
  assumes "plan_hash env plan = Inr h" "w_redis w (loop_key sid) = None"
    and "e_redis_error env (w_tick w) = None" "e_redis_error env (Suc (w_tick w)) = None"
  shows "\<exists>w'. loop_check env sid plan w = (Inr False, w') \<and> w_tick w' = Suc (Suc (w_tick w))
    \<and> w_redis w' (loop_key sid) = Some (RSet [h], Some (e_time env (Suc (w_tick w)) + loop_ttl))"
  using assms
  by (simp add: loop_check_def abind_def acatch_def redis_sadd_def redis_expire_def redis_cmd_def
      db_sadd_def db_expire_def tick_def now_def)

lemma loop_check_again:
  assumes "plan_hash env plan = Inr h" "w_redis w (loop_key sid) = Some (RSet hs, Some x)"
    and "e_redis_error env (w_tick w) = None" "e_redis_error env (Suc (w_tick w)) = None"
    and "e_time env (w_tick w) < x"
  shows "fst (loop_check env sid plan w) = Inr (h \<in> set hs)"
  using assms
  by (simp add: loop_check_def abind_def acatch_def redis_sadd_def redis_expire_def redis_cmd_def
      db_sadd_def db_expire_def tick_def now_def)

lemma cost_loop_check [simp]: "llm_cost (loop_check env sid plan) 0"
proof -
  have "llm_cost (acatch (abind (redis_sadd env (loop_key sid) h) (\<lambda>added.
        abind (redis_expire env (loop_key sid) loop_ttl) (\<lambda>_. aret (added = 0)))) (\<lambda>e. aret False)) ((0 + (0 + 0)) + 0)"
    for h unfolding redis_sadd_def redis_expire_def
    by (intro cost_acatch cost_abind cost_redis cost_aret)
  then have "llm_cost (loop_check env sid plan) (0 + ((0 + (0 + 0)) + 0))"
    unfolding loop_check_def by (intro cost_abind cost_aret)
  then show ?thesis by simp
qed

lemma keeps_loop_check: "act_keeps world_le (loop_check env sid plan)"
  unfolding loop_check_def redis_sadd_def redis_expire_def
  by (intro grow.keeps_abind grow.keeps_acatch grow.keeps_alift grow.keeps_aret keeps_redis)

section \<open>Properties\<close>

text \<open>Within a session whose Redis commands succeed, the second single-task plan is reported as
  a loop exactly when it repeats the first: same id, description and model and the same
  dependencies in any order, as long as the hash tells the two payloads apart. The first
  plan is never reported.\<close>

theorem loop_detected_on_repeat:
  assumes fresh: "w_redis w (loop_key sid) = None"
    and up: "\<forall>i < 4. e_redis_error env (w_tick w + i) = None"
    and ttl: "e_time env (w_tick w + 2) < e_time env (w_tick w + 1) + 3600"
    and hash: "\<forall>p q. plan_payload [t] = Inr p \<and> plan_payload [u] = Inr q \<and> e_sha256 env p = e_sha256 env q \<longrightarrow> p = q"
    and run: "loop_check env sid [t] w = (b, w1)" "loop_check env sid [u] w1 = (b', w2)"
  shows "b = Inr False \<and> b' = Inr (task_shape t = task_shape u)"
proof -
  from plan_payload_short [of "[t]"] plan_payload_short [of "[u]"] obtain p q
    where pq: "plan_payload [t] = Inr p" "plan_payload [u] = Inr q" by auto
  let ?h = "e_sha256 env"
  have h: "plan_hash env [t] = Inr (?h p)" "plan_hash env [u] = Inr (?h q)"
    by (simp_all add: plan_hash_def pq)
  have up': "e_redis_error env (w_tick w) = None" "e_redis_error env (Suc (w_tick w)) = None"
    "e_redis_error env (Suc (Suc (w_tick w))) = None" "e_redis_error env (Suc (Suc (Suc (w_tick w)))) = None"
    using up [rule_format, of 0] up [rule_format, of 1] up [rule_format, of 2] up [rule_format, of 3]
    by (simp_all add: numeral_eq_Suc)
  from loop_check_first [OF h(1) fresh up'(1,2)] run(1) have b: "b = Inr False" and w1: "w_tick w1 = Suc (Suc (w_tick w))"
    "w_redis w1 (loop_key sid) = Some (RSet [?h p], Some (e_time env (Suc (w_tick w)) + loop_ttl))" by auto
  have "e_time env (w_tick w1) < e_time env (Suc (w_tick w)) + loop_ttl"
    using ttl w1(1) by (simp add: loop_ttl_def numeral_eq_Suc)
  from loop_check_again [OF h(2) w1(2) _ _ this] up'(3,4) w1(1) run(2)
  have "b' = Inr (?h q = ?h p)" by simp
  moreover have "(?h q = ?h p) = (task_shape t = task_shape u)"
    using hash pq payload_shape [of t u] by auto
  ultimately show ?thesis using b by simp
qed

theorem loop_detected_on_repeat_witness:
  "fst (loop_check (calm_env (\<lambda>n p. Inr JNull)) ''s'' [node_of ''a'' [''x'', ''y'']]
      (snd (loop_check (calm_env (\<lambda>n p. Inr JNull)) ''s'' [node_of ''a'' [''y'', ''x'']] fresh_world))) = Inr True"
proof -
  let ?e = "calm_env (\<lambda>n p. Inr JNull)" and ?t = "node_of ''a'' [''y'', ''x'']" and ?u = "node_of ''a'' [''x'', ''y'']"
  obtain b w1 where 1: "loop_check ?e ''s'' [?t] fresh_world = (b, w1)" by (cases "loop_check ?e ''s'' [?t] fresh_world")
  obtain b' w2 where 2: "loop_check ?e ''s'' [?u] w1 = (b', w2)" by (cases "loop_check ?e ''s'' [?u] w1")
  have "b = Inr False \<and> b' = Inr (task_shape ?t = task_shape ?u)"
    by (rule loop_detected_on_repeat [OF _ _ _ _ 1 2]) (simp_all add: fresh_world_def calm_env_def)
  moreover have "task_shape ?t = task_shape ?u" by code_simp
  ultimately show ?thesis using 1 2 by simp
qed

text \<open>C31: on a plan with two or more tasks the check raises \<open>TypeError\<close>, because dictionaries
  cannot be ordered, before it talks to Redis: nothing is recorded, and no repeated plan of
  that size can ever be detected.\<close>

theorem loop_check_fails_on_real_plans:
  "2 \<le> length plan \<Longrightarrow> \<exists>m. loop_check env sid plan w = (Inl (Exn TypeError m), w)"
  by (rule loop_check_no_order)

theorem loop_check_fails_on_real_plans_witness:
  "\<exists>m. loop_check (calm_env (\<lambda>n p. Inr JNull)) ''s'' [node_of ''a'' [], node_of ''b'' []] fresh_world
     = (Inl (Exn TypeError m), fresh_world)"
  by (rule loop_check_fails_on_real_plans) simp

end
