(* ===== verification/Planner.thy ===== *)
theory Planner
  imports LoopDetector
begin

text \<open>
  The planner agent (\<open>PlannerAgent.run\<close> in \<open>backend/agents/planner.py\<close>): one model
  invocation, whose document must carry a valid task graph.
\<close>

text \<open>\<open>parsed.get(key, default)\<close>: only an object has the method.\<close>

definition json_get :: "json \<Rightarrow> string \<Rightarrow> json \<Rightarrow> json result" where
  "json_get j k dflt = (case j of
       JObj d \<Rightarrow> Inr (dget_or d k dflt)
     | _ \<Rightarrow> Inl (no_attribute j ''get''))"

definition invalid_dag :: "pyexn \<Rightarrow> pyexn" where
  "invalid_dag e = Exn AgentError (''planner: invalid task DAG '' @ dash @ '' '' @ exn_str e)"

definition planner_run :: "env \<Rightarrow> agent \<Rightarrow> nexus_state \<Rightarrow> state_update act" where
  "planner_run env a st =
     abind (invoke_json env a ''reasoning'' (build_planner_context st)) (\<lambda>parsed.
     abind (alift (json_get parsed ''tasks'' (JArr []))) (\<lambda>raw.
     case validate_task_dag raw of
       Inl e \<Rightarrow> alift (Inl (if is_ValueError e then invalid_dag e else e))
     | Inr plan \<Rightarrow> aret (no_update\<lparr>u_task_plan := Some plan\<rparr>)))"

definition planner_agent :: "env \<Rightarrow> nexus_state \<Rightarrow> state_update act" where
  "planner_agent env st = abind (new_agent env ''planner'') (\<lambda>a. planner_run env a st)"

lemma cost_planner: "llm_cost (planner_agent env st) 3"
proof -
  have "llm_cost (planner_agent env st) (0 + (3 + (0 + 0)))"
    unfolding planner_agent_def planner_run_def
    by (intro cost_abind cost_new_agent cost_invoke cost_aret) (simp split: sum.split)
  then show ?thesis by simp
qed

lemma keeps_planner: "act_keeps world_le (planner_agent env st)"
  unfolding planner_agent_def planner_run_def
  by (intro grow.keeps_abind keeps_new_agent keeps_invoke grow.keeps_alift)
     (auto split: sum.split)

lemma planner_Inr:
  assumes "planner_agent env st w = (Inr u, w')"
  shows "\<exists>plan. u = no_update\<lparr>u_task_plan := Some plan\<rparr> \<and> plan_ok plan"
proof -
  from assms obtain raw w1 where "(case validate_task_dag raw of
       Inl e \<Rightarrow> alift (Inl (if is_ValueError e then invalid_dag e else e))
     | Inr plan \<Rightarrow> aret (no_update\<lparr>u_task_plan := Some plan\<rparr>)) w1 = (Inr u, w')"
    by (auto simp: planner_agent_def planner_run_def abind_Inr)
  then obtain plan where "validate_task_dag raw = Inr plan" "u = no_update\<lparr>u_task_plan := Some plan\<rparr>"
    by (auto split: sum.splits)
  then show ?thesis using validate_plan_ok by blast
qed

section \<open>Properties\<close>

text \<open>Whatever the model answers, a planner run either fails or returns nothing but a task
  plan, and that plan is well formed: one to ten pending tasks with distinct ids, known
  dependencies, no cycle, known models and tools.\<close>

theorem planner_returns_valid_plan:
  assumes "planner_agent env st w = (Inr u, w')"
  shows "\<exists>plan. u = no_update\<lparr>u_task_plan := Some plan\<rparr> \<and> plan_ok plan"
  using assms by (rule planner_Inr)

definition plan_reply :: string where
  "plan_reply = dumps default_opts (JObj [(''tasks'', JArr [raw_task ''a'' [''b''], raw_task ''b'' []])])"

theorem planner_returns_valid_plan_witness:
  "\<exists>plan. u_task_plan (case fst (planner_agent (calm_env (\<lambda>n p. Inr (JStr plan_reply)))
       (initial_state ''g'' ''s'' ''u'' []) fresh_world) of Inr u \<Rightarrow> u | Inl e \<Rightarrow> no_update) = Some plan \<and> plan_ok plan"
proof -
  let ?m = "planner_agent (calm_env (\<lambda>n p. Inr (JStr plan_reply))) (initial_state ''g'' ''s'' ''u'' []) fresh_world"
  have "is_ok (fst ?m)" by code_simp
  then obtain u w' where m: "?m = (Inr u, w')" using is_ok_run by blast
  from planner_returns_valid_plan [OF m] show ?thesis by (auto simp: m)
qed

end
