(* ===== verification/Verifier.thy ===== *)
theory Verifier
  imports Planner
begin

text \<open>
  The verifier agent (\<open>backend/agents/verifier.py\<close>): validation of the report the model
  returns, with defaults for what is missing inside a dimension and a failing report in
  place of one that lacks a required key.
\<close>

definition verifier_dims :: "string list" where
  "verifier_dims = [''completeness'', ''factual_grounding'', ''format_compliance'']"

definition required_keys :: "string list" where
  "required_keys = [''overall_pass'', ''completeness'', ''factual_grounding'', ''format_compliance'']"

definition dim_entry :: "string \<Rightarrow> json" where
  "dim_entry notes = JObj [(''pass'', JBool False), (''score'', JFloat (Fin 0)), (''notes'', JStr notes)]"

text \<open>The text of a set of strings lists it in an order that depends on the hash seed.\<close>

definition missing_message :: "env \<Rightarrow> string list \<Rightarrow> string" where
  "missing_message env ks = ''Verifier report missing keys: {'' @ join '', '' (map py_repr (e_set_order env ks)) @ ''}''"

definition normalise_dim :: "string \<Rightarrow> json dict \<Rightarrow> json dict" where
  "normalise_dim dm report = (case dget report dm of
       Some (JObj entry) \<Rightarrow>
         dset dm (JObj (dsetdefault ''notes'' (JStr []) (dsetdefault ''score'' (JFloat (Fin 0))
                          (dsetdefault ''pass'' (JBool False) entry)))) report
     | _ \<Rightarrow> dset dm (dim_entry ''missing dimension'') report)"

definition validate_report :: "env \<Rightarrow> json \<Rightarrow> json dict result" where
  "validate_report env j = (case j of
       JObj report \<Rightarrow>
         (let missing = filter (\<lambda>k. k \<notin> set (dkeys report)) required_keys in
          if missing \<noteq> [] then Inl (Exn ValueError (missing_message env missing))
          else Inr (dsetdefault ''missing_tasks'' (JArr []) (dsetdefault ''ungrounded_claims'' (JArr [])
                      (fold normalise_dim verifier_dims report))))
     | _ \<Rightarrow> Inl (no_attribute j ''keys''))"

definition failing_report :: "pyexn \<Rightarrow> json dict" where
  "failing_report e =
     [(''overall_pass'', JBool False), (''completeness'', dim_entry (exn_str e)),
      (''factual_grounding'', dim_entry []), (''format_compliance'', dim_entry []),
      (''ungrounded_claims'', JArr []), (''missing_tasks'', JArr [])]"

definition verifier_run :: "env \<Rightarrow> agent \<Rightarrow> nexus_state \<Rightarrow> state_update act" where
  "verifier_run env a st =
     abind (invoke_json env a ''reasoning'' (build_verifier_context st)) (\<lambda>parsed.
     case validate_report env parsed of
       Inr report \<Rightarrow> aret (no_update\<lparr>u_verification_report := Some report\<rparr>)
     | Inl e \<Rightarrow> if is_ValueError e then aret (no_update\<lparr>u_verification_report := Some (failing_report e)\<rparr>)
                else alift (Inl e))"

definition verifier_agent :: "env \<Rightarrow> nexus_state \<Rightarrow> state_update act" where
  "verifier_agent env st = abind (new_agent env ''verifier'') (\<lambda>a. verifier_run env a st)"

lemma cost_verifier: "llm_cost (verifier_agent env st) 3"
proof -
  have "llm_cost (verifier_agent env st) (0 + (3 + 0))"
    unfolding verifier_agent_def verifier_run_def
    by (intro cost_abind cost_new_agent cost_invoke) (auto split: sum.split)
  then show ?thesis by simp
qed

lemma keeps_verifier: "act_keeps world_le (verifier_agent env st)"
  unfolding verifier_agent_def verifier_run_def
  by (intro grow.keeps_abind keeps_new_agent keeps_invoke) (auto split: sum.split)

section \<open>Well-formed reports\<close>

definition dim_ok :: "json \<Rightarrow> bool" where
  "dim_ok j \<longleftrightarrow> (\<exists>e. j = JObj e \<and> {''pass'', ''score'', ''notes''} \<subseteq> set (dkeys e))"

definition report_ok :: "json dict \<Rightarrow> bool" where
  "report_ok r \<longleftrightarrow> set required_keys \<union> {''ungrounded_claims'', ''missing_tasks''} \<subseteq> set (dkeys r)
     \<and> (\<forall>dm \<in> set verifier_dims. \<exists>j. dget r dm = Some j \<and> dim_ok j)"

lemma keys_dsetdefault [simp]: "set (dkeys (dsetdefault k v d)) = insert k (set (dkeys d))"
  by (auto simp: set_dkeys dsetdefault_def)

lemma dsetdefault_keeps: "dget d k = Some v \<Longrightarrow> dget (dsetdefault k' x d) k = Some v"
  by (auto simp: dsetdefault_def)

lemma normalise_dim_other: "k \<noteq> dm \<Longrightarrow> dget (normalise_dim dm r) k = dget r k"
  by (auto simp: normalise_dim_def split: option.splits json.splits)

lemma normalise_dim_cong:
  "dget r dm = dget r' dm \<Longrightarrow> dget (normalise_dim dm r) dm = dget (normalise_dim dm r') dm"
  by (simp add: normalise_dim_def split: option.split json.split)

lemma normalise_dim_ok: "\<exists>j. dget (normalise_dim dm r) dm = Some j \<and> dim_ok j"
proof (cases "\<exists>e. dget r dm = Some (JObj e)")
  case True
  then show ?thesis by (auto simp: normalise_dim_def dim_ok_def)
next
  case False
  then have "normalise_dim dm r = dset dm (dim_entry ''missing dimension'') r"
    by (auto simp: normalise_dim_def split: option.splits json.splits)
  then show ?thesis by (simp add: dim_ok_def dim_entry_def dkeys_def)
qed

lemma keys_normalise_dim [simp]: "set (dkeys (normalise_dim dm r)) = insert dm (set (dkeys r))"
  by (auto simp: normalise_dim_def split: option.splits json.splits)

lemma dims_distinct:
  "''completeness'' \<noteq> ''factual_grounding''" "''completeness'' \<noteq> ''format_compliance''"
  "''factual_grounding'' \<noteq> ''format_compliance''" by simp_all

lemma validate_report_ok:
  assumes "validate_report env j = Inr r"
  shows "report_ok r"
proof -
  from assms obtain d where d: "set required_keys \<subseteq> set (dkeys d)"
    and r: "r = dsetdefault ''missing_tasks'' (JArr []) (dsetdefault ''ungrounded_claims'' (JArr [])
                      (fold normalise_dim verifier_dims d))"
    by (auto simp: validate_report_def Let_def filter_empty_conv split: json.splits if_splits)
  let ?f = "fold normalise_dim verifier_dims d"
  have dims: "\<forall>dm \<in> set verifier_dims. \<exists>j. dget ?f dm = Some j \<and> dim_ok j"
    using normalise_dim_ok by (simp add: verifier_dims_def normalise_dim_other)
  have "set required_keys \<subseteq> set (dkeys ?f)" using d by (auto simp: verifier_dims_def)
  moreover have "\<forall>dm \<in> set verifier_dims. \<exists>j. dget r dm = Some j \<and> dim_ok j"
  proof
    fix dm assume "dm \<in> set verifier_dims"
    with dims obtain j where "dget ?f dm = Some j" "dim_ok j" by blast
    then show "\<exists>j. dget r dm = Some j \<and> dim_ok j" unfolding r by (intro exI [of _ j] conjI dsetdefault_keeps)
  qed
  ultimately show ?thesis by (simp add: report_ok_def r subset_insertI2)
qed

lemma failing_report_ok: "report_ok (failing_report e)"
  by (simp add: report_ok_def failing_report_def required_keys_def verifier_dims_def dim_ok_def
      dim_entry_def dkeys_def)

lemma verifier_Inr:
  assumes "verifier_agent env st w = (Inr u, w')"
  shows "\<exists>r. u = no_update\<lparr>u_verification_report := Some r\<rparr> \<and> report_ok r"
proof -
  from assms obtain parsed w1 where "(case validate_report env parsed of
       Inr report \<Rightarrow> aret (no_update\<lparr>u_verification_report := Some report\<rparr>)
     | Inl e \<Rightarrow> if is_ValueError e then aret (no_update\<lparr>u_verification_report := Some (failing_report e)\<rparr>)
                else alift (Inl e)) w1 = (Inr u, w')"
    by (auto simp: verifier_agent_def verifier_run_def abind_Inr)
  then show ?thesis
    using failing_report_ok validate_report_ok
    by (cases "validate_report env parsed") (auto split: if_splits)
qed

section \<open>Properties\<close>

text \<open>C29: a verifier run that returns updates the report and nothing else, and the report has
  every key the rest of the pipeline reads: the verdict, the lists of ungrounded claims and
  missing tasks, and for each of the three dimensions an object with verdict, score and notes.\<close>

theorem verifier_report_complete:
  assumes "verifier_agent env st w = (Inr u, w')"
  shows "\<exists>r. u = no_update\<lparr>u_verification_report := Some r\<rparr> \<and> report_ok r"
  using assms by (rule verifier_Inr)

theorem verifier_report_complete_witness:
  "\<exists>r. u_verification_report (case fst (verifier_agent (calm_env (\<lambda>n p. Inr (JStr ''{}'')))
       (initial_state ''g'' ''s'' ''u'' []) fresh_world) of Inr u \<Rightarrow> u | Inl e \<Rightarrow> no_update) = Some r \<and> report_ok r"
proof -
  let ?m = "verifier_agent (calm_env (\<lambda>n p. Inr (JStr ''{}''))) (initial_state ''g'' ''s'' ''u'' []) fresh_world"
  have "is_ok (fst ?m)" by code_simp
  then obtain u w' where m: "?m = (Inr u, w')" using is_ok_run by blast
  from verifier_report_complete [OF m] show ?thesis by (auto simp: m)
qed

text \<open>Validation fills gaps and overwrites nothing: in a report with the required keys, what
  the model said outside the three dimensions is kept, a dimension it gave as an object keeps
  every entry it has, and a dimension it gave as anything else is replaced by a failing entry.\<close>

theorem validate_report_fills_gaps:
  assumes "validate_report env (JObj d) = Inr r"
  shows "(\<forall>k v. k \<notin> set verifier_dims \<and> dget d k = Some v \<longrightarrow> dget r k = Some v)
    \<and> (\<forall>dm \<in> set verifier_dims.
         (\<forall>e. dget d dm = Some (JObj e) \<longrightarrow> (\<exists>e'. dget r dm = Some (JObj e')
            \<and> (\<forall>k v. dget e k = Some v \<longrightarrow> dget e' k = Some v)))
       \<and> (\<forall>v. dget d dm = Some v \<and> (\<forall>e. v \<noteq> JObj e) \<longrightarrow> dget r dm = Some (dim_entry ''missing dimension'')))"
proof -
  let ?f = "fold normalise_dim verifier_dims d"
  have r: "r = dsetdefault ''missing_tasks'' (JArr []) (dsetdefault ''ungrounded_claims'' (JArr []) ?f)"
    using assms by (auto simp: validate_report_def Let_def split: if_splits)
  have keep: "dget ?f k = Some v \<Longrightarrow> dget r k = Some v" for k v
    unfolding r by (intro dsetdefault_keeps)
  have other: "k \<notin> set verifier_dims \<Longrightarrow> dget ?f k = dget d k" for k
    by (auto simp: verifier_dims_def normalise_dim_other)
  have dm_eq: "dm \<in> set verifier_dims \<Longrightarrow> dget ?f dm = dget (normalise_dim dm d) dm" for dm
    by (auto simp: verifier_dims_def normalise_dim_other intro!: normalise_dim_cong)
  have obj: "\<exists>e'. dget (normalise_dim dm d) dm = Some (JObj e') \<and> (\<forall>k v. dget e k = Some v \<longrightarrow> dget e' k = Some v)"
    if "dget d dm = Some (JObj e)" for dm e
    using that by (auto simp: normalise_dim_def)
  have bad: "dget (normalise_dim dm d) dm = Some (dim_entry ''missing dimension'')"
    if "dget d dm = Some v" "\<forall>e. v \<noteq> JObj e" for dm v
    using that by (cases v) (auto simp: normalise_dim_def)
  show ?thesis
  proof (intro conjI ballI allI impI)
    fix k v assume "k \<notin> set verifier_dims \<and> dget d k = Some v"
    with other keep show "dget r k = Some v" by simp
  next
    fix dm e assume "dm \<in> set verifier_dims" "dget d dm = Some (JObj e)"
    with obj [of dm e] dm_eq keep
    show "\<exists>e'. dget r dm = Some (JObj e') \<and> (\<forall>k v. dget e k = Some v \<longrightarrow> dget e' k = Some v)" by metis
  next
    fix dm v assume "dm \<in> set verifier_dims" "dget d dm = Some v \<and> (\<forall>e. v \<noteq> JObj e)"
    with bad [of dm v] dm_eq keep show "dget r dm = Some (dim_entry ''missing dimension'')" by simp
  qed
qed

theorem validate_report_fills_gaps_witness:
  "\<exists>r. validate_report (calm_env (\<lambda>n p. Inr JNull))
      (JObj [(''overall_pass'', JBool True), (''completeness'', JInt 1), (''factual_grounding'', JObj []), (''format_compliance'', JNull)]) = Inr r
     \<and> dget r ''completeness'' = Some (dim_entry ''missing dimension'')"
proof -
  let ?d = "[(''overall_pass'', JBool True), (''completeness'', JInt 1), (''factual_grounding'', JObj []), (''format_compliance'', JNull)]"
  obtain r where r: "validate_report (calm_env (\<lambda>n p. Inr JNull)) (JObj ?d) = Inr r"
    by (simp add: validate_report_def required_keys_def dkeys_def)
  from validate_report_fills_gaps [OF r] have "dget r ''completeness'' = Some (dim_entry ''missing dimension'')"
    by (simp add: verifier_dims_def)
  with r show ?thesis by blast
qed

end
