(* ===== verification/Reflector.thy ===== *)
theory Reflector
  imports Verifier
begin

text \<open>
  The reflector agent (\<open>backend/agents/reflector.py\<close>): validation of the scores,
  recomputation of the quality score from the dimensions, and the feedback for the next
  iteration. Scores are binary64 numbers; the mean is the compensated sum of the standard
  library, so how close it is to the exact mean rests on the rounding interface.
\<close>

definition quality_threshold :: pyfloat where "quality_threshold = mk_float (85 / 100)"

text \<open>The binary64 number nearest to 0.85.\<close>

lemma expo_eq: "0 < x \<Longrightarrow> (2::rat) powi k \<le> x \<Longrightarrow> x < 2 powi (k + 1) \<Longrightarrow> expo 2 x = k"
proof -
  assume "0 < x" "(2::rat) powi k \<le> x" "x < 2 powi (k + 1)"
  with expo2_bounds [of x] have "(2::rat) powi k < 2 powi (expo 2 x + 1)" "(2::rat) powi expo 2 x < 2 powi (k + 1)"
    by linarith+
  then show ?thesis by simp
qed

lemma quality_threshold_value: "quality_threshold = Fin (7656119366529843 / 9007199254740992)"
proof -
  have "expo 2 (17 / 20) = -1" by (rule expo_eq) (simp_all add: power_int_minus)
  then have q: "qexp (17 / 20) = -53" by (simp add: qexp_def)
  have f: "\<lfloor>38280596832649216 / 5 :: rat\<rfloor> = 7656119366529843" by (simp add: floor_eq_iff)
  have "rhe ((17 / 20) / 2 powi (-53)) = 7656119366529843"
    by (simp add: rhe_def power_int_minus Let_def f)
  then have "fl (17 / 20) = 7656119366529843 / 9007199254740992"
    unfolding fl_def fl_pos_def q by (simp add: power_int_minus)
  then show ?thesis by (simp add: quality_threshold_def mk_float_def)
qed

definition dimensions :: "string list" where
  "dimensions = [''completeness'', ''accuracy'', ''quality'', ''efficiency'', ''format_score'']"

section \<open>Validation\<close>

text \<open>One pass of the loop over the dimensions.\<close>

definition clamp_dim :: "string \<Rightarrow> json dict \<Rightarrow> json dict result" where
  "clamp_dim dm dims =
     (let dims1 = dsetdefault dm (JFloat (Fin 0)) dims in
      rbind (py_float (dget_or dims1 dm JNull)) (\<lambda>x. Inr (dset dm (JFloat (clamp01 x)) dims1)))"

fun clamp_dims :: "string list \<Rightarrow> json dict \<Rightarrow> json dict result" where
  "clamp_dims [] dims = Inr dims"
| "clamp_dims (dm # ds) dims = rbind (clamp_dim dm dims) (clamp_dims ds)"

text \<open>The value of a clamped dimension: after the loop each is a finite float.\<close>

definition dim_value :: "json dict \<Rightarrow> string \<Rightarrow> rat" where
  "dim_value dims dm = (case dget dims dm of Some (JFloat (Fin q)) \<Rightarrow> q | _ \<Rightarrow> 0)"

definition mean_score :: "json dict \<Rightarrow> rat" where
  "mean_score dims = py_round 4 (fl (py_sum (map (dim_value dims) dimensions) / of_nat (length dimensions)))"

definition validate_reflection :: "json \<Rightarrow> json dict result" where
  "validate_reflection j = (case j of
       JObj raw \<Rightarrow>
         (let raw1 = dsetdefault ''pass'' (JBool False) (dsetdefault ''dimension_scores'' (JObj [])
                (dsetdefault ''improvement_directives'' (JArr []) (dsetdefault ''quality_score'' (JFloat (Fin 0)) raw)))
          in rbind (py_float (dget_or raw1 ''quality_score'' JNull)) (\<lambda>score.
             (let raw2 = dset ''quality_score'' (JFloat (clamp01 score)) raw1 in
              case dget_or raw2 ''dimension_scores'' JNull of
                JObj dims0 \<Rightarrow>
                  rbind (clamp_dims dimensions dims0) (\<lambda>dims.
                  (let quality = (if \<exists>dm \<in> set dimensions. 0 < dim_value dims dm
                                  then Fin (mean_score dims) else clamp01 score);
                       raw3 = dset ''quality_score'' (JFloat quality) (dset ''dimension_scores'' (JObj dims) raw2)
                   in Inr (dset ''pass'' (JBool (flt_le quality_threshold quality)) raw3)))
              | v \<Rightarrow> Inl (no_attribute v ''setdefault''))))
     | _ \<Rightarrow> Inl (no_attribute j ''setdefault''))"

section \<open>Feedback\<close>

text \<open>\<open>directives[:5]\<close> of a true value: lists and strings can be sliced.\<close>

definition first_five :: "json \<Rightarrow> json list result" where
  "first_five j = (case j of
       JArr xs \<Rightarrow> Inr (take 5 xs)
     | JStr s \<Rightarrow> Inr (map (\<lambda>c. JStr [c]) (take 5 s))
     | JObj d \<Rightarrow> Inl (Exn KeyError ''slice(None, 5, None)'')
     | _ \<Rightarrow> Inl (Exn TypeError (py_repr (type_name j) @ '' object is not subscriptable'')))"

text \<open>\<open>sep.join\<close> of values that may not be strings.\<close>

fun join_json_from :: "nat \<Rightarrow> string \<Rightarrow> json list \<Rightarrow> string list result" where
  "join_json_from i sep [] = Inr []"
| "join_json_from i sep (JStr s # xs) = rbind (join_json_from (Suc i) sep xs) (\<lambda>ys. Inr (s # ys))"
| "join_json_from i sep (x # xs) = Inl (Exn TypeError (''sequence item '' @ str_of_nat i
     @ '': expected str instance, '' @ type_name x @ '' found''))"

definition feedback_of :: "json dict \<Rightarrow> string result" where
  "feedback_of reflection =
     (let v = dget_or reflection ''improvement_directives'' JNull;
          directives = (if truthy v then v else JArr [])
      in rbind (first_five directives) (\<lambda>ds. rbind (join_json_from 0 nl ds) (\<lambda>ss. Inr (join nl ss))))"

definition score_of :: "json dict \<Rightarrow> pyfloat" where
  "score_of reflection = (case dget reflection ''quality_score'' of Some (JFloat x) \<Rightarrow> x | _ \<Rightarrow> Fin 0)"

definition reflector_run :: "env \<Rightarrow> agent \<Rightarrow> nexus_state \<Rightarrow> state_update act" where
  "reflector_run env a st =
     abind (invoke_json env a ''reasoning'' (build_reflector_context st)) (\<lambda>parsed.
     abind (alift (validate_reflection parsed)) (\<lambda>reflection.
     abind (alift (feedback_of reflection)) (\<lambda>feedback.
     aret (no_update\<lparr>u_quality_score := Some (score_of reflection), u_reflection_feedback := Some feedback\<rparr>))))"

definition reflector_agent :: "env \<Rightarrow> nexus_state \<Rightarrow> state_update act" where
  "reflector_agent env st = abind (new_agent env ''reflector'') (\<lambda>a. reflector_run env a st)"

lemma cost_reflector: "llm_cost (reflector_agent env st) 3"
proof -
  have "llm_cost (reflector_agent env st) (0 + (3 + (0 + (0 + 0))))"
    unfolding reflector_agent_def reflector_run_def
    by (intro cost_abind cost_new_agent cost_invoke cost_aret)
  then show ?thesis by simp
qed

lemma keeps_reflector: "act_keeps world_le (reflector_agent env st)"
  unfolding reflector_agent_def reflector_run_def
  by (intro grow.keeps_abind keeps_new_agent keeps_invoke grow.keeps_alift grow.keeps_aret)

section \<open>Scores\<close>

definition unit_score :: "rat \<Rightarrow> bool" where
  "unit_score q \<longleftrightarrow> 0 \<le> q \<and> q \<le> 1"

lemma clamp_dim_value:
  assumes "clamp_dim dm dims = Inr dims'"
  shows "unit_score (dim_value dims' dm)" "k \<noteq> dm \<Longrightarrow> dget dims' k = dget dims k"
proof -
  from assms obtain x where x: "dims' = dset dm (JFloat (clamp01 x)) (dsetdefault dm (JFloat (Fin 0)) dims)"
    by (auto simp: clamp_dim_def Let_def rbind_eq_Inr)
  obtain q where "clamp01 x = Fin q" "0 \<le> q" "q \<le> 1" using clamp01_cases by blast
  then show "unit_score (dim_value dims' dm)" by (simp add: x dim_value_def unit_score_def)
  show "k \<noteq> dm \<Longrightarrow> dget dims' k = dget dims k" by (simp add: x)
qed

lemma dim_value_cong: "dget d k = dget d' k \<Longrightarrow> dim_value d k = dim_value d' k"
  by (simp add: dim_value_def)

lemma clamp_dims_values:
  assumes "clamp_dims ds dims = Inr dims'"
  shows "(\<forall>dm \<in> set ds. unit_score (dim_value dims' dm)) \<and> (\<forall>k. k \<notin> set ds \<longrightarrow> dget dims' k = dget dims k)"
  using assms
proof (induction ds arbitrary: dims)
  case (Cons dm ds)
  then obtain d1 where d1: "clamp_dim dm dims = Inr d1" "clamp_dims ds d1 = Inr dims'"
    by (auto simp: rbind_eq_Inr)
  note IH = Cons.IH [OF d1(2)] and v = clamp_dim_value [OF d1(1)]
  have "unit_score (dim_value dims' dm)"
  proof (cases "dm \<in> set ds")
    case False
    with IH have "dget dims' dm = dget d1 dm" by blast
    then show ?thesis using v(1) dim_value_cong by metis
  qed (use IH in blast)
  with IH v(2) show ?case by auto
qed simp

lemma score_5: "length dimensions = 5" "(\<forall>x \<in> set (map (dim_value d) dimensions). 0 \<le> x \<and> x \<le> 1)
    \<longleftrightarrow> (\<forall>dm \<in> set dimensions. unit_score (dim_value d dm))"
  by (simp_all add: dimensions_def unit_score_def)

definition exact_mean :: "json dict \<Rightarrow> rat" where
  "exact_mean dims = sum_list (map (dim_value dims) dimensions) / 5"

lemma py_round_close:
  assumes "\<bar>x\<bar> \<le> 2"
  shows "\<bar>py_round 4 x - x\<bar> \<le> 1 / 20000 + ulp"
proof -
  have r: "\<bar>of_int (rhe (x * 10 ^ 4)) / 10 ^ 4 - x\<bar> \<le> 1 / 20000"
    using rhe_error [of "x * 10 ^ 4"] by (simp add: abs_le_iff field_simps)
  with assms have "\<bar>of_int (rhe (x * 10 ^ 4)) / 10 ^ 4 :: rat\<bar> \<le> 16" by linarith
  from binary64.rnd_close [OF this] have "\<bar>py_round 4 x - of_int (rhe (x * 10 ^ 4)) / 10 ^ 4\<bar> \<le> ulp"
    unfolding py_round_def .
  with r show ?thesis unfolding abs_le_iff by linarith
qed

lemma mean_near:
  assumes "\<forall>dm \<in> set dimensions. unit_score (dim_value dims dm)"
  shows "\<bar>fl (py_sum (map (dim_value dims) dimensions) / 5) - exact_mean dims\<bar> \<le> 7 * ulp"
  using binary64.mean_close [of "map (dim_value dims) dimensions"] assms score_5
  by (simp add: py_sum_def exact_mean_def)

lemma exact_mean_unit:
  assumes "\<forall>dm \<in> set dimensions. unit_score (dim_value dims dm)"
  shows "0 \<le> exact_mean dims" "exact_mean dims \<le> 1"
  using assms by (auto simp: exact_mean_def dimensions_def unit_score_def)

lemma mean_score_close:
  assumes "\<forall>dm \<in> set dimensions. unit_score (dim_value dims dm)"
  shows "\<bar>mean_score dims - exact_mean dims\<bar> \<le> 1 / 10000"
proof -
  let ?m = "fl (py_sum (map (dim_value dims) dimensions) / 5)"
  note n = mean_near [OF assms] and e = exact_mean_unit [OF assms]
  have "\<bar>?m\<bar> \<le> 2" using n e ulp_tiny by linarith
  from py_round_close [OF this] have "\<bar>mean_score dims - ?m\<bar> \<le> 1 / 20000 + ulp"
    by (simp add: mean_score_def score_5)
  moreover have "8 * ulp \<le> 1 / 20000" by (simp add: ulp_def)
  ultimately show ?thesis using n unfolding abs_le_iff by linarith
qed

lemma mean_score_unit:
  assumes "\<forall>dm \<in> set dimensions. unit_score (dim_value dims dm)"
  shows "unit_score (mean_score dims)"
proof -
  let ?m = "fl (py_sum (map (dim_value dims) dimensions) / 5)"
  note n = mean_near [OF assms] and e = exact_mean_unit [OF assms]
  define x where "x = ?m * 10 ^ 4"
  have x: "- (1 / 4) \<le> x" "x \<le> 10000 + 1 / 4"
  proof -
    have "7 * ulp \<le> 1 / 40000" by (simp add: ulp_def)
    with n e have "- (1 / 40000) \<le> ?m" "?m \<le> 1 + 1 / 40000" unfolding abs_le_iff by linarith+
    then show "- (1 / 4) \<le> x" "x \<le> 10000 + 1 / 4" by (simp_all add: x_def)
  qed
  have "- 1 < (of_int (rhe x) :: rat)" "(of_int (rhe x) :: rat) < 10001"
    using x rhe_error [of x] by linarith+
  then have "0 \<le> rhe x" "rhe x \<le> 10000" by linarith+
  then have "0 \<le> (of_int (rhe x) / 10 ^ 4 :: rat)" "(of_int (rhe x) / 10 ^ 4 :: rat) \<le> 1" by simp_all
  from binary64.rnd_mono [OF this(1)] binary64.rnd_mono [OF this(2)]
  have "0 \<le> fl (of_int (rhe x) / 10 ^ 4)" "fl (of_int (rhe x) / 10 ^ 4) \<le> 1"
    using binary64.rnd_int [of 0] binary64.rnd_int [of 1] by simp_all
  moreover have "mean_score dims = fl (of_int (rhe x) / 10 ^ 4)"
    by (simp only: mean_score_def py_round_def x_def score_5 of_nat_numeral)
  ultimately show ?thesis by (simp add: unit_score_def)
qed

text \<open>The score the model claims, and the shape of an accepted reflection.\<close>

definition claimed_score :: "json dict \<Rightarrow> pyfloat result" where
  "claimed_score raw = py_float (dget_or raw ''quality_score'' (JFloat (Fin 0)))"

definition given_dims :: "json dict \<Rightarrow> json" where
  "given_dims raw = dget_or raw ''dimension_scores'' (JObj [])"

definition dims_of :: "json dict \<Rightarrow> json dict" where
  "dims_of r = (case dget r ''dimension_scores'' of Some (JObj d) \<Rightarrow> d | _ \<Rightarrow> [])"

definition overall :: "json dict \<Rightarrow> pyfloat \<Rightarrow> pyfloat" where
  "overall dims score = (if \<exists>dm \<in> set dimensions. 0 < dim_value dims dm then Fin (mean_score dims) else clamp01 score)"

lemma reflection_Inr:
  assumes "validate_reflection (JObj raw) = Inr r"
  obtains score dims0 dims where "claimed_score raw = Inr score" "given_dims raw = JObj dims0"
    "clamp_dims dimensions dims0 = Inr dims" "dget r ''dimension_scores'' = Some (JObj dims)"
    "score_of r = overall dims score" "dget r ''pass'' = Some (JBool (flt_le quality_threshold (overall dims score)))"
    "dget_or r ''improvement_directives'' JNull = dget_or raw ''improvement_directives'' (JArr [])"
proof -
  let ?raw1 = "dsetdefault ''pass'' (JBool False) (dsetdefault ''dimension_scores'' (JObj [])
      (dsetdefault ''improvement_directives'' (JArr []) (dsetdefault ''quality_score'' (JFloat (Fin 0)) raw)))"
  have q: "dget_or ?raw1 ''quality_score'' JNull = dget_or raw ''quality_score'' (JFloat (Fin 0))"
    and d: "dget_or (dset ''quality_score'' x ?raw1) ''dimension_scores'' JNull = given_dims raw"
    and i: "dget_or ?raw1 ''improvement_directives'' JNull = dget_or raw ''improvement_directives'' (JArr [])" for x
    by (auto simp: dget_or_def given_dims_def split: option.splits)
  from assms obtain score where score: "claimed_score raw = Inr score"
    and rest: "(case given_dims raw of
        JObj dims0 \<Rightarrow> rbind (clamp_dims dimensions dims0) (\<lambda>dims.
          Inr (dset ''pass'' (JBool (flt_le quality_threshold (overall dims score)))
            (dset ''quality_score'' (JFloat (overall dims score)) (dset ''dimension_scores'' (JObj dims)
              (dset ''quality_score'' (JFloat (clamp01 score)) ?raw1)))))
      | v \<Rightarrow> Inl (no_attribute v ''setdefault'')) = Inr r"
    unfolding validate_reflection_def json.case Let_def rbind_eq_Inr q d claimed_score_def overall_def by blast
  from rest obtain dims0 where d0: "given_dims raw = JObj dims0" by (cases "given_dims raw") auto
  from rest [unfolded d0] obtain dims where dims: "clamp_dims dimensions dims0 = Inr dims"
    and r: "r = dset ''pass'' (JBool (flt_le quality_threshold (overall dims score)))
            (dset ''quality_score'' (JFloat (overall dims score)) (dset ''dimension_scores'' (JObj dims)
              (dset ''quality_score'' (JFloat (clamp01 score)) ?raw1)))"
    by (auto simp: rbind_eq_Inr)
  have "dget_or r ''improvement_directives'' JNull = dget_or raw ''improvement_directives'' (JArr [])"
    using i by (simp add: r dget_or_def)
  with score d0 dims show thesis by (intro that) (simp_all add: r score_of_def)
qed

lemma reflection_accepts:
  assumes "claimed_score raw = Inr score" "given_dims raw = JObj dims0" "is_ok (clamp_dims dimensions dims0)"
  shows "\<exists>r. validate_reflection (JObj raw) = Inr r"
proof -
  let ?raw1 = "dsetdefault ''pass'' (JBool False) (dsetdefault ''dimension_scores'' (JObj [])
      (dsetdefault ''improvement_directives'' (JArr []) (dsetdefault ''quality_score'' (JFloat (Fin 0)) raw)))"
  have "dget_or ?raw1 ''quality_score'' JNull = dget_or raw ''quality_score'' (JFloat (Fin 0))"
    and "dget_or (dset ''quality_score'' x ?raw1) ''dimension_scores'' JNull = JObj dims0" for x
    using assms(2) by (auto simp: dget_or_def given_dims_def split: option.splits)
  with assms(1,3) show ?thesis
    by (cases "clamp_dims dimensions dims0")
       (simp_all add: validate_reflection_def claimed_score_def Let_def is_ok_def)
qed

lemma reflection_obj: "validate_reflection j = Inr r \<Longrightarrow> \<exists>raw. j = JObj raw"
  by (cases j) (simp_all add: validate_reflection_def)

lemma overall_unit:
  assumes "\<forall>dm \<in> set dimensions. unit_score (dim_value dims dm)"
  shows "\<exists>q. overall dims score = Fin q \<and> unit_score q"
  using mean_score_unit [OF assms] clamp01_cases [of score] by (auto simp: overall_def unit_score_def)

lemma reflector_Inr:
  assumes "reflector_agent env st w = (Inr u, w')"
  shows "\<exists>q fb. u = no_update\<lparr>u_quality_score := Some (Fin q), u_reflection_feedback := Some fb\<rparr> \<and> unit_score q"
proof -
  from assms obtain parsed r fb where r: "validate_reflection parsed = Inr r"
    and u: "u = no_update\<lparr>u_quality_score := Some (score_of r), u_reflection_feedback := Some fb\<rparr>"
    by (auto simp: reflector_agent_def reflector_run_def abind_Inr)
  from reflection_obj [OF r] obtain raw where "parsed = JObj raw" by blast
  from reflection_Inr [OF r [unfolded this]] obtain score dims0 dims
    where "clamp_dims dimensions dims0 = Inr dims" "score_of r = overall dims score" by metis
  with overall_unit clamp_dims_values u show ?thesis by metis
qed

section \<open>Properties\<close>

text \<open>C17: every reflection that validation accepts has a finite quality score between zero and
  one, whatever the model sent (NaN and infinities included), its verdict is exactly that
  score against the threshold, and each of the five dimension scores lies between zero and one.\<close>

theorem reflection_scores_bounded:
  assumes "validate_reflection j = Inr r"
  shows "\<exists>q. score_of r = Fin q \<and> 0 \<le> q \<and> q \<le> 1
    \<and> dget r ''pass'' = Some (JBool (flt_le quality_threshold (Fin q)))
    \<and> (\<forall>dm \<in> set dimensions. 0 \<le> dim_value (dims_of r) dm \<and> dim_value (dims_of r) dm \<le> 1)"
proof -
  from reflection_obj [OF assms] obtain raw where "j = JObj raw" by blast
  from reflection_Inr [OF assms [unfolded this]] obtain score dims0 dims
    where d: "clamp_dims dimensions dims0 = Inr dims" "dget r ''dimension_scores'' = Some (JObj dims)"
      and o: "score_of r = overall dims score" "dget r ''pass'' = Some (JBool (flt_le quality_threshold (overall dims score)))"
    by metis
  have u: "\<forall>dm \<in> set dimensions. unit_score (dim_value dims dm)" using clamp_dims_values [OF d(1)] by blast
  from overall_unit [OF u] obtain q where "overall dims score = Fin q" "unit_score q" by blast
  with o u d(2) show ?thesis by (auto simp: unit_score_def dims_of_def)
qed

theorem reflection_scores_bounded_witness:
  "\<exists>r. validate_reflection (JObj [(''quality_score'', JFloat NaN), (''dimension_scores'', JObj [(''accuracy'', JBool True)])]) = Inr r
     \<and> (\<exists>q. score_of r = Fin q \<and> 0 \<le> q \<and> q \<le> 1)"
proof -
  let ?d = "[(''quality_score'', JFloat NaN), (''dimension_scores'', JObj [(''accuracy'', JBool True)])]"
  have "claimed_score ?d = Inr NaN" "given_dims ?d = JObj [(''accuracy'', JBool True)]"
    "is_ok (clamp_dims dimensions [(''accuracy'', JBool True)])" by code_simp+
  from reflection_accepts [OF this] obtain r where r: "validate_reflection (JObj ?d) = Inr r" by blast
  from reflection_scores_bounded [OF r] r show ?thesis by blast
qed

text \<open>C18: when any dimension score is positive, the quality score is the mean of the five
  dimension scores to within one ten-thousandth, and the score the model claims for itself
  has no influence: two accepted reflections with the same dimension scores get the same
  quality score.\<close>

theorem reflection_mean_of_dimensions:
  assumes "validate_reflection (JObj raw) = Inr r" "validate_reflection (JObj raw') = Inr r'"
    and "given_dims raw = given_dims raw'" "\<exists>dm \<in> set dimensions. 0 < dim_value (dims_of r) dm"
  shows "score_of r' = score_of r
    \<and> (\<exists>q. score_of r = Fin q \<and> \<bar>q - (\<Sum>dm \<leftarrow> dimensions. dim_value (dims_of r) dm) / 5\<bar> \<le> 1 / 10000)"
proof -
  from reflection_Inr [OF assms(1)] obtain score dims0 dims
    where d: "given_dims raw = JObj dims0" "clamp_dims dimensions dims0 = Inr dims" "score_of r = overall dims score"
      and "dget r ''dimension_scores'' = Some (JObj dims)" by metis
  then have dims: "dims_of r = dims" by (simp add: dims_of_def)
  from reflection_Inr [OF assms(2)] d(1,2) assms(3) obtain score'
    where d': "score_of r' = overall dims score'" by (metis json.inject(6) sum.inject(2))
  have u: "\<forall>dm \<in> set dimensions. unit_score (dim_value dims dm)" using clamp_dims_values [OF d(2)] by blast
  from d d' dims assms(4) mean_score_close [OF u] show ?thesis by (simp add: overall_def exact_mean_def)
qed

theorem reflection_mean_of_dimensions_witness:
  "\<exists>q r. validate_reflection (JObj [(''quality_score'', JFloat (Fin 1)), (''dimension_scores'', JObj [(''accuracy'', JBool True)])]) = Inr r
     \<and> score_of r = Fin q \<and> \<bar>q - 1 / 5\<bar> \<le> 1 / 10000"
proof -
  let ?d = "[(''quality_score'', JFloat (Fin 1)), (''dimension_scores'', JObj [(''accuracy'', JBool True)])]"
  let ?c = "clamp_dims dimensions [(''accuracy'', JBool True)]"
  have c: "claimed_score ?d = Inr (Fin 1)" "given_dims ?d = JObj [(''accuracy'', JBool True)]" "is_ok ?c"
    by code_simp+
  from reflection_accepts [OF this] obtain r where r: "validate_reflection (JObj ?d) = Inr r" by blast
  from reflection_Inr [OF r] obtain dims0 dims where "given_dims ?d = JObj dims0"
    "clamp_dims dimensions dims0 = Inr dims" "dget r ''dimension_scores'' = Some (JObj dims)" by metis
  with c(2) have "dims_of r = (case ?c of Inr d \<Rightarrow> d | Inl e \<Rightarrow> [])" by (simp add: dims_of_def)
  moreover have "map (dim_value (case ?c of Inr d \<Rightarrow> d | Inl e \<Rightarrow> [])) dimensions = [0, 1, 0, 0, 0]" by code_simp
  ultimately have m: "map (dim_value (dims_of r)) dimensions = [0, 1, 0, 0, 0]" by simp
  then have "1 \<in> dim_value (dims_of r) ` set dimensions" by (metis (no_types) image_set list.set_intros)
  then have "\<exists>dm \<in> set dimensions. 0 < dim_value (dims_of r) dm" by (force simp: image_iff)
  from reflection_mean_of_dimensions [OF r r refl this] m r show ?thesis by simp
qed

text \<open>With no dimension scores the claimed score stands, clamped, so a bare claim passes the
  gate although the recomputation is meant to prevent that; a claim of NaN counts as one.\<close>

theorem reflection_bare_claim_stands:
  "\<exists>r. validate_reflection (JObj [(''quality_score'', JFloat x)]) = Inr r \<and> score_of r = clamp01 x
     \<and> dget r ''pass'' = Some (JBool (flt_le quality_threshold (clamp01 x)))
     \<and> clamp01 NaN = Fin 1 \<and> clamp01 (Fin 1) = Fin 1 \<and> flt_le quality_threshold (Fin 1)"
proof -
  have t: "flt_le quality_threshold (Fin 1)" by (simp add: quality_threshold_value)
  have "claimed_score [(''quality_score'', JFloat x)] = Inr x" "given_dims [(''quality_score'', JFloat x)] = JObj []"
    by (simp_all add: claimed_score_def given_dims_def dget_or_def)
  moreover have "is_ok (clamp_dims dimensions [])" by code_simp
  ultimately have "\<exists>r. validate_reflection (JObj [(''quality_score'', JFloat x)]) = Inr r"
    by (rule reflection_accepts)
  then obtain r where r: "validate_reflection (JObj [(''quality_score'', JFloat x)]) = Inr r" ..
  from reflection_Inr [OF r] obtain score dims0 dims where d: "claimed_score [(''quality_score'', JFloat x)] = Inr score"
    "given_dims [(''quality_score'', JFloat x)] = JObj dims0" "clamp_dims dimensions dims0 = Inr dims"
    "score_of r = overall dims score" "dget r ''pass'' = Some (JBool (flt_le quality_threshold (overall dims score)))"
    by metis
  have "dims0 = []" "score = x" using d(1,2) by (simp_all add: given_dims_def claimed_score_def dget_or_def)
  moreover from this d(3) have "\<forall>dm \<in> set dimensions. dim_value dims dm = 0"
    by (auto simp: dimensions_def clamp_dim_def dsetdefault_def dget_or_def clamp01_Fin dim_value_def)
  ultimately have "overall dims score = clamp01 x" by (simp add: overall_def)
  with d(4,5) r t show ?thesis by (simp add: clamp01_NaN clamp01_Fin)
qed

end
