(* ===== verification/Tools.thy ===== *)
theory Tools
  imports Reflector
begin

text \<open>
  The tools (\<open>backend/tools\<close>): the registry and the way a call binds its keyword
  arguments, the sandbox client, the cached web search, semantic recall, the HTTP caller
  and the file tools with their path check. Remote services are oracles of the
  environment; paths resolve without symbolic links.
\<close>

section \<open>The registry (tools/__init__.py)\<close>

text \<open>
  The decorator \<open>@tool\<close> enters a function under its name and refuses one that is not a coroutine
  function. Parameters come with whether they have a default.
\<close>

type_synonym registry = "(string \<times> bool) list dict"

record tool_function =
  tf_name :: string
  tf_repr :: string
  tf_coroutine :: bool
  tf_params :: "(string \<times> bool) list"

definition register_tool :: "tool_function \<Rightarrow> registry \<Rightarrow> registry result" where
  "register_tool fn reg =
     (if \<not> tf_coroutine fn then Inl (Exn TypeError (''@tool requires an async function, got '' @ tf_repr fn))
      else Inr (dset (tf_name fn) (tf_params fn) reg))"

fun register_all :: "tool_function list \<Rightarrow> registry \<Rightarrow> registry result" where
  "register_all [] reg = Inr reg"
| "register_all (fn # fns) reg = rbind (register_tool fn reg) (register_all fns)"

text \<open>The functions registered, in the order in which their modules are imported.\<close>

definition tool_registry :: registry where
  "tool_registry =
     [(''api_caller'', [(''url'', False), (''method'', True), (''headers'', True), (''body'', True), (''session_id'', True)]),
      (''code_exec'', [(''code'', False), (''task_id'', True), (''session_id'', True)]),
      (''file_write'', [(''session_id'', False), (''relative_path'', False), (''content'', False)]),
      (''file_read'', [(''session_id'', False), (''relative_path'', False)]),
      (''rag_recall'', [(''query'', False), (''user_id'', False), (''top_k'', True), (''session_id'', True)]),
      (''web_search'', [(''query'', False), (''session_id'', True), (''max_results'', True)])]"

definition coroutine_of :: "string \<times> (string \<times> bool) list \<Rightarrow> tool_function" where
  "coroutine_of f = \<lparr>tf_name = fst f, tf_repr = ''<function '' @ fst f @ ''>'', tf_coroutine = True, tf_params = snd f\<rparr>"

lemma registered_on_import: "register_all (map coroutine_of tool_registry) [] = Inr tool_registry"
  by code_simp

lemma register_again:
  assumes "register_tool fn reg = Inr reg'"
  shows "register_tool fn reg' = Inr reg'"
proof -
  have "dset k v (dset k v reg) = dset k v reg" for k and v :: "(string \<times> bool) list"
    by (induction reg rule: dset.induct) auto
  with assms show "register_tool fn reg' = Inr reg'" by (auto simp: register_tool_def split: if_splits)
qed

definition get_tool :: "string \<Rightarrow> (string \<times> bool) list result" where
  "get_tool name = (case dget tool_registry name of
       Some ps \<Rightarrow> Inr ps
     | None \<Rightarrow> Inl (Exn KeyError (py_repr (''Tool '' @ py_repr name @ '' not registered. Available: ''
                  @ join '', '' (sort (dkeys tool_registry))))))"

text \<open>Binding keyword arguments: the first one the function does not have raises, then a
  required parameter that is missing.\<close>

definition name_list :: "string list \<Rightarrow> string" where
  "name_list xs = (case map py_repr xs of
       [x] \<Rightarrow> x
     | [x, y] \<Rightarrow> x @ '' and '' @ y
     | ys \<Rightarrow> join '', '' (butlast ys) @ '', and '' @ last ys)"

definition bind_kwargs :: "string \<Rightarrow> (string \<times> bool) list \<Rightarrow> string dict \<Rightarrow> unit result" where
  "bind_kwargs f params kwargs =
     (case filter (\<lambda>k. k \<notin> fst ` set params) (dkeys kwargs) of
        k # _ \<Rightarrow> Inl (Exn TypeError (f @ ''() got an unexpected keyword argument '' @ py_repr k))
      | [] \<Rightarrow>
          (let missing = [p. (p, has_default) \<leftarrow> params, \<not> has_default \<and> p \<notin> set (dkeys kwargs)] in
           if missing = [] then Inr ()
           else Inl (Exn TypeError (f @ ''() missing '' @ str_of_nat (length missing) @ '' required positional argument''
                  @ (if length missing = 1 then [] else ''s'') @ '': '' @ name_list missing))))"

section \<open>Sandbox client (tools/code_executor.py)\<close>

definition hard_timeout :: int where "hard_timeout = 30"
definition stdout_max :: nat where "stdout_max = 5000"
definition stderr_max :: nat where "stderr_max = 2000"

record sandbox_result =
  sr_success :: bool
  sr_stdout :: string
  sr_stderr :: string
  sr_exit_code :: int
  sr_wall_ms :: int

definition execute_code :: "env \<Rightarrow> string \<Rightarrow> int \<Rightarrow> string \<Rightarrow> sandbox_result act" where
  "execute_code env src timeout tid = (\<lambda>w.
     let t = min timeout hard_timeout;
         request = \<lparr>rq_code = src, rq_timeout = t, rq_task_id = tid\<rparr>;
         wall_ms = e_wall_ms env (w_tick w);
         res = (case e_sandbox env (w_tick w) request (t + 5) of
             Inr r \<Rightarrow> \<lparr>sr_success = rs_success r, sr_stdout = take stdout_max (rs_stdout r),
                 sr_stderr = take stderr_max (rs_stderr r), sr_exit_code = rs_exit_code r,
                 sr_wall_ms = int_or (rs_wall_ms r) wall_ms\<rparr>
           | Inl (RpcError code_name detail) \<Rightarrow>
               \<lparr>sr_success = False, sr_stdout = [],
                 sr_stderr = take stderr_max (''sandbox gRPC error ['' @ code_name @ '']: '' @ detail),
                 sr_exit_code = - 1, sr_wall_ms = wall_ms\<rparr>)
     in (Inr res, tick (w\<lparr>w_runs := Suc (w_runs w)\<rparr>)))"

definition code_exec :: "env \<Rightarrow> string \<Rightarrow> string \<Rightarrow> string act" where
  "code_exec env src tid =
     abind (execute_code env src hard_timeout tid) (\<lambda>r.
     aret (if sr_success r then sr_stdout r
           else ''Error (exit '' @ str_of_int (sr_exit_code r) @ ''): '' @ sr_stderr r))"

section \<open>Web search (tools/web_search.py)\<close>

definition search_ttl :: int where "search_ttl = 3600"

definition search_key :: "env \<Rightarrow> string \<Rightarrow> string" where
  "search_key env query = ''nexus:tool_cache:web_search:'' @ e_sha256 env query"

text \<open>\<open>x[:n]\<close> on a decoded value.\<close>

definition json_prefix :: "nat \<Rightarrow> json \<Rightarrow> json result" where
  "json_prefix n j = (case j of
       JStr s \<Rightarrow> Inr (JStr (take n s))
     | JArr xs \<Rightarrow> Inr (JArr (take n xs))
     | JObj d \<Rightarrow> Inl (Exn KeyError (''slice(None, '' @ str_of_nat n @ '', None)''))
     | _ \<Rightarrow> Inl (Exn TypeError (py_repr (type_name j) @ '' object is not subscriptable'')))"

definition format_result :: "json \<Rightarrow> string result" where
  "format_result r =
     rbind (json_get r ''title'' (JStr [])) (\<lambda>title.
     rbind (json_get r ''content'' (JStr [])) (\<lambda>c.
     rbind (json_prefix 400 c) (\<lambda>content.
     rbind (json_get r ''url'' (JStr [])) (\<lambda>url.
     Inr (py_str title @ '': '' @ py_str content @ '' (source: '' @ py_str url @ '')'')))))"

definition format_results :: "json list \<Rightarrow> string result" where
  "format_results results =
     rbind (rmap format_result results) (\<lambda>lines.
     Inr (if lines \<noteq> [] then join nl lines else ''No results found.''))"

definition tavily_search :: "env \<Rightarrow> string \<Rightarrow> int \<Rightarrow> json act" where
  "tavily_search env query n = (\<lambda>w. (e_tavily env (w_tick w) query n, tick w))"

definition web_search :: "env \<Rightarrow> string \<Rightarrow> int \<Rightarrow> string act" where
  "web_search env query max_results =
     abind (redis_get env (search_key env query)) (\<lambda>cached.
     case cached of
       Some (c # cs) \<Rightarrow> aret (c # cs)
     | _ \<Rightarrow>
         abind (tavily_search env query max_results) (\<lambda>response.
         abind (alift (json_get response ''results'' (JArr []))) (\<lambda>rs.
         abind (alift (py_iter rs)) (\<lambda>results.
         abind (alift (format_results results)) (\<lambda>formatted.
         abind (redis_set env (search_key env query) formatted (Some search_ttl)) (\<lambda>_.
         aret formatted))))))"

section \<open>Semantic recall (tools/rag_recall.py)\<close>

definition embed_ttl :: int where "embed_ttl = 7 * 24 * 3600"
definition min_quality :: pyfloat where "min_quality = mk_float (70 / 100)"

definition embed_key :: "env \<Rightarrow> string \<Rightarrow> string" where
  "embed_key env text = ''nexus:embed_cache:'' @ e_sha256 env text"

definition embedding_call :: "env \<Rightarrow> string \<Rightarrow> json act" where
  "embedding_call env text = (\<lambda>w. (e_embedding env (w_tick w) text, tick w))"

text \<open>The vector of a text, from the cache when what it holds decodes.\<close>

definition embed :: "env \<Rightarrow> string \<Rightarrow> json act" where
  "embed env text =
     (let fresh = abind (embedding_call env (take 8000 text)) (\<lambda>vector.
                  abind (redis_set env (embed_key env text) (dumps default_opts vector) (Some embed_ttl)) (\<lambda>_.
                  aret vector))
      in abind (redis_get env (embed_key env text)) (\<lambda>raw.
         case raw of
           Some (c # cs) \<Rightarrow> (case loads (c # cs) of
               Inr v \<Rightarrow> aret v
             | Inl e \<Rightarrow> if exn_class e = JSONDecodeError \<or> exn_class e = TypeError then fresh else alift (Inl e))
         | _ \<Rightarrow> fresh))"

definition vector_query :: "env \<Rightarrow> json \<Rightarrow> int \<Rightarrow> string \<Rightarrow> pyfloat \<Rightarrow> json act" where
  "vector_query env v k namespace q = (\<lambda>w. (e_vector_query env (w_tick w) (w_vectors w) v k namespace q, tick w))"

text \<open>\<open>round(score, 3)\<close> in an f-string: integers stay integers.\<close>

definition rounded_text :: "nat \<Rightarrow> json \<Rightarrow> string result" where
  "rounded_text n j = (case j of
       JFloat x \<Rightarrow> Inr (repr_float (round_float n x))
     | JInt i \<Rightarrow> Inr (str_of_int i)
     | JBool b \<Rightarrow> Inr (if b then ''1'' else ''0'')
     | _ \<Rightarrow> Inl (Exn TypeError (''type '' @ type_name j @ '' doesn'' @ [CHR 0x27] @ ''t define __round__ method'')))"

definition recall_line :: "json \<Rightarrow> string result" where
  "recall_line match =
     rbind (json_get match ''metadata'' (JObj [])) (\<lambda>meta.
     rbind (json_get match ''score'' (JFloat (Fin 0))) (\<lambda>s.
     rbind (rounded_text 3 s) (\<lambda>score.
     rbind (json_get meta ''goal'' (JStr [])) (\<lambda>g.
     rbind (json_prefix 200 g) (\<lambda>goal.
     rbind (json_get meta ''content_preview'' (JStr [])) (\<lambda>p.
     rbind (json_prefix 300 p) (\<lambda>preview.
     Inr (''[similarity='' @ score @ ''] Goal: '' @ py_str goal @ nl @ ''Preview: '' @ py_str preview))))))))"

definition rag_recall :: "env \<Rightarrow> string \<Rightarrow> string \<Rightarrow> int \<Rightarrow> string act" where
  "rag_recall env query user top_k =
     abind (embed env query) (\<lambda>vector.
     abind (vector_query env vector top_k user min_quality) (\<lambda>response.
     abind (alift (json_get response ''matches'' (JArr []))) (\<lambda>ms.
     if \<not> truthy ms then aret ''No relevant past sessions found.''
     else abind (alift (py_iter ms)) (\<lambda>matches.
          abind (alift (rmap recall_line matches)) (\<lambda>lines. aret (join (nl @ nl) lines))))))"

section \<open>HTTP caller (tools/api_caller.py)\<close>

definition allowed_methods :: "string list" where
  "allowed_methods = [''GET'', ''POST'', ''PUT'', ''DELETE'', ''PATCH'']"

definition http_call :: "env \<Rightarrow> string \<Rightarrow> string \<Rightarrow> string dict \<Rightarrow> json \<Rightarrow> string act" where
  "http_call env m url headers body = (\<lambda>w.
     ((case e_http env (w_tick w) m url headers body of
         Inr (http_status, text) \<Rightarrow> Inr (''HTTP '' @ str_of_int http_status @ nl @ take 8000 text)
       | Inl HttpTimeout \<Rightarrow> Inr (''Error: request to '' @ py_repr url @ '' timed out after 30.0s'')
       | Inl (HttpRequestError msg) \<Rightarrow> Inr (''Error: request failed '' @ dash @ '' '' @ msg)
       | Inl (HttpOther e) \<Rightarrow> Inl e), tick w))"

definition api_caller :: "env \<Rightarrow> string \<Rightarrow> string \<Rightarrow> string dict \<Rightarrow> json \<Rightarrow> string act" where
  "api_caller env url method headers body =
     (let m = upper method in
      if m \<notin> set allowed_methods
      then aret (''Error: method '' @ py_repr m @ '' not allowed. Use one of ''
             @ repr_json (JArr (map JStr (sort allowed_methods))) @ ''.'')
      else http_call env m url headers body)"

section \<open>Paths and files (tools/file_writer.py)\<close>

text \<open>An absolute path is the list of its components.\<close>

definition workspace_root :: "string list" where
  "workspace_root = [''tmp'', ''nexus'', ''workspace'']"

fun split_slash :: "string \<Rightarrow> string \<Rightarrow> string list" where
  "split_slash cur [] = [rev cur]"
| "split_slash cur (c # s) = (if c = CHR ''/'' then rev cur # split_slash [] s else split_slash (c # cur) s)"

fun walk :: "string list \<Rightarrow> string list \<Rightarrow> string list" where
  "walk base [] = base"
| "walk base (p # ps) =
     (if p = [] \<or> p = ''.'' then walk base ps
      else if p = ''..'' then walk (butlast base) ps
      else walk (base @ [p]) ps)"

text \<open>\<open>(base / p).resolve()\<close>: an absolute second operand replaces the first.\<close>

definition resolve_under :: "string list \<Rightarrow> string \<Rightarrow> string list" where
  "resolve_under base p = walk (if startswith p ''/'' then [] else base) (split_slash [] p)"

fun slashed :: "string list \<Rightarrow> string" where
  "slashed [] = []"
| "slashed (c # cs) = ''/'' @ c @ slashed cs"

definition path_str :: "string list \<Rightarrow> string" where
  "path_str cs = (if cs = [] then ''/'' else slashed cs)"

text \<open>\<open>resolve()\<close> asks the system about every component, which refuses one with a null character.\<close>

definition resolved :: "string list \<Rightarrow> string \<Rightarrow> string list result" where
  "resolved base p = (if CHR 0x00 \<in> set p then Inl (Exn ValueError ''embedded null byte'')
     else Inr (resolve_under base p))"

definition safe_path :: "string \<Rightarrow> string \<Rightarrow> string list result" where
  "safe_path sid relative_path =
     rbind (resolved workspace_root sid) (\<lambda>workspace.
     rbind (resolved workspace relative_path) (\<lambda>target.
     if \<not> startswith (path_str target) (path_str workspace)
     then Inl (Exn PermissionError (''Path traversal blocked: '' @ py_repr relative_path
            @ '' escapes workspace '' @ path_str workspace))
     else Inr target))"

definition file_write :: "string \<Rightarrow> string \<Rightarrow> string \<Rightarrow> string act" where
  "file_write sid relative_path content =
     abind (alift (safe_path sid relative_path)) (\<lambda>target. \<lambda>w.
       (Inr (''Written '' @ str_of_nat (length content) @ '' bytes to '' @ path_str target),
        w\<lparr>w_files := (w_files w)(target := Some content)\<rparr>))"

definition file_read :: "string \<Rightarrow> string \<Rightarrow> string act" where
  "file_read sid relative_path =
     abind (alift (safe_path sid relative_path)) (\<lambda>target. \<lambda>w.
       (Inr (case w_files w target of None \<Rightarrow> ''File not found: '' @ relative_path | Some text \<Rightarrow> text), w))"

section \<open>Costs\<close>

lemma cost_oracle [simp]:
  "llm_cost (embedding_call env t) n" "llm_cost (vector_query env v k ns q) n" "llm_cost (tavily_search env t i) n"
  "llm_cost (execute_code env src tm tid) n"
  by (auto simp: llm_cost_def embedding_call_def vector_query_def tavily_search_def execute_code_def Let_def)

lemma cost_redis_ops [simp]:
  "llm_cost (redis_get env k) n" "llm_cost (redis_set env k v ttl) n"
  by (simp_all add: redis_get_def redis_set_def)

lemma cost0_abind: "llm_cost m 0 \<Longrightarrow> (\<And>x. llm_cost (f x) 0) \<Longrightarrow> llm_cost (abind m f) 0"
  using cost_abind [of m 0 f 0] by simp

lemma cost_embed: "llm_cost (embed env t) 0"
proof -
  have f: "llm_cost (abind (embedding_call env x) (\<lambda>vector.
      abind (redis_set env k (dumps default_opts vector) ttl) (\<lambda>_. aret vector))) 0" for x k ttl
    by (intro cost0_abind) simp_all
  show ?thesis unfolding embed_def Let_def
    by (intro cost0_abind) (auto split: option.split list.split sum.split intro: f)
qed

lemma cost_rag_recall: "llm_cost (rag_recall env q u k) 0"
  unfolding rag_recall_def
proof (intro cost0_abind cost_embed)
  fix x y z
  show "llm_cost (if \<not> truthy z then aret ''No relevant past sessions found.''
     else abind (alift (py_iter z)) (\<lambda>matches.
          abind (alift (rmap recall_line matches)) (\<lambda>lines. aret (join (nl @ nl) lines)))) 0"
    by (cases "truthy z") (auto intro!: cost0_abind)
qed simp_all

lemma keeps_oracle:
  "act_keeps world_le (embedding_call env t)" "act_keeps world_le (vector_query env v k ns q)"
  "act_keeps world_le (tavily_search env t' i)" "act_keeps world_le (execute_code env src tm tid)"
  by (simp_all add: act_keeps_def world_le_def embedding_call_def vector_query_def tavily_search_def
      execute_code_def Let_def)

lemma keeps_redis_ops:
  "act_keeps world_le (redis_get env k)" "act_keeps world_le (redis_set env k v ttl)"
  by (simp_all add: redis_get_def redis_set_def keeps_redis)

lemma keeps_embed: "act_keeps world_le (embed env t)"
proof -
  have f: "act_keeps world_le (abind (embedding_call env x) (\<lambda>vector.
      abind (redis_set env k (dumps default_opts vector) ttl) (\<lambda>_. aret vector)))" for x k ttl
    by (intro grow.keeps_abind keeps_oracle keeps_redis_ops grow.keeps_aret)
  show ?thesis unfolding embed_def Let_def
    by (intro grow.keeps_abind keeps_redis_ops)
       (auto split: option.split list.split sum.split intro: f)
qed

lemma keeps_rag_recall: "act_keeps world_le (rag_recall env q u k)"
  unfolding rag_recall_def
proof (intro grow.keeps_abind keeps_embed keeps_oracle grow.keeps_alift)
  fix z
  show "act_keeps world_le (if \<not> truthy z then aret ''No relevant past sessions found.''
     else abind (alift (py_iter z)) (\<lambda>matches.
          abind (alift (rmap recall_line matches)) (\<lambda>lines. aret (join (nl @ nl) lines))))"
  proof (cases "truthy z")
    case True
    have "act_keeps world_le (abind (alift (py_iter z)) (\<lambda>matches.
          abind (alift (rmap recall_line matches)) (\<lambda>lines. aret (join (nl @ nl) lines))))"
      by (intro grow.keeps_abind grow.keeps_alift grow.keeps_aret)
    with True show ?thesis by (simp only: if_False not_True_eq_False)
  qed (simp only: if_True not_False_eq_True grow.keeps_aret)
qed

section \<open>Confinement of paths\<close>

definition comp_ok :: "string \<Rightarrow> bool" where
  "comp_ok c \<longleftrightarrow> c \<noteq> [] \<and> CHR ''/'' \<notin> set c"

lemma slashed_append: "slashed (xs @ ys) = slashed xs @ slashed ys"
  by (induction xs) auto

lemma split_slash_ok: "CHR ''/'' \<notin> set cur \<Longrightarrow> p \<in> set (split_slash cur s) \<Longrightarrow> CHR ''/'' \<notin> set p"
  by (induction cur s rule: split_slash.induct) (auto split: if_splits)

lemma walk_ok:
  assumes "\<forall>p \<in> set ps. CHR ''/'' \<notin> set p" "\<forall>c \<in> set base. comp_ok c"
  shows "\<forall>c \<in> set (walk base ps). comp_ok c"
  using assms
proof (induction base ps rule: walk.induct)
  case (2 base p ps)
  have ps: "\<forall>p \<in> set ps. CHR ''/'' \<notin> set p" using "2.prems"(1) by simp
  consider "p = [] \<or> p = ''.''" | "\<not> (p = [] \<or> p = ''.'')" "p = ''..''" | "\<not> (p = [] \<or> p = ''.'')" "p \<noteq> ''..''"
    by blast
  then show ?case
  proof cases
    case 1
    with "2.IH"(1) [OF 1 ps "2.prems"(2)] show ?thesis by (simp only: walk.simps if_True)
  next
    case 2
    have "\<forall>c \<in> set (butlast base). comp_ok c" using "2.prems"(2) by (blast dest: in_set_butlastD)
    from "2.IH"(2) [OF 2 ps this] 2 show ?thesis by (simp only: walk.simps if_True if_False refl)
  next
    case 3
    then have "comp_ok p" using "2.prems"(1) by (simp add: comp_ok_def)
    with "2.prems"(2) have "\<forall>c \<in> set (base @ [p]). comp_ok c" by auto
    from "2.IH"(3) [OF 3 ps this] 3 show ?thesis by (simp only: walk.simps if_False)
  qed
qed simp

lemma resolve_ok: "\<forall>c \<in> set base. comp_ok c \<Longrightarrow> \<forall>c \<in> set (resolve_under base p). comp_ok c"
  unfolding resolve_under_def by (rule walk_ok) (auto dest: split_slash_ok [rotated])

lemma root_ok: "\<forall>c \<in> set workspace_root. comp_ok c"
  by (simp add: workspace_root_def comp_ok_def)

lemma slashed_head: "slashed cs = [] \<or> (\<exists>r. slashed cs = CHR ''/'' # r)"
  by (cases cs) auto

text \<open>A component without a slash that is a prefix of such a path is a prefix of its first component.\<close>

lemma comp_prefix:
  assumes "CHR ''/'' \<notin> set a" "a @ r = b @ slashed cs"
  shows "\<exists>s. b = a @ s"
proof -
  from assms(2) consider (1) s where "b = a @ s" | (2) s where "a = b @ s" "s @ r = slashed cs" "s \<noteq> []"
    by (auto simp: append_eq_append_conv2) (metis append_Nil2)
  then show ?thesis
  proof cases
    case 2
    from slashed_head [of cs] 2(2,3) have "CHR ''/'' \<in> set s" by (cases s) auto
    with assms(1) 2(1) show ?thesis by simp
  qed blast
qed

lemma comp_exact:
  assumes "CHR ''/'' \<notin> set a" "CHR ''/'' \<notin> set b" "a @ CHR ''/'' # r = b @ slashed cs"
  shows "a = b \<and> slashed cs = CHR ''/'' # r"
proof -
  from comp_prefix [OF assms(1,3)] obtain s where s: "b = a @ s" by blast
  with assms(3) have e: "CHR ''/'' # r = s @ slashed cs" by simp
  have "s = []" using e assms(2) s by (cases s) auto
  with s e show ?thesis by simp
qed

lemma slashed_prefix_iff:
  assumes "\<forall>c \<in> set ws. comp_ok c" "\<forall>c \<in> set t. comp_ok c" "ws \<noteq> []"
  shows "(\<exists>r. slashed t = slashed ws @ r) \<longleftrightarrow> (\<exists>s rest. t = butlast ws @ (last ws @ s) # rest)"
  using assms
proof (induction ws arbitrary: t)
  case (Cons a ws)
  show ?case
  proof
    assume "\<exists>s rest. t = butlast (a # ws) @ (last (a # ws) @ s) # rest"
    then obtain s rest where t: "t = butlast (a # ws) @ (last (a # ws) @ s) # rest" by blast
    have l: "butlast (a # ws) @ [last (a # ws)] = a # ws" by (rule append_butlast_last_id) simp
    have "slashed t = slashed (butlast (a # ws)) @ slashed [last (a # ws)] @ (s @ slashed rest)"
      unfolding t slashed_append by simp
    also have "\<dots> = slashed (butlast (a # ws) @ [last (a # ws)]) @ (s @ slashed rest)"
      by (simp only: slashed_append append_assoc)
    finally have "slashed t = slashed (a # ws) @ (s @ slashed rest)" unfolding l .
    then show "\<exists>r. slashed t = slashed (a # ws) @ r" by blast
  next
    assume "\<exists>r. slashed t = slashed (a # ws) @ r"
    then obtain r where r: "slashed t = slashed (a # ws) @ r" by blast
    then obtain b t' where t: "t = b # t'" by (cases t) auto
    have ok: "CHR ''/'' \<notin> set a" "CHR ''/'' \<notin> set b" using Cons.prems t by (auto simp: comp_ok_def)
    from r have e: "b @ slashed t' = a @ slashed ws @ r" by (simp add: t)
    show "\<exists>s rest. t = butlast (a # ws) @ (last (a # ws) @ s) # rest"
    proof (cases ws)
      case Nil
      with comp_prefix [OF ok(1), of r b t'] e show ?thesis by (auto simp: t)
    next
      case (Cons c ws')
      then have "a @ CHR ''/'' # (c @ slashed ws' @ r) = b @ slashed t'" using e by simp
      from comp_exact [OF ok this] Cons have ab: "a = b" and e': "slashed t' = slashed ws @ r" by simp_all
      have "\<exists>s rest. t' = butlast ws @ (last ws @ s) # rest"
        using Cons.IH [of t'] Cons.prems e' t Cons by auto
      with ab Cons show ?thesis by (auto simp: t)
    qed
  qed
qed simp

lemma safe_path_iff:
  assumes "ws = resolve_under workspace_root sid" "t = resolve_under ws rel"
  shows "safe_path sid rel = Inr t' \<longleftrightarrow> CHR 0x00 \<notin> set sid \<union> set rel \<and> t' = t
    \<and> (ws = [] \<or> (\<exists>s rest. t = butlast ws @ (last ws @ s) # rest))"
proof -
  have sp: "safe_path sid rel = Inr t' \<longleftrightarrow> CHR 0x00 \<notin> set sid \<union> set rel \<and> t' = t \<and> startswith (path_str t) (path_str ws)"
    unfolding safe_path_def resolved_def assms by auto
  show ?thesis
proof (cases "ws = []")
  case True
  then have "startswith (path_str t) (path_str ws)"
    by (cases t) (auto simp: path_str_def startswith_def)
  with True show ?thesis by (simp add: sp)
next
  case False
  have w: "\<forall>c \<in> set ws. comp_ok c" unfolding assms(1) by (rule resolve_ok [OF root_ok])
  have tk: "\<forall>c \<in> set t. comp_ok c" unfolding assms(2) by (rule resolve_ok [OF w])
  have "startswith (path_str t) (path_str ws) \<longleftrightarrow> (\<exists>r. slashed t = slashed ws @ r)"
    using False w by (cases t; cases ws) (auto simp: path_str_def startswith_iff comp_ok_def)
  with slashed_prefix_iff [OF w tk False] False show ?thesis by (simp add: sp)
qed
qed

section \<open>Properties\<close>

text \<open>A sandbox call always produces a result: success only when the server reported success,
  at most 5000 characters of output and 2000 of error text, a failed call reported as an
  unsuccessful result with exit code -1; and the server is never asked for more than 30 seconds.\<close>

theorem execute_code_result:
  "\<exists>res. fst (execute_code env src timeout tid w) = Inr res
     \<and> length (sr_stdout res) \<le> 5000 \<and> length (sr_stderr res) \<le> 2000
     \<and> (\<exists>t \<le> 30. t \<le> timeout \<and>
          (case e_sandbox env (w_tick w) \<lparr>rq_code = src, rq_timeout = t, rq_task_id = tid\<rparr> (t + 5) of
             Inr r \<Rightarrow> sr_success res = rs_success r \<and> sr_exit_code res = rs_exit_code r
           | Inl e \<Rightarrow> \<not> sr_success res \<and> sr_exit_code res = - 1 \<and> sr_stdout res = []))"
  by (auto simp: execute_code_def Let_def stdout_max_def stderr_max_def hard_timeout_def
      intro!: exI [of _ "min timeout 30"] split: sum.splits rpc_error.splits)

text \<open>C35: The path check accepts a path, in which neither the session id nor the path has a null character,
  exactly when it resolves inside the session's workspace or inside a sibling directory whose
  name extends the workspace's name: the check compares strings and does not end the prefix at
  a separator.\<close>

theorem safe_path_accepts:
  assumes "resolve_under workspace_root sid = ws @ [name]"
  shows "safe_path sid rel = Inr t \<longleftrightarrow> CHR 0x00 \<notin> set sid \<union> set rel
    \<and> t = resolve_under (ws @ [name]) rel \<and> (\<exists>suffix rest. t = ws @ (name @ suffix) # rest)"
  using safe_path_iff [OF assms [symmetric] refl, of rel t] by auto

theorem safe_path_accepts_witness:
  "safe_path ''abc'' ''../abcd/notes.txt'' = Inr [''tmp'', ''nexus'', ''workspace'', ''abcd'', ''notes.txt'']"
proof -
  have 1: "resolve_under workspace_root ''abc'' = [''tmp'', ''nexus'', ''workspace''] @ [''abc'']" by code_simp
  have 2: "resolve_under ([''tmp'', ''nexus'', ''workspace''] @ [''abc'']) ''../abcd/notes.txt''
     = [''tmp'', ''nexus'', ''workspace'', ''abcd'', ''notes.txt'']" by code_simp
  show ?thesis unfolding safe_path_accepts [OF 1] 2 by simp
qed

text \<open>Sessions whose ids are plain directory names of one length, as UUIDs are, cannot reach
  each other's files: a path accepted for one session never lies in the workspace of another.\<close>

theorem safe_path_separates_sessions:
  assumes "resolve_under workspace_root a = workspace_root @ [a]"
    and "length b = length a" "b \<noteq> a" "safe_path a rel = Inr t"
  shows "\<nexists>rest. t = (workspace_root @ [b]) @ rest"
proof
  assume "\<exists>rest. t = (workspace_root @ [b]) @ rest"
  then obtain rest where t: "t = (workspace_root @ [b]) @ rest" by blast
  from safe_path_iff [OF assms(1) [symmetric] refl] assms(4) obtain s rest' where "t = workspace_root @ (a @ s) # rest'"
    by auto
  with t have "b = a @ s" by simp
  with assms(2,3) show False by simp
qed

theorem safe_path_separates_sessions_witness:
  "\<exists>t. safe_path ''s1'' ''sub/../f'' = Inr t \<and> (\<nexists>rest. t = (workspace_root @ [''s2'']) @ rest)"
proof -
  have 1: "resolve_under workspace_root ''s1'' = workspace_root @ [''s1'']" by code_simp
  have 2: "safe_path ''s1'' ''sub/../f'' = Inr [''tmp'', ''nexus'', ''workspace'', ''s1'', ''f'']" by code_simp
  have "\<nexists>rest. [''tmp'', ''nexus'', ''workspace'', ''s1'', ''f''] = (workspace_root @ [''s2'']) @ rest"
    by (rule safe_path_separates_sessions [OF 1 _ _ 2]) simp_all
  with 2 show ?thesis by blast
qed

lemma format_results_nonempty: "format_results rs = Inr t \<Longrightarrow> t \<noteq> []"
proof -
  assume t: "format_results rs = Inr t"
  have line: "format_result r = Inr l \<Longrightarrow> l \<noteq> []" for r l
    by (auto simp: format_result_def rbind_eq_Inr)
  from t obtain ls where ls: "rmap format_result rs = Inr ls" "t = (if ls \<noteq> [] then join nl ls else ''No results found.'')"
    by (auto simp: format_results_def rbind_eq_Inr)
  from ls(1) have "\<forall>l \<in> set ls. l \<noteq> []"
    using line by (fastforce simp: rmap_eq_Inr list_all2_conv_all_nth in_set_conv_nth)
  with ls(2) show ?thesis by (cases ls rule: remdups_adj.cases) (auto simp: nl_def)
qed

text \<open>A web search that succeeds is remembered: the same query within the hour answers the same
  text from the cache with one Redis command and no second search.\<close>

theorem web_search_cached:
  assumes "web_search env q n w = (Inr text, w1)"
    and "db_get (now env w) (search_key env q) (w_redis w) = Inr None"
    and "e_redis_error env (w_tick w1) = None" "e_time env (w_tick w1) < e_time env (w_tick w + 2) + 3600"
  shows "\<exists>w2. web_search env q m w1 = (Inr text, w2) \<and> w_tick w2 = Suc (w_tick w1)"
proof -
  let ?k = "search_key env q"
  have up0: "e_redis_error env (w_tick w) = None"
    using assms(1) by (auto simp: web_search_def abind_def redis_get_def redis_cmd_def split: option.splits)
  have g: "redis_get env ?k w = (Inr None, tick w)"
    using up0 assms(2) by (simp add: redis_get_def redis_cmd_def)
  from assms(1) g obtain rs where f: "format_results rs = Inr text"
    and s: "redis_set env ?k text (Some search_ttl) (tick (tick w)) = (Inr (), w1)"
    by (auto simp: web_search_def abind_Inr tavily_search_def)
  from s have w1: "w1 = tick (tick (tick w)\<lparr>w_redis := db_set (now env (tick (tick w))) ?k text (Some search_ttl) (w_redis w)\<rparr>)"
    by (simp add: redis_set_def redis_cmd_def split: option.splits)
  obtain c cs where tx: "text = c # cs" using format_results_nonempty [OF f] by (cases "text") auto
  have "now env w1 < now env (tick (tick w)) + search_ttl"
    using assms(4) by (simp add: now_def search_ttl_def tick_def numeral_eq_Suc)
  then have "db_get (now env w1) ?k (w_redis w1) = Inr (Some text)"
    using redis.get_set_live [of "Some search_ttl" "now env w1" "now env (tick (tick w))" ?k "text" "w_redis w"]
    by (simp add: w1)
  then have "redis_get env ?k w1 = (Inr (Some text), tick w1)"
    using assms(3) by (simp add: redis_get_def redis_cmd_def)
  then have "web_search env q m w1 = (Inr text, tick w1)" by (simp add: web_search_def tx)
  then show ?thesis by simp
qed

theorem web_search_cached_witness:
  "\<exists>w2. web_search (calm_env (\<lambda>n p. Inr JNull)) ''q'' 5 (snd (web_search (calm_env (\<lambda>n p. Inr JNull)) ''q'' 5 fresh_world))
     = (Inr ''No results found.'', w2) \<and> w_tick w2 = 4"
proof -
  let ?e = "calm_env (\<lambda>n p. Inr JNull)" and ?t = "''No results found.''"
  let ?w1 = "snd (web_search ?e ''q'' 5 fresh_world)"
  have "fst (web_search ?e ''q'' 5 fresh_world) = Inr ?t" and t: "w_tick ?w1 = 3" by code_simp+
  then have 1: "web_search ?e ''q'' 5 fresh_world = (Inr ?t, ?w1)" by (metis prod.collapse)
  have 2: "db_get (now ?e fresh_world) (search_key ?e ''q'') (w_redis fresh_world) = Inr None"
    by (simp add: fresh_world_def db_get_def)
  have 3: "e_time ?e (w_tick ?w1) < e_time ?e (w_tick fresh_world + 2) + 3600"
    by (simp add: t) (simp add: calm_env_def fresh_world_def)
  from web_search_cached [OF 1 2 calm_redis 3, of 5] t show ?thesis by simp
qed

text \<open>A file that a session writes is what it reads back from the same path, and no other
  file changes.\<close>

theorem file_write_read:
  assumes "file_write sid rel content w = (Inr msg, w')"
  shows "fst (file_read sid rel w') = Inr content
    \<and> (\<forall>t. safe_path sid rel \<noteq> Inr t \<longrightarrow> w_files w' t = w_files w t)"
proof -
  from assms obtain t where t: "safe_path sid rel = Inr t" "w' = w\<lparr>w_files := (w_files w)(t := Some content)\<rparr>"
    by (cases "safe_path sid rel") (auto simp: file_write_def abind_def)
  then show ?thesis by (simp add: file_read_def abind_def)
qed

theorem file_write_read_witness:
  "fst (file_read ''s1'' ''out.txt'' (snd (file_write ''s1'' ''out.txt'' ''hi'' fresh_world))) = Inr ''hi''"
proof -
  have "is_ok (fst (file_write ''s1'' ''out.txt'' ''hi'' fresh_world))" by code_simp
  then obtain m w' where m: "file_write ''s1'' ''out.txt'' ''hi'' fresh_world = (Inr m, w')" using is_ok_run by blast
  from file_write_read [OF m] show ?thesis by (simp add: m)
qed

end
