(* ===== verification/Topo.thy ===== *)
theory Topo
  imports TaskDag "HOL-Library.Multiset"
begin

text \<open>
  \<open>topological_sort\<close> of \<open>backend/agents/researcher.py\<close>: Kahn's algorithm by levels,
  used by the researcher and the executor. It is shown to compute the layering of
  the plan: every level holds exactly the tasks that are not in an earlier level and
  whose dependencies all are.
\<close>

section \<open>The algorithm\<close>

text \<open>The pairs the two nested loops over tasks and their dependencies visit.\<close>

definition dep_pairs :: "task_node list \<Rightarrow> (string \<times> string) list" where
  "dep_pairs tasks = concat (map (\<lambda>t. map (\<lambda>d. (task_id t, d)) (depends_on t)) tasks)"

definition count_dep :: "string \<times> string \<Rightarrow> int dict \<times> string list dict \<Rightarrow> int dict \<times> string list dict" where
  "count_dep p s = (case p of (t, d) \<Rightarrow> case s of (deg, dependents) \<Rightarrow>
     (dset t (dget_or deg t 0 + 1) deg, dset d (dget_or dependents d [] @ [t]) dependents))"

text \<open>The inner loop of a level: decrement, and enqueue what reaches zero.\<close>

fun relax :: "string list \<Rightarrow> int dict \<Rightarrow> string list \<Rightarrow> int dict \<times> string list" where
  "relax [] deg q = (deg, q)"
| "relax (d # ds) deg q =
     (let c = dget_or deg d 0 - 1
      in relax ds (dset d c deg) (if c = 0 then q @ [d] else q))"

definition pos_keys :: "int dict \<Rightarrow> string set" where
  "pos_keys deg = {x. \<exists>c. dget deg x = Some c \<and> 0 < c}"

lemma finite_pos_keys [simp]: "finite (pos_keys deg)"
proof (rule finite_subset)
  show "pos_keys deg \<subseteq> set (dkeys deg)"
    using dget_eq_None_iff [of deg] by (force simp: pos_keys_def)
qed simp

lemma relax_pos:
  "relax ds deg q = (deg', q') \<Longrightarrow>
     pos_keys deg' \<subseteq> pos_keys deg \<and> (\<forall>x \<in> set q'. x \<in> set q \<or> x \<in> pos_keys deg - pos_keys deg')"
proof (induction ds deg q rule: relax.induct)
  case (2 d ds deg q)
  define c where "c = dget_or deg d 0 - 1"
  have sub: "pos_keys (dset d c deg) \<subseteq> pos_keys deg"
    by (auto simp: pos_keys_def c_def dget_or_def split: option.splits if_splits)
  have zero: "d \<in> pos_keys deg - pos_keys (dset d c deg)" if "c = 0"
    using that by (auto simp: pos_keys_def c_def dget_or_def split: option.splits)
  from "2.prems" have "relax ds (dset d c deg) (if c = 0 then q @ [d] else q) = (deg', q')"
    by (simp add: c_def Let_def)
  note IH = "2.IH" [of c, folded c_def, OF refl this]
  show ?case
    using IH sub zero by (auto split: if_splits)
qed simp

function kahn :: "string list dict \<Rightarrow> string list \<Rightarrow> int dict \<Rightarrow> string list list" where
  "kahn dependents queue deg =
     (if queue = [] then []
      else (let (deg', queue') = relax (concat (map (\<lambda>tid. dget_or dependents tid []) queue)) deg []
            in queue # kahn dependents queue' deg'))"
  by pat_completeness auto

text \<open>The loop ends: a level that enqueues a task makes its in-degree drop to zero, for good.\<close>

termination
proof (relation "measure (\<lambda>(dependents, q, deg). card (pos_keys deg) + (if q = [] then 0 else 1))")
  fix dependents :: "string list dict" and q q' :: "string list" and deg deg' :: "int dict" and x
  assume q: "q \<noteq> []" and x: "x = relax (concat (map (\<lambda>tid. dget_or dependents tid []) q)) deg []"
    and "(deg', q') = x"
  then have r: "relax (concat (map (\<lambda>tid. dget_or dependents tid []) q)) deg [] = (deg', q')" by simp
  have "card (pos_keys deg') \<le> card (pos_keys deg)"
    using relax_pos [OF r] by (intro card_mono) auto
  moreover have "card (pos_keys deg') < card (pos_keys deg)" if "q' \<noteq> []"
  proof (rule psubset_card_mono)
    from that obtain y where "y \<in> set q'" by (cases q') auto
    with relax_pos [OF r] show "pos_keys deg' \<subset> pos_keys deg" by auto
  qed simp
  ultimately show "((dependents, q', deg'), (dependents, q, deg))
      \<in> measure (\<lambda>(dependents, q, deg). card (pos_keys deg) + (if q = [] then 0 else 1))"
    using q by auto
qed simp

declare kahn.simps [simp del]

definition topological_sort :: "task_node list \<Rightarrow> task_node list list" where
  "topological_sort tasks =
     (let deg0 = fold (\<lambda>t. dset (task_id t) 0) tasks [];
          (deg, dependents) = fold count_dep (dep_pairs tasks) (deg0, []);
          by_id = fold (\<lambda>t. dset (task_id t) t) tasks [];
          queue = map fst (filter (\<lambda>(tid, c). c = 0) deg)
      in map (\<lambda>level. concat (map (\<lambda>tid. case dget by_id tid of Some t \<Rightarrow> [t] | None \<Rightarrow> []) level))
           (kahn dependents queue deg))"

section \<open>The layering it computes\<close>

definition ready_ids :: "task_node list \<Rightarrow> string set \<Rightarrow> string set" where
  "ready_ids tasks P = {x. \<exists>t \<in> set tasks. task_id t = x \<and> x \<notin> P \<and> set (depends_on t) \<subseteq> P}"

fun layered :: "task_node list \<Rightarrow> string set \<Rightarrow> string list list \<Rightarrow> bool" where
  "layered tasks P [] = (ready_ids tasks P = {})"
| "layered tasks P (L # Ls) =
     (L \<noteq> [] \<and> distinct L \<and> set L = ready_ids tasks P \<and> layered tasks (P \<union> set L) Ls)"

lemma relax_spec:
  assumes "relax ds deg q = (deg', q')" "set ds \<subseteq> set (dkeys deg)"
  shows "(\<forall>x. dget deg' x = map_option (\<lambda>c. c - int (count_list ds x)) (dget deg x))
    \<and> (\<exists>qs. q' = q @ qs \<and> distinct qs
        \<and> (\<forall>x. x \<in> set qs \<longleftrightarrow> (\<exists>c. dget deg x = Some c \<and> 0 < c \<and> c \<le> int (count_list ds x))))"
  using assms
proof (induction ds deg q arbitrary: deg' q' rule: relax.induct)
  case (1 deg q)
  then show ?case by (auto simp: option.map_ident)
next
  case (2 d ds deg q)
  from "2.prems"(2) obtain c0 where c0: "dget deg d = Some c0"
    using dget_eq_None_iff [of deg d] by auto
  define c where "c = c0 - 1"
  have r: "relax ds (dset d c deg) (if c = 0 then q @ [d] else q) = (deg', q')"
    using "2.prems"(1) c0 by (simp add: c_def dget_or_def Let_def)
  have keys: "set ds \<subseteq> set (dkeys (dset d c deg))" using "2.prems"(2) by auto
  have ceq: "c = dget_or deg d 0 - 1" by (simp add: c_def c0 dget_or_def)
  from "2.IH" [OF ceq r keys] obtain qs where IHd: "\<And>x. dget deg' x = map_option (\<lambda>c. c - int (count_list ds x)) (dget (dset d c deg) x)"
    and q': "q' = (if c = 0 then q @ [d] else q) @ qs" "distinct qs"
    and IHq: "\<And>x. x \<in> set qs \<longleftrightarrow> (\<exists>k. dget (dset d c deg) x = Some k \<and> 0 < k \<and> k \<le> int (count_list ds x))"
    by blast
  have 1: "dget deg' x = map_option (\<lambda>c. c - int (count_list (d # ds) x)) (dget deg x)" for x
    by (simp add: IHd c0 c_def)
  define qs' where "qs' = (if c = 0 then [d] else []) @ qs"
  have "q' = q @ qs'" by (simp add: q' qs'_def)
  moreover have "distinct qs'"
    using q'(2) IHq [of d] by (auto simp: qs'_def)
  moreover have "x \<in> set qs' \<longleftrightarrow> (\<exists>k. dget deg x = Some k \<and> 0 < k \<and> k \<le> int (count_list (d # ds) x))" for x
    using IHq [of x] c0 by (auto simp: qs'_def c_def)
  ultimately show ?case using 1 by blast
qed

text \<open>What the two counting loops build.\<close>

lemma fold_count_dep:
  assumes "fold count_dep ps (deg, dts) = (deg', dts')"
  shows "dget deg' x = (if x \<in> set (map fst ps) \<or> dget deg x \<noteq> None
           then Some (dget_or deg x 0 + int (length (filter (\<lambda>p. fst p = x) ps))) else None)"
    and "dget_or dts' d [] = dget_or dts d [] @ map fst (filter (\<lambda>p. snd p = d) ps)"
    and "set (map fst ps) \<subseteq> set (dkeys deg) \<Longrightarrow> dkeys deg' = dkeys deg"
  using assms
proof (induction ps arbitrary: deg dts)
  case Nil
  { case 1 then show ?case by (auto simp: dget_or_def) }
  { case 2 then show ?case by simp }
  { case 3 then show ?case by simp }
next
  case (Cons p ps)
  obtain t e where p: "p = (t, e)" by fastforce
  have step: "fold count_dep (p # ps) (a, b)
      = fold count_dep ps (dset t (dget_or a t 0 + 1) a, dset e (dget_or b e [] @ [t]) b)" for a b
    by (simp add: p count_dep_def)
  { case 1
    from Cons.IH(1) [OF trans [OF step [symmetric] 1]] show ?case
      by (auto simp: p dget_or_def split: option.splits) }
  { case 2
    from Cons.IH(2) [OF trans [OF step [symmetric] 2]] show ?case
      by (auto simp: p dget_or_def split: option.splits) }
  { case 3
    from Cons.IH(3) [OF _ trans [OF step [symmetric] 3(2)]] 3(1) show ?case
      by (auto simp: p dkeys_dset) }
qed

lemma fold_dset_notin: "x \<notin> f ` set ts \<Longrightarrow> dget (fold (\<lambda>t. dset (f t) (g t)) ts d) x = dget d x"
  by (induction ts arbitrary: d) auto

lemma fold_dset_in:
  "distinct (map f ts) \<Longrightarrow> t \<in> set ts \<Longrightarrow> dget (fold (\<lambda>t. dset (f t) (g t)) ts d) (f t) = Some (g t)"
proof (induction ts arbitrary: d)
  case (Cons u us)
  then show ?case by (cases "t = u") (auto simp: fold_dset_notin)
qed simp

lemma length_filter_dep_pairs:
  assumes "distinct (map task_id tasks)" "t \<in> set tasks"
  shows "filter (\<lambda>p. fst p = task_id t) (dep_pairs tasks) = map (\<lambda>d. (task_id t, d)) (depends_on t)"
  using assms
proof (induction tasks)
  case (Cons u us)
  have none: "filter (\<lambda>p. fst p = x) (dep_pairs us) = []" if "x \<notin> set (map task_id us)" for x
    using that by (auto simp: dep_pairs_def filter_empty_conv)
  show ?case
  proof (cases "task_id u = task_id t")
    case True
    with Cons.prems have "u = t" by (auto simp: distinct_map inj_on_def)
    with Cons.prems none [of "task_id t"] show ?thesis by (simp add: dep_pairs_def)
  next
    case False
    with Cons show ?thesis by (auto simp: dep_pairs_def)
  qed
qed simp

lemma count_dependents:
  assumes "distinct (map task_id tasks)" "t \<in> set tasks"
  shows "count_list (map fst (filter (\<lambda>p. snd p = d) (dep_pairs tasks))) (task_id t) = count_list (depends_on t) d"
proof -
  have "count_list (map fst (filter (\<lambda>p. snd p = d) ps)) x = count_list (map snd (filter (\<lambda>p. fst p = x) ps)) d" for ps x
    by (induction ps) auto
  then have "count_list (map fst (filter (\<lambda>p. snd p = d) (dep_pairs tasks))) (task_id t)
      = count_list (map snd (filter (\<lambda>p. fst p = task_id t) (dep_pairs tasks))) d" .
  then show ?thesis by (simp add: length_filter_dep_pairs [OF assms] comp_def)
qed

lemma count_list_concat_map:
  "count_list (concat (map f Q)) x = sum_list (map (\<lambda>q. count_list (f q) x) Q)"
  by (induction Q) (auto simp: count_list_append)

lemma sum_count_list:
  "distinct Q \<Longrightarrow> sum_list (map (count_list ds) Q) = length (filter (\<lambda>d. d \<in> set Q) ds)"
proof (induction ds)
  case (Cons d ds)
  have "sum_list (map (count_list (d # ds)) Q) = sum_list (map (count_list ds) Q) + (if d \<in> set Q then 1 else 0)"
    using Cons.prems by (induction Q) auto
  with Cons show ?case by (simp del: count_list.simps)
qed (induction Q, auto)

text \<open>The loop invariant: in-degrees count the dependencies not yet placed, the queue is
  what is ready, and what is placed has its dependencies placed.\<close>

definition kahn_inv :: "task_node list \<Rightarrow> string list dict \<Rightarrow> string set \<Rightarrow> string list \<Rightarrow> int dict \<Rightarrow> bool" where
  "kahn_inv tasks dts P Q deg \<longleftrightarrow>
     set (dkeys deg) = task_id ` set tasks
     \<and> (\<forall>t \<in> set tasks. dget deg (task_id t) = Some (int (length (filter (\<lambda>d. d \<notin> P) (depends_on t)))))
     \<and> (\<forall>d. dget_or dts d [] = map fst (filter (\<lambda>p. snd p = d) (dep_pairs tasks)))
     \<and> (\<forall>t \<in> set tasks. task_id t \<in> P \<longrightarrow> set (depends_on t) \<subseteq> P)
     \<and> distinct Q \<and> set Q = ready_ids tasks P"

lemma kahn_inv_step:
  assumes dist: "distinct (map task_id tasks)" and inv: "kahn_inv tasks dts P Q deg"
    and r: "relax (concat (map (\<lambda>tid. dget_or dts tid []) Q)) deg [] = (deg', Q')"
  shows "kahn_inv tasks dts (P \<union> set Q) Q' deg'"
proof -
  let ?ds = "concat (map (\<lambda>tid. dget_or dts tid []) Q)"
  from inv have keys: "set (dkeys deg) = task_id ` set tasks"
    and deg: "\<And>t. t \<in> set tasks \<Longrightarrow> dget deg (task_id t) = Some (int (length (filter (\<lambda>d. d \<notin> P) (depends_on t))))"
    and dts: "\<And>d. dget_or dts d [] = map fst (filter (\<lambda>p. snd p = d) (dep_pairs tasks))"
    and cl: "\<And>t. t \<in> set tasks \<Longrightarrow> task_id t \<in> P \<Longrightarrow> set (depends_on t) \<subseteq> P"
    and Q: "distinct Q" "set Q = ready_ids tasks P"
    by (auto simp: kahn_inv_def)
  have inj: "s = t" if "task_id s = task_id t" "s \<in> set tasks" "t \<in> set tasks" for s t
    using dist that by (auto simp: distinct_map inj_on_def)
  have cnt: "count_list ?ds (task_id t) = length (filter (\<lambda>d. d \<in> set Q) (depends_on t))"
    if "t \<in> set tasks" for t
    by (simp add: count_list_concat_map dts count_dependents [OF dist that] sum_count_list [OF Q(1)])
  have "set ?ds \<subseteq> set (dkeys deg)"
    unfolding keys by (auto simp: dts dep_pairs_def)
  from relax_spec [OF r this] obtain
    deg': "\<And>x. dget deg' x = map_option (\<lambda>c. c - int (count_list ?ds x)) (dget deg x)"
    and Q': "distinct Q'"
      "\<And>x. x \<in> set Q' \<longleftrightarrow> (\<exists>c. dget deg x = Some c \<and> 0 < c \<and> c \<le> int (count_list ?ds x))"
    by (auto simp del: set_concat)
  have disj: "set Q \<inter> P = {}" using Q(2) by (auto simp: ready_ids_def)
  have split: "length (filter (\<lambda>d. d \<notin> P) ds) = length (filter (\<lambda>d. d \<notin> P \<union> set Q) ds) + length (filter (\<lambda>d. d \<in> set Q) ds)" for ds
    using disj by (induction ds) auto
  have newdeg: "dget deg' (task_id t) = Some (int (length (filter (\<lambda>d. d \<notin> P \<union> set Q) (depends_on t))))"
    if "t \<in> set tasks" for t
    using deg [OF that] cnt [OF that] split [of "depends_on t"] by (simp add: deg' del: Un_iff)
  have cl': "set (depends_on t) \<subseteq> P \<union> set Q" if "t \<in> set tasks" "task_id t \<in> P \<union> set Q" for t
    using that cl Q(2) inj by (fastforce simp: ready_ids_def)
  have ready': "x \<in> set Q' \<longleftrightarrow> x \<in> ready_ids tasks (P \<union> set Q)" for x
  proof
    assume "x \<in> set Q'"
    then obtain c where c: "dget deg x = Some c" "0 < c" "c \<le> int (count_list ?ds x)" using Q'(2) by auto
    then have "x \<in> set (dkeys deg)" using dget_eq_None_iff [of deg x] by auto
    then obtain t where t: "t \<in> set tasks" "x = task_id t" unfolding keys by auto
    have "filter (\<lambda>d. d \<notin> P) (depends_on t) \<noteq> []" using c deg [OF t(1)] t(2) by auto
    then have nP: "\<not> set (depends_on t) \<subseteq> P" by (auto simp: filter_empty_conv)
    have "c = int (length (filter (\<lambda>d. d \<notin> P) (depends_on t)))" using c(1) deg [OF t(1)] t(2) by simp
    moreover have "count_list ?ds x = length (filter (\<lambda>d. d \<in> set Q) (depends_on t))"
      using cnt [OF t(1)] t(2) by simp
    ultimately have "length (filter (\<lambda>d. d \<notin> P \<union> set Q) (depends_on t)) = 0"
      using c(3) split [of "depends_on t"] by linarith
    then have "set (depends_on t) \<subseteq> P \<union> set Q" by (auto simp: filter_empty_conv)
    moreover have "x \<notin> P" using nP cl t by auto
    moreover have "x \<notin> set Q" using nP Q(2) t inj by (auto simp: ready_ids_def)
    ultimately show "x \<in> ready_ids tasks (P \<union> set Q)" using t by (auto simp: ready_ids_def)
  next
    assume "x \<in> ready_ids tasks (P \<union> set Q)"
    then obtain t where t: "t \<in> set tasks" "x = task_id t" "x \<notin> P" "x \<notin> set Q" "set (depends_on t) \<subseteq> P \<union> set Q"
      by (auto simp: ready_ids_def)
    then have nP: "\<not> set (depends_on t) \<subseteq> P" using Q(2) by (auto simp: ready_ids_def)
    then have "filter (\<lambda>d. d \<notin> P) (depends_on t) \<noteq> []" by (auto simp: filter_empty_conv)
    then have pos: "0 < int (length (filter (\<lambda>d. d \<notin> P) (depends_on t)))" by simp
    have "filter (\<lambda>d. d \<notin> P \<union> set Q) (depends_on t) = []" using t(5) by (auto simp: filter_empty_conv)
    then have "length (filter (\<lambda>d. d \<notin> P) (depends_on t)) = count_list ?ds x"
      unfolding t(2) cnt [OF t(1)] using split [of "depends_on t"] by (metis add_0 list.size(3))
    then have "int (length (filter (\<lambda>d. d \<notin> P) (depends_on t))) \<le> int (count_list ?ds x)" by (simp only: order_refl)
    moreover have "dget deg x = Some (int (length (filter (\<lambda>d. d \<notin> P) (depends_on t))))"
      unfolding t(2) by (rule deg [OF t(1)])
    ultimately show "x \<in> set Q'" using pos iffD2 [OF Q'(2)] by blast
  qed
  have keys': "set (dkeys deg') = task_id ` set tasks"
    unfolding keys [symmetric] set_dkeys by (simp add: deg')
  show ?thesis
    unfolding kahn_inv_def using keys' newdeg dts cl' Q'(1) ready' by blast
qed

lemma kahn_layered:
  assumes "distinct (map task_id tasks)"
  shows "kahn_inv tasks dts P Q deg \<Longrightarrow> layered tasks P (kahn dts Q deg)"
proof (induction dts Q deg arbitrary: P rule: kahn.induct)
  case (1 dts Q deg)
  obtain deg' Q' where r: "relax (concat (map (\<lambda>tid. dget_or dts tid []) Q)) deg [] = (deg', Q')"
    by fastforce
  show ?case
  proof (cases "Q = []")
    case True
    with "1.prems" show ?thesis by (simp add: kahn.simps [of dts "[]"] kahn_inv_def)
  next
    case False
    have "layered tasks (P \<union> set Q) (kahn dts Q' deg')"
      using "1.IH" [OF False r [symmetric] refl kahn_inv_step [OF assms "1.prems" r]] .
    moreover have "kahn dts Q deg = Q # kahn dts Q' deg'"
      using False r by (simp add: kahn.simps [of dts Q])
    ultimately show ?thesis
      using False "1.prems" by (simp add: kahn_inv_def)
  qed
qed

lemma topological_sort_layered:
  assumes dist: "distinct (map task_id tasks)"
  shows "layered tasks {} (map (map task_id) (topological_sort tasks))"
    and "\<Union> (set (map set (topological_sort tasks))) \<subseteq> set tasks"
proof -
  define deg0 where "deg0 = fold (\<lambda>t. dset (task_id t) (0::int)) tasks []"
  obtain deg dts where c: "fold count_dep (dep_pairs tasks) (deg0, []) = (deg, dts)" by fastforce
  define by_id where "by_id = fold (\<lambda>t. dset (task_id t) t) tasks []"
  define Q where "Q = map fst (filter (\<lambda>(tid, k). k = 0) deg)"
  have g0: "dget deg0 x = (if x \<in> task_id ` set tasks then Some 0 else None)" for x
    using fold_dset_in [OF dist, of _ "\<lambda>_. 0::int" "[]"] fold_dset_notin [of x task_id tasks "\<lambda>_. 0::int" "[]"]
    by (auto simp: deg0_def)
  have keys0: "set (dkeys deg0) = task_id ` set tasks"
    unfolding set_dkeys by (auto simp: g0)
  have ok0: "dict_ok (fold (\<lambda>t. dset (task_id t) (0::int)) ts d)" if "dict_ok d" for ts :: "task_node list" and d
    using that by (induction ts arbitrary: d) auto
  have psub: "set (map fst (dep_pairs tasks)) \<subseteq> set (dkeys deg0)"
    unfolding keys0 by (auto simp: dep_pairs_def)
  have keys: "dkeys deg = dkeys deg0" using fold_count_dep(3) [OF c psub] .
  have ok: "distinct (map fst deg)" using ok0 [of "[]" tasks] keys by (simp add: dict_ok_def deg0_def dkeys_def)
  have deg: "dget deg (task_id t) = Some (int (length (depends_on t)))" if "t \<in> set tasks" for t
    using that by (simp add: fold_count_dep(1) [OF c] g0 dget_or_def length_filter_dep_pairs [OF dist that])
  have dts: "dget_or dts d [] = map fst (filter (\<lambda>p. snd p = d) (dep_pairs tasks))" for d
    using fold_count_dep(2) [OF c, of d] by (simp add: dget_or_def)
  have setQ: "x \<in> set Q \<longleftrightarrow> dget deg x = Some 0" for x
    using map_of_eq_Some_iff [OF ok, of x 0] by (force simp: Q_def dget_def)
  have Q: "set Q = ready_ids tasks {}"
  proof (intro set_eqI)
    fix x
    show "x \<in> set Q \<longleftrightarrow> x \<in> ready_ids tasks {}"
    proof (cases "x \<in> task_id ` set tasks")
      case False
      then have "dget deg x = None" using keys keys0 by (simp add: dget_eq_None_iff)
      with False show ?thesis by (auto simp: setQ ready_ids_def)
    next
      case True
      then obtain t where t: "t \<in> set tasks" "x = task_id t" by blast
      have "s = t" if "s \<in> set tasks" "task_id s = task_id t" for s
        using that t dist by (auto simp: distinct_map inj_on_def)
      with deg [OF t(1)] t show ?thesis by (auto simp: setQ ready_ids_def)
    qed
  qed
  have inv: "kahn_inv tasks dts {} Q deg"
    unfolding kahn_inv_def using keys keys0 deg dts Q ok
    by (auto simp: Q_def distinct_map_filter)
  have lay: "layered tasks {} (kahn dts Q deg)" using kahn_layered [OF dist inv] .
  have by_id: "dget by_id (task_id t) = Some t" if "t \<in> set tasks" for t
    using fold_dset_in [OF dist that, of "\<lambda>t. t" "[]"] by (simp add: by_id_def)
  have ids: "layered tasks P Ls \<Longrightarrow> set L \<subseteq> task_id ` set tasks" if "L \<in> set Ls" for P Ls L
    using that by (induction Ls arbitrary: P) (auto simp: ready_ids_def)
  have look: "map task_id (concat (map (\<lambda>tid. case dget by_id tid of Some t \<Rightarrow> [t] | None \<Rightarrow> []) L)) = L
      \<and> set (concat (map (\<lambda>tid. case dget by_id tid of Some t \<Rightarrow> [t] | None \<Rightarrow> []) L)) \<subseteq> set tasks"
    if "set L \<subseteq> task_id ` set tasks" for L
    using that by (induction L) (auto simp: by_id)
  have ts: "topological_sort tasks = map (\<lambda>L. concat (map (\<lambda>tid. case dget by_id tid of Some t \<Rightarrow> [t] | None \<Rightarrow> []) L)) (kahn dts Q deg)"
    by (simp add: topological_sort_def deg0_def [symmetric] c by_id_def [symmetric] Q_def [symmetric] Let_def)
  have "map (map task_id) (topological_sort tasks) = kahn dts Q deg"
    unfolding ts map_map comp_def using look ids [OF _ lay] by (intro map_idI) blast
  with lay show "layered tasks {} (map (map task_id) (topological_sort tasks))" by simp
  show "\<Union> (set (map set (topological_sort tasks))) \<subseteq> set tasks"
    unfolding ts using look ids [OF _ lay] by fastforce
qed

section \<open>What a layering guarantees\<close>

lemma layered_distinct:
  "layered tasks P Ls \<Longrightarrow> distinct (concat Ls) \<and> set (concat Ls) \<inter> P = {} \<and> set (concat Ls) \<subseteq> task_id ` set tasks"
proof (induction tasks P Ls rule: layered.induct)
  case (2 tasks P L Ls)
  then have L: "distinct L" "set L = ready_ids tasks P" "layered tasks (P \<union> set L) Ls" by auto
  then have "set L \<inter> P = {}" "set L \<subseteq> task_id ` set tasks" by (auto simp: ready_ids_def)
  with "2.IH" [OF L(3)] L show ?case by auto
qed simp

lemma task_id_inj:
  "distinct (map task_id tasks) \<Longrightarrow> s \<in> set tasks \<Longrightarrow> t \<in> set tasks \<Longrightarrow> task_id s = task_id t \<Longrightarrow> s = t"
  by (auto simp: distinct_map inj_on_def)

lemma layered_order:
  "distinct (map task_id tasks) \<Longrightarrow> layered tasks P Ls \<Longrightarrow> i < length Ls \<Longrightarrow> t \<in> set tasks \<Longrightarrow> task_id t \<in> set (Ls ! i) \<Longrightarrow>
    set (depends_on t) \<subseteq> P \<union> set (concat (take i Ls))"
proof (induction tasks P Ls arbitrary: i rule: layered.induct)
  case (2 tasks P L Ls)
  show ?case
  proof (cases i)
    case 0
    with 2 obtain s where s: "s \<in> set tasks" "task_id s = task_id t" "set (depends_on s) \<subseteq> P"
      by (auto simp: ready_ids_def)
    have "s = t" using "2.prems"(1) s(1) "2.prems"(4) s(2) by (rule task_id_inj)
    with s 0 show ?thesis by simp
  next
    case (Suc j)
    with 2 show ?thesis by fastforce
  qed
qed simp

lemma layered_complete:
  assumes "deps_known tasks" "acyclic (dep_rel tasks)" "layered tasks {} Ls"
  shows "set (concat Ls) = task_id ` set tasks"
proof -
  have last: "ready_ids tasks (P \<union> set (concat Ls)) = {}" if "layered tasks P Ls" for P Ls
    using that by (induction tasks P Ls rule: layered.induct) (auto simp: Un_assoc)
  define R where "R = task_id ` set tasks - set (concat Ls)"
  have "R = {}"
  proof (rule ccontr)
    assume "R \<noteq> {}"
    then obtain x0 where x0: "x0 \<in> R" by blast
    have "dep_rel tasks \<subseteq> (\<Union>t \<in> set tasks. {task_id t} \<times> set (depends_on t))" by (auto simp: dep_rel_def)
    then have "finite (dep_rel tasks)" by (rule finite_subset) auto
    then have "wf ((dep_rel tasks)\<inverse>)" using assms(2) by (rule finite_acyclic_wf_converse)
    from wfE_min [OF this x0] obtain x where x: "x \<in> R" "\<And>d. (x, d) \<in> dep_rel tasks \<Longrightarrow> d \<notin> R"
      by (auto simp: converse_iff)
    then obtain t where t: "t \<in> set tasks" "x = task_id t" "x \<notin> set (concat Ls)" by (auto simp: R_def)
    have "set (depends_on t) \<subseteq> set (concat Ls)"
    proof
      fix d
      assume d: "d \<in> set (depends_on t)"
      with t have "d \<notin> R" by (intro x(2)) (auto simp: dep_rel_def)
      moreover have "d \<in> task_id ` set tasks" using assms(1) t d by (auto simp: deps_known_def)
      ultimately show "d \<in> set (concat Ls)" by (simp add: R_def)
    qed
    with t have "x \<in> ready_ids tasks (set (concat Ls))" unfolding ready_ids_def by blast
    with last [OF assms(3)] show False by simp
  qed
  with layered_distinct [OF assms(3)] show ?thesis by (auto simp: R_def)
qed

text \<open>The contract of \<open>topological_sort\<close> on a validated plan.\<close>

lemma topological_sort_plan:
  assumes "plan_ok tasks"
  shows "mset (concat (topological_sort tasks)) = mset tasks"
    and "i < length (topological_sort tasks) \<Longrightarrow> t \<in> set (topological_sort tasks ! i) \<Longrightarrow>
      d \<in> set (depends_on t) \<Longrightarrow> \<exists>j < i. \<exists>u \<in> set (topological_sort tasks ! j). task_id u = d"
proof -
  let ?lv = "topological_sort tasks"
  have dist: "distinct (map task_id tasks)" and dk: "deps_known tasks" and ac: "acyclic (dep_rel tasks)"
    using assms by (auto simp: plan_ok_def)
  note lay = topological_sort_layered [OF dist]
  have ids: "map task_id (concat ?lv) = concat (map (map task_id) ?lv)" by (simp add: map_concat)
  have dl: "distinct (concat ?lv)"
    using layered_distinct [OF lay(1)] unfolding ids [symmetric] by (auto simp: distinct_map)
  have sub: "set (concat ?lv) \<subseteq> set tasks" using lay(2) by auto
  have "task_id ` set (concat ?lv) = task_id ` set tasks"
    using layered_complete [OF dk ac lay(1)] unfolding ids [symmetric] by simp
  then have "set (concat ?lv) = set tasks"
    using dist inj_on_image_eq_iff [OF _ sub order_refl, of task_id] by (simp add: distinct_map)
  with dl dist show "mset (concat ?lv) = mset tasks"
    using set_eq_iff_mset_eq_distinct [of "concat ?lv" tasks] unfolding distinct_map by blast
  assume i: "i < length ?lv" and t: "t \<in> set (?lv ! i)" and d: "d \<in> set (depends_on t)"
  have "t \<in> set (concat ?lv)" using i t by (auto intro!: bexI [of _ "?lv ! i"])
  with sub have "t \<in> set tasks" by blast
  moreover have "task_id t \<in> set (map (map task_id) ?lv ! i)" using i t by simp
  ultimately have "set (depends_on t) \<subseteq> set (concat (take i (map (map task_id) ?lv)))"
    using layered_order [OF dist lay(1), of i t] i by simp
  with d obtain L where L: "L \<in> set (take i ?lv)" "d \<in> task_id ` set L"
    by (auto simp: take_map)
  then obtain j where "j < i" "?lv ! j = L"
    by (auto simp: in_set_conv_nth)
  with L(2) show "\<exists>j < i. \<exists>u \<in> set (?lv ! j). task_id u = d"
    by blast
qed

section \<open>Properties\<close>

text \<open>C10: on tasks with distinct ids the sort computes the layering of the plan: each level it
  returns is non-empty, repeats no task and holds exactly the tasks not placed before
  whose dependencies all are; it stops when no such task is left.\<close>

theorem topological_sort_is_layering:
  "distinct (map task_id tasks) \<Longrightarrow> layered tasks {} (map (map task_id) (topological_sort tasks))"
  by (rule topological_sort_layered)

theorem topological_sort_is_layering_witness:
  "layered [node_of ''a'' [''b''], node_of ''b'' []] {} [[''b''], [''a'']]"
proof -
  have d: "distinct (map task_id [node_of ''a'' [''b''], node_of ''b'' []])" by code_simp
  have l: "map (map task_id) (topological_sort [node_of ''a'' [''b''], node_of ''b'' []]) = [[''b''], [''a'']]"
    by code_simp
  show ?thesis using topological_sort_is_layering [OF d] unfolding l .
qed

text \<open>On a plan that passed validation the levels hold every task exactly once, and every
  task comes in a later level than all the tasks it depends on.\<close>

theorem topological_sort_respects_plan:
  assumes "validate_task_dag raw = Inr tasks"
  shows "mset (concat (topological_sort tasks)) = mset tasks
    \<and> (\<forall>i < length (topological_sort tasks). \<forall>t \<in> set (topological_sort tasks ! i). \<forall>d \<in> set (depends_on t).
         \<exists>j < i. \<exists>u \<in> set (topological_sort tasks ! j). task_id u = d)"
  using topological_sort_plan [OF validate_plan_ok [OF assms]] by blast

theorem topological_sort_respects_plan_witness:
  "mset (concat (topological_sort [node_of ''a'' [''b''], node_of ''b'' []]))
     = mset [node_of ''a'' [''b''], node_of ''b'' []]"
  using topological_sort_respects_plan [OF example_plan_valid] by (rule conjunct1)

end
