(* ===== verification/Researcher.thy ===== *)
theory Researcher
  imports Tools Topo
begin

text \<open>
  The researcher agent (\<open>backend/agents/researcher.py\<close>): tool dispatch per task, level by
  level. The coroutines of a level run one after the other here, in the order of the level,
  one of the schedules \<open>asyncio.gather\<close> allows; each yields its own task's text.
\<close>

definition result_max_chars :: nat where "result_max_chars = 3000"

section \<open>Dispatch\<close>

text \<open>The call with keyword arguments: binding, then the body with what was bound.\<close>

definition call_tool :: "env \<Rightarrow> string \<Rightarrow> (string \<times> bool) list \<Rightarrow> string dict \<Rightarrow> string act" where
  "call_tool env name params kw =
     abind (alift (bind_kwargs name params kw)) (\<lambda>_.
     let arg = (\<lambda>k. dget_or kw k []) in
     if name = ''rag_recall'' then rag_recall env (arg ''query'') (arg ''user_id'') 5
     else if name = ''web_search'' then web_search env (arg ''query'') 5
     else if name = ''code_exec'' then code_exec env (arg ''code'') (arg ''task_id'')
     else if name = ''file_write'' then file_write (arg ''session_id'') (arg ''relative_path'') (arg ''content'')
     else if name = ''file_read'' then file_read (arg ''session_id'') (arg ''relative_path'')
     else api_caller env (arg ''url'') (dget_or kw ''method'' ''GET'') [] JNull)"

definition research_kwargs :: "task_node \<Rightarrow> string dict" where
  "research_kwargs task = [(''query'', description task), (''session_id'', []), (''user_id'', [])]"

definition tool_failed :: "task_node \<Rightarrow> string \<Rightarrow> pyexn \<Rightarrow> string" where
  "tool_failed task hint e = ''No results found. (tool '' @ hint @ '' failed for task '' @ task_id task
     @ '': '' @ exn_str e @ '')''"

definition hint_result :: "env \<Rightarrow> task_node \<Rightarrow> string \<Rightarrow> string option act" where
  "hint_result env task hint = (case get_tool hint of
       Inl e \<Rightarrow> aret None
     | Inr params \<Rightarrow>
         acatch
           (abind (call_tool env hint params (research_kwargs task)) (\<lambda>r. aret (Some (take result_max_chars r))))
           (\<lambda>e. aret (Some (tool_failed task hint e))))"

fun hint_results :: "env \<Rightarrow> task_node \<Rightarrow> string list \<Rightarrow> string list act" where
  "hint_results env task [] = aret []"
| "hint_results env task (h # hs) =
     abind (hint_result env task h) (\<lambda>r.
     abind (hint_results env task hs) (\<lambda>rs.
     aret (case r of None \<Rightarrow> rs | Some x \<Rightarrow> x # rs)))"

definition dispatch_task :: "env \<Rightarrow> task_node \<Rightarrow> (string \<times> string) act" where
  "dispatch_task env task =
     abind (hint_results env task (tool_hints task)) (\<lambda>results.
     aret (task_id task, if results = [] then ''No research tools specified for this task.''
                         else join (nl @ nl) results))"

section \<open>Levels\<close>

text \<open>\<open>gather(*jobs, return_exceptions=True)\<close> and the loop that records its results.\<close>

fun run_level :: "env \<Rightarrow> task_node list \<Rightarrow> string dict \<Rightarrow> string dict act" where
  "run_level env [] ctx = aret ctx"
| "run_level env (t # ts) ctx =
     abind (acatch (dispatch_task env t)
              (\<lambda>e. aret (task_id t, ''No results found. ('' @ exn_str e @ '')''))) (\<lambda>(tid, tx).
     run_level env ts (dset tid tx ctx))"

fun run_levels :: "env \<Rightarrow> task_node list list \<Rightarrow> string dict \<Rightarrow> string dict act" where
  "run_levels env [] ctx = aret ctx"
| "run_levels env (l # ls) ctx = abind (run_level env l ctx) (run_levels env ls)"

definition researcher_agent :: "env \<Rightarrow> nexus_state \<Rightarrow> state_update act" where
  "researcher_agent env st =
     (if task_plan st = [] then aret (no_update\<lparr>u_research_context := Some (research_context st)\<rparr>)
      else abind (run_levels env (topological_sort (task_plan st)) (research_context st)) (\<lambda>ctx.
           aret (no_update\<lparr>u_research_context := Some ctx\<rparr>)))"

section \<open>What dispatch does\<close>

lemma hint_result_ok: "\<exists>r w'. hint_result env task h w = (Inr r, w')"
proof (cases "get_tool h")
  case (Inr params)
  obtain r w' where "call_tool env h params (research_kwargs task) w = (r, w')"
    by (cases "call_tool env h params (research_kwargs task) w")
  with Inr show ?thesis by (cases r) (auto simp: hint_result_def acatch_def abind_def)
qed (simp add: hint_result_def)

lemma hint_not_bound:
  assumes "get_tool h = Inr ps" "bind_kwargs h ps (research_kwargs task) = Inl e"
  shows "hint_result env task h w = (Inr (Some (tool_failed task h e)), w)"
  by (simp add: hint_result_def assms acatch_def abind_def call_tool_def)

lemma hint_results_ok: "\<exists>rs w'. hint_results env task hs w = (Inr rs, w')"
proof (induction hs arbitrary: w)
  case (Cons h hs)
  from hint_result_ok obtain r w1 where 1: "hint_result env task h w = (Inr r, w1)" by blast
  from Cons.IH [of w1] obtain rs w2 where "hint_results env task hs w1 = (Inr rs, w2)" by blast
  with 1 show ?case by simp
qed simp

lemma dispatch_task_ok: "\<exists>tx w'. dispatch_task env t w = (Inr (task_id t, tx), w')"
proof -
  from hint_results_ok obtain rs w' where "hint_results env t (tool_hints t) w = (Inr rs, w')" by blast
  then show ?thesis by (simp add: dispatch_task_def)
qed

lemma run_level_ok:
  "\<exists>ctx' w'. run_level env l ctx w = (Inr ctx', w') \<and> set (dkeys ctx') = set (dkeys ctx) \<union> task_id ` set l
     \<and> (\<forall>k. k \<notin> task_id ` set l \<longrightarrow> dget ctx' k = dget ctx k)"
proof (induction l arbitrary: ctx w)
  case (Cons t ts)
  from dispatch_task_ok obtain tx w1 where d: "dispatch_task env t w = (Inr (task_id t, tx), w1)" by blast
  from Cons.IH [of "dset (task_id t) tx ctx" w1] obtain ctx' w'
    where "run_level env ts (dset (task_id t) tx ctx) w1 = (Inr ctx', w')"
      "set (dkeys ctx') = insert (task_id t) (set (dkeys ctx)) \<union> task_id ` set ts"
      "\<forall>k. k \<notin> task_id ` set ts \<longrightarrow> dget ctx' k = dget (dset (task_id t) tx ctx) k" by auto
  with d show ?case by auto
qed simp

lemma run_levels_ok:
  "\<exists>ctx' w'. run_levels env ls ctx w = (Inr ctx', w')
     \<and> set (dkeys ctx') = set (dkeys ctx) \<union> task_id ` set (concat ls)
     \<and> (\<forall>k. k \<notin> task_id ` set (concat ls) \<longrightarrow> dget ctx' k = dget ctx k)"
proof (induction ls arbitrary: ctx w)
  case (Cons l ls)
  from run_level_ok [of env l ctx w] obtain ctx1 w1 where 1: "run_level env l ctx w = (Inr ctx1, w1)"
    "set (dkeys ctx1) = set (dkeys ctx) \<union> task_id ` set l"
    "\<forall>k. k \<notin> task_id ` set l \<longrightarrow> dget ctx1 k = dget ctx k" by blast
  from Cons.IH [of ctx1 w1] obtain ctx2 w2 where "run_levels env ls ctx1 w1 = (Inr ctx2, w2)"
    "set (dkeys ctx2) = set (dkeys ctx1) \<union> task_id ` set (concat ls)"
    "\<forall>k. k \<notin> task_id ` set (concat ls) \<longrightarrow> dget ctx2 k = dget ctx1 k" by blast
  with 1 show ?case by (auto simp: image_Un)
qed simp

lemma researcher_Inr:
  "\<exists>ctx w'. researcher_agent env st w = (Inr (no_update\<lparr>u_research_context := Some ctx\<rparr>), w')"
proof (cases "task_plan st = []")
  case False
  from run_levels_ok obtain ctx w' where
    "run_levels env (topological_sort (task_plan st)) (research_context st) w = (Inr ctx, w')" by metis
  with False have "researcher_agent env st w = (Inr (no_update\<lparr>u_research_context := Some ctx\<rparr>), w')"
    by (simp add: researcher_agent_def)
  then show ?thesis by blast
qed (auto simp: researcher_agent_def)

section \<open>Costs\<close>

lemma cost_Pair [simp]: "llm_cost (Pair r) n"
  by (simp add: llm_cost_def)

lemma cost_web_search: "llm_cost (web_search env q n) 0"
proof -
  have f: "llm_cost (abind (tavily_search env q n) (\<lambda>response.
         abind (alift (json_get response ''results'' (JArr []))) (\<lambda>rs.
         abind (alift (py_iter rs)) (\<lambda>results.
         abind (alift (format_results results)) (\<lambda>formatted.
         abind (redis_set env k formatted ttl) (\<lambda>_. aret formatted)))))) 0" for k ttl
    by (intro cost0_abind) simp_all
  show ?thesis unfolding web_search_def
    by (intro cost0_abind) (auto split: option.split list.split intro: f)
qed

lemma cost_call_tool: "llm_cost (call_tool env name ps kw) 0"
proof -
  have "llm_cost (code_exec env a b) 0" for a b
    unfolding code_exec_def by (intro cost0_abind) simp_all
  moreover have "llm_cost (file_write a b c) 0" "llm_cost (file_read a b) 0" for a b c
    unfolding file_write_def file_read_def by (intro cost0_abind; simp add: llm_cost_def)+
  moreover have "llm_cost (api_caller env a b d j) 0" for a b d j
    by (simp add: api_caller_def Let_def http_call_def) (simp add: llm_cost_def)
  ultimately have "llm_cost (code_exec env a b) 0" "llm_cost (file_write a b c) 0" "llm_cost (file_read a b) 0"
    "llm_cost (api_caller env a b d j) 0" for a b c d j by simp_all
  then show ?thesis
    unfolding call_tool_def Let_def
    by (intro cost0_abind) (auto simp: cost_rag_recall cost_web_search)
qed

lemma cost_hint_result: "llm_cost (hint_result env t h) 0"
proof -
  have "llm_cost (acatch (abind (call_tool env h ps kw) (\<lambda>r. aret (Some (take result_max_chars r))))
           (\<lambda>e. aret (Some (tool_failed t h e)))) (0 + 0)" for ps kw
    by (intro cost_acatch cost0_abind cost_call_tool cost_aret)
  then show ?thesis by (simp add: hint_result_def split: sum.split)
qed

lemma cost_hint_results: "llm_cost (hint_results env t hs) 0"
  by (induction hs) (auto intro!: cost0_abind cost_hint_result)

lemma cost_dispatch: "llm_cost (dispatch_task env t) 0"
  unfolding dispatch_task_def by (intro cost0_abind cost_hint_results cost_aret)

lemma cost_run_level: "llm_cost (run_level env l ctx) 0"
proof (induction l arbitrary: ctx)
  case (Cons t ts)
  have "llm_cost (acatch (dispatch_task env t) (\<lambda>e. aret (task_id t, ''No results found. ('' @ exn_str e @ '')''))) (0 + 0)"
    by (intro cost_acatch cost_dispatch cost_aret)
  with Cons show ?case by (auto intro!: cost0_abind)
qed simp

lemma cost_researcher: "llm_cost (researcher_agent env st) 0"
proof -
  have "llm_cost (run_levels env ls ctx) 0" for ls ctx
    by (induction ls arbitrary: ctx) (auto intro!: cost0_abind cost_run_level)
  then show ?thesis unfolding researcher_agent_def by (auto intro!: cost0_abind)
qed

section \<open>What stays as it was\<close>

lemma keeps_web_search: "act_keeps world_le (web_search env q n)"
proof -
  have f: "act_keeps world_le (abind (tavily_search env q n) (\<lambda>response.
         abind (alift (json_get response ''results'' (JArr []))) (\<lambda>rs.
         abind (alift (py_iter rs)) (\<lambda>results.
         abind (alift (format_results results)) (\<lambda>formatted.
         abind (redis_set env k formatted ttl) (\<lambda>_. aret formatted))))))" for k ttl
    by (intro grow.keeps_abind keeps_oracle keeps_redis_ops grow.keeps_alift grow.keeps_aret)
  show ?thesis unfolding web_search_def
    by (intro grow.keeps_abind keeps_redis_ops) (auto split: option.split list.split intro: f)
qed

lemma keeps_call_tool: "act_keeps world_le (call_tool env name ps kw)"
proof -
  have c: "act_keeps world_le (code_exec env a b)" for a b
    unfolding code_exec_def by (intro grow.keeps_abind keeps_oracle grow.keeps_aret)
  have w: "act_keeps world_le (file_write a b c)" "act_keeps world_le (file_read a b)" for a b c
    unfolding file_write_def file_read_def
    by (intro grow.keeps_abind grow.keeps_alift; simp add: act_keeps_def world_le_def)+
  have h: "act_keeps world_le (api_caller env a b d j)" for a b d j
    unfolding api_caller_def Let_def http_call_def
    by (intro keeps_if grow.keeps_aret) (simp add: act_keeps_def world_le_def)
  show ?thesis unfolding call_tool_def Let_def
    by (intro grow.keeps_abind grow.keeps_alift keeps_if keeps_rag_recall keeps_web_search c w h)
qed

lemma keeps_researcher: "act_keeps world_le (researcher_agent env st)"
proof -
  have hint: "act_keeps world_le (hint_result env t h)" for t h
  proof -
    have "act_keeps world_le (acatch (abind (call_tool env h ps kw) (\<lambda>r. aret (Some (take result_max_chars r))))
             (\<lambda>e. aret (Some (tool_failed t h e))))" for ps kw
      by (intro grow.keeps_acatch grow.keeps_abind keeps_call_tool grow.keeps_aret)
    then show ?thesis by (auto simp: hint_result_def split: sum.split)
  qed
  have "act_keeps world_le (hint_results env t hs)" for t hs
    by (induction hs) (auto intro!: grow.keeps_abind hint)
  then have d: "act_keeps world_le (dispatch_task env t)" for t
    unfolding dispatch_task_def by (intro grow.keeps_abind grow.keeps_aret)
  have l: "act_keeps world_le (run_level env l ctx)" for l ctx
    by (induction l arbitrary: ctx) (auto intro!: grow.keeps_abind grow.keeps_acatch d)
  have "act_keeps world_le (run_levels env ls ctx)" for ls ctx
    by (induction ls arbitrary: ctx) (auto intro!: grow.keeps_abind l)
  then show ?thesis unfolding researcher_agent_def by (intro keeps_if grow.keeps_abind grow.keeps_aret)
qed

section \<open>Properties\<close>

text \<open>C32: Research never fails as a whole: in any state, with any plan, it returns an update of the research
  context and of nothing else. For a validated plan the new context has an entry for every task
  of the plan, keeps the entries of other task ids as they were, and has no further keys.\<close>

theorem researcher_covers_plan:
  "\<exists>ctx w'. researcher_agent env st w = (Inr (no_update\<lparr>u_research_context := Some ctx\<rparr>), w')
    \<and> (plan_ok (task_plan st) \<longrightarrow>
         set (dkeys ctx) = set (dkeys (research_context st)) \<union> task_id ` set (task_plan st)
       \<and> (\<forall>k. k \<notin> task_id ` set (task_plan st) \<longrightarrow> dget ctx k = dget (research_context st) k))"
proof (cases "plan_ok (task_plan st)")
  case True
  let ?ls = "topological_sort (task_plan st)"
  have "set (concat ?ls) = set (task_plan st)"
    using topological_sort_plan [OF True] by (metis set_mset_mset)
  moreover have "task_plan st \<noteq> []" using True by (auto simp: plan_ok_def)
  moreover from run_levels_ok [of env ?ls "research_context st" w] obtain ctx w'
    where "run_levels env ?ls (research_context st) w = (Inr ctx, w')"
      "set (dkeys ctx) = set (dkeys (research_context st)) \<union> task_id ` set (concat ?ls)"
      "\<forall>k. k \<notin> task_id ` set (concat ?ls) \<longrightarrow> dget ctx k = dget (research_context st) k" by blast
  ultimately have "researcher_agent env st w = (Inr (no_update\<lparr>u_research_context := Some ctx\<rparr>), w')"
    and "set (dkeys ctx) = set (dkeys (research_context st)) \<union> task_id ` set (task_plan st)"
    and "\<forall>k. k \<notin> task_id ` set (task_plan st) \<longrightarrow> dget ctx k = dget (research_context st) k"
    by (simp_all add: researcher_agent_def)
  then show ?thesis by blast
next
  case False
  with researcher_Inr [of env st w] show ?thesis by blast
qed

theorem researcher_covers_plan_witness:
  "\<exists>ctx w'. researcher_agent (calm_env (\<lambda>n p. Inr JNull))
       (initial_state ''g'' ''s'' ''u'' [] \<lparr>task_plan := [node_of ''a'' [''b''], node_of ''b'' []]\<rparr>) fresh_world
     = (Inr (no_update\<lparr>u_research_context := Some ctx\<rparr>), w') \<and> set (dkeys ctx) = {''a'', ''b''}"
proof -
  let ?st = "initial_state ''g'' ''s'' ''u'' [] \<lparr>task_plan := [node_of ''a'' [''b''], node_of ''b'' []]\<rparr>"
  have "plan_ok (task_plan ?st)" using validate_plan_ok [OF example_plan_valid] by simp
  with researcher_covers_plan [of "calm_env (\<lambda>n p. Inr JNull)" ?st fresh_world] show ?thesis
    by (auto simp: initial_state_def node_of_def dkeys_def)
qed

text \<open>C33: of the tools a plan may name only semantic recall ever runs. The researcher passes the
  query together with a session and a user id, which none of the other functions accepts, so
  web search, code execution, file writing and HTTP calls fail before their bodies start: the
  world is untouched and the task's text is the error.\<close>

theorem research_tools_do_not_run:
  assumes "hint \<in> set valid_tools" "hint \<noteq> ''rag_recall''"
  shows "\<exists>m. hint_result env task hint w = (Inr (Some (tool_failed task hint (Exn TypeError m))), w)"
proof -
  have "hint \<in> {''web_search'', ''code_exec'', ''file_write'', ''api_caller''}"
    using assms by (auto simp: valid_tools_def)
  then obtain ps m where "get_tool hint = Inr ps" "bind_kwargs hint ps (research_kwargs task) = Inl (Exn TypeError m)"
    by (elim insertE emptyE)
       (simp_all add: get_tool_def tool_registry_def bind_kwargs_def research_kwargs_def dkeys_def)
  from hint_not_bound [OF this] show ?thesis by blast
qed

theorem research_tools_do_not_run_witness:
  "\<exists>m. hint_result (calm_env (\<lambda>n p. Inr JNull)) (node_of ''a'' []) ''web_search'' fresh_world
     = (Inr (Some (tool_failed (node_of ''a'' []) ''web_search'' (Exn TypeError m))), fresh_world)"
  by (rule research_tools_do_not_run) (simp_all add: valid_tools_def)

end
