(* ===== verification/Executor.thy ===== *)
theory Executor
  imports Researcher
begin

text \<open>
  The executor agent (\<open>backend/agents/executor.py\<close>): code generation and sandbox
  execution, task by task in topological order. The tasks of the plan are shared objects
  whose status is assigned in place; nothing reads a status while the loop runs, so the
  plan is threaded through as a value.
\<close>

definition sandbox_timeout :: int where "sandbox_timeout = 30"

section \<open>The loop\<close>

fun mark_task :: "task_node list \<Rightarrow> string \<Rightarrow> task_status \<Rightarrow> task_node list" where
  "mark_task [] tid s = []"
| "mark_task (t # ts) tid s = (if task_id t = tid then t\<lparr>status := s\<rparr> # ts else t # mark_task ts tid s)"

record exec_acc =
  ex_plan :: "task_node list"
  ex_output :: "string dict"
  ex_errors :: "string list"

definition task_failed :: "string \<Rightarrow> string \<Rightarrow> exec_acc \<Rightarrow> exec_acc" where
  "task_failed tid err acc = acc\<lparr>ex_errors := ex_errors acc @ [err], ex_plan := mark_task (ex_plan acc) tid Failed\<rparr>"

definition task_done :: "string \<Rightarrow> string \<Rightarrow> exec_acc \<Rightarrow> exec_acc" where
  "task_done tid out acc = acc\<lparr>ex_output := dset tid out (ex_output acc), ex_plan := mark_task (ex_plan acc) tid Done\<rparr>"

definition run_generated :: "env \<Rightarrow> task_node \<Rightarrow> json \<Rightarrow> exec_acc \<Rightarrow> exec_acc act" where
  "run_generated env task parsed acc =
     abind (alift (json_get parsed ''code'' (JStr []))) (\<lambda>c.
     case c of
       JStr (x # xs) \<Rightarrow>
         abind (execute_code env (x # xs) sandbox_timeout (task_id task)) (\<lambda>r.
         aret (if sr_success r then task_done (task_id task) (sr_stdout r) acc
               else task_failed (task_id task)
                      (''executor task '' @ task_id task @ '': '' @ take 500 (sr_stderr r)) acc))
     | _ \<Rightarrow> aret (task_failed (task_id task)
              (''executor task '' @ task_id task @ '': LLM returned no code'') acc))"

definition exec_task :: "env \<Rightarrow> agent \<Rightarrow> nexus_state \<Rightarrow> task_node \<Rightarrow> exec_acc \<Rightarrow> exec_acc act" where
  "exec_task env a st task acc = (\<lambda>w.
     let model_type = (if assigned_model task = ''code'' then ''code'' else ''reasoning'') in
     case invoke_json env a model_type (build_executor_context task st) w of
       (Inl e, w') \<Rightarrow>
         if exn_class e = AgentError then (Inr (task_failed (task_id task) (take 500 (exn_str e)) acc), w')
         else (Inl e, w')
     | (Inr parsed, w') \<Rightarrow> run_generated env task parsed acc w')"

fun exec_tasks :: "env \<Rightarrow> agent \<Rightarrow> nexus_state \<Rightarrow> task_node list \<Rightarrow> exec_acc \<Rightarrow> exec_acc act" where
  "exec_tasks env a st [] acc = aret acc"
| "exec_tasks env a st (t # ts) acc = abind (exec_task env a st t acc) (exec_tasks env a st ts)"

definition executor_run :: "env \<Rightarrow> agent \<Rightarrow> nexus_state \<Rightarrow> state_update act" where
  "executor_run env a st =
     abind (exec_tasks env a st (concat (topological_sort (task_plan st)))
              \<lparr>ex_plan = task_plan st, ex_output = execution_output st, ex_errors = error_log st\<rparr>) (\<lambda>acc.
     aret (no_update\<lparr>u_task_plan := Some (ex_plan acc), u_execution_output := Some (ex_output acc),
                      u_error_log := Some (ex_errors acc)\<rparr>))"

definition executor_agent :: "env \<Rightarrow> nexus_state \<Rightarrow> state_update act" where
  "executor_agent env st = abind (new_agent env ''executor'') (\<lambda>a. executor_run env a st)"

section \<open>Costs\<close>

lemma run_generated_cases:
  obtains (err) e where "\<And>w. run_generated env task parsed acc w = (Inl e, w)"
  | (nocode) "\<And>w. run_generated env task parsed acc w
      = (Inr (task_failed (task_id task) (''executor task '' @ task_id task @ '': LLM returned no code'') acc), w)"
  | (run) src where "\<And>w. run_generated env task parsed acc w =
      (case execute_code env src sandbox_timeout (task_id task) w of
         (Inl e, w') \<Rightarrow> (Inl e, w')
       | (Inr r, w') \<Rightarrow> (Inr (if sr_success r then task_done (task_id task) (sr_stdout r) acc
           else task_failed (task_id task) (''executor task '' @ task_id task @ '': '' @ take 500 (sr_stderr r)) acc), w'))"
proof -
  have runs: thesis if c: "json_get parsed ''code'' (JStr []) = Inr (JStr (x # xs))" for x xs
    by (rule run [of "x # xs"]) (simp add: run_generated_def c abind_def split: prod.split sum.split)
  have none: thesis if c: "json_get parsed ''code'' (JStr []) = Inr j" "\<And>x xs. j \<noteq> JStr (x # xs)" for j
    using c(2) by (intro nocode) (auto simp: run_generated_def c(1) abind_def split: json.split list.split)
  show thesis
  proof (cases "json_get parsed ''code'' (JStr [])")
    case (Inl e)
    show thesis by (rule err [of e]) (simp add: run_generated_def abind_def Inl)
  next
    case (Inr j)
    then show thesis using runs none by (metis (full_types))
  qed
qed

lemma cost_exec_task: "llm_cost (exec_task env a st t acc) 3"
proof -
  have g: "w_llm_calls (snd (run_generated env t parsed acc w)) = w_llm_calls w" for parsed w
    by (rule run_generated_cases [of env t parsed acc])
       (auto simp: execute_code_def Let_def)
  have i: "w_llm_calls (snd (invoke_json env a m c w)) \<le> w_llm_calls w + 3" for m c w
    using cost_invoke by (simp add: llm_cost_def)
  show ?thesis
    unfolding llm_cost_def
  proof
    fix w
    let ?m = "if assigned_model t = ''code'' then ''code'' else ''reasoning''"
    obtain r w' where m: "invoke_json env a ?m (build_executor_context t st) w = (r, w')"
      by (cases "invoke_json env a ?m (build_executor_context t st) w")
    with i [of ?m "build_executor_context t st" w] show "w_llm_calls (snd (exec_task env a st t acc w)) \<le> w_llm_calls w + 3"
      by (cases r) (simp_all add: exec_task_def Let_def g)
  qed
qed

lemma cost_exec_tasks: "llm_cost (exec_tasks env a st ts acc) (3 * length ts)"
proof (induction ts arbitrary: acc)
  case (Cons t ts)
  have "llm_cost (exec_tasks env a st (t # ts) acc) (3 + 3 * length ts)"
    unfolding exec_tasks.simps by (intro cost_abind cost_exec_task Cons)
  then show ?case by simp
qed simp

lemma cost_executor: "llm_cost (executor_agent env st) (3 * length (concat (topological_sort (task_plan st))))"
proof -
  let ?ts = "concat (topological_sort (task_plan st))"
  have "llm_cost (executor_agent env st) (0 + (3 * length ?ts + 0))"
    unfolding executor_agent_def executor_run_def
    by (intro cost_abind cost_new_agent cost_exec_tasks cost_aret)
  then show ?thesis by simp
qed

lemma keeps_executor: "act_keeps world_le (executor_agent env st)"
proof -
  have g: "act_keeps world_le (run_generated env t parsed acc)" for t parsed acc
  proof (rule run_generated_cases [of env t parsed acc])
    fix src
    assume r: "\<And>w. run_generated env t parsed acc w =
      (case execute_code env src sandbox_timeout (task_id t) w of
         (Inl e, w') \<Rightarrow> (Inl e, w')
       | (Inr r, w') \<Rightarrow> (Inr (if sr_success r then task_done (task_id t) (sr_stdout r) acc
           else task_failed (task_id t) (''executor task '' @ task_id t @ '': '' @ take 500 (sr_stderr r)) acc), w'))"
    show ?thesis by (auto simp: act_keeps_def r execute_code_def Let_def world_le_def)
  qed (auto simp: act_keeps_def grow.refl)
  have t: "act_keeps world_le (exec_task env a st t acc)" for a t acc
    unfolding act_keeps_def
  proof
    fix w
    let ?m = "if assigned_model t = ''code'' then ''code'' else ''reasoning''"
    obtain r w' where m: "invoke_json env a ?m (build_executor_context t st) w = (r, w')"
      by (cases "invoke_json env a ?m (build_executor_context t st) w")
    have i: "world_le w w'" using keeps_invoke [of env a ?m "build_executor_context t st"] m
      by (metis act_keeps_def snd_conv)
    show "world_le w (snd (exec_task env a st t acc w))"
    proof (cases r)
      case (Inr v)
      have "world_le w' (snd (run_generated env t v acc w'))" using g by (simp add: act_keeps_def)
      with i m Inr show ?thesis by (simp add: exec_task_def Let_def) (metis grow.trans)
    qed (use i m in \<open>simp add: exec_task_def Let_def\<close>)
  qed
  have "act_keeps world_le (exec_tasks env a st ts acc)" for a ts acc
    by (induction ts arbitrary: acc) (auto intro!: grow.keeps_abind t)
  then show ?thesis unfolding executor_agent_def executor_run_def
    by (intro grow.keeps_abind keeps_new_agent grow.keeps_aret)
qed

section \<open>What one pass records\<close>

lemma exec_task_Inr:
  assumes "exec_task env a st t acc w = (Inr acc', w')"
  shows "(\<exists>out. acc' = task_done (task_id t) out acc) \<or> (\<exists>err. acc' = task_failed (task_id t) err acc)"
proof -
  let ?m = "if assigned_model t = ''code'' then ''code'' else ''reasoning''"
  obtain r w1 where m: "invoke_json env a ?m (build_executor_context t st) w = (r, w1)"
    by (cases "invoke_json env a ?m (build_executor_context t st) w")
  show ?thesis
  proof (cases r)
    case (Inl e)
    with assms m show ?thesis by (auto simp: exec_task_def Let_def split: if_splits)
  next
    case (Inr parsed)
    with assms m have "run_generated env t parsed acc w1 = (Inr acc', w')"
      by (simp add: exec_task_def Let_def)
    then show ?thesis
      by (cases rule: run_generated_cases [of env t parsed acc])
         (auto simp: execute_code_def Let_def split: if_splits)
  qed
qed

lemma mark_task_map:
  "distinct (map task_id ts) \<Longrightarrow> mark_task ts tid s = map (\<lambda>t. if task_id t = tid then t\<lparr>status := s\<rparr> else t) ts"
  by (induction ts) (auto simp: image_iff intro!: map_idI [symmetric])

text \<open>The plan with some tasks marked failed and the other tasks that ran marked done.\<close>

definition marked :: "string set \<Rightarrow> string set \<Rightarrow> task_node list \<Rightarrow> task_node list" where
  "marked failed done_ids ts = map (\<lambda>t. if task_id t \<in> failed then t\<lparr>status := Failed\<rparr>
      else if task_id t \<in> done_ids then t\<lparr>status := Done\<rparr> else t) ts"

lemma marked_ids [simp]: "map task_id (marked f r ts) = map task_id ts"
  by (simp add: marked_def comp_def if_distrib [of task_id] cong: if_cong)

lemma mark_failed: "distinct (map task_id ts) \<Longrightarrow> tid \<notin> r \<Longrightarrow> f \<subseteq> r \<Longrightarrow>
    marked f r (mark_task ts tid Failed) = marked (insert tid f) (insert tid r) ts"
  by (auto simp: mark_task_map marked_def)

lemma mark_done: "distinct (map task_id ts) \<Longrightarrow> tid \<notin> r \<Longrightarrow> f \<subseteq> r \<Longrightarrow>
    marked f r (mark_task ts tid Done) = marked f (insert tid r) ts"
  by (auto simp: mark_task_map marked_def)

lemma mark_task_ids [simp]: "map task_id (mark_task ts tid s) = map task_id ts"
  by (induction ts) auto

lemma exec_tasks_spec:
  assumes "distinct (map task_id (ex_plan acc))" "distinct (map task_id ts)"
    and "exec_tasks env a st ts acc w = (Inr acc', w')"
  shows "\<exists>failed \<subseteq> task_id ` set ts.
      ex_plan acc' = marked failed (task_id ` set ts) (ex_plan acc)
    \<and> (\<exists>errs. ex_errors acc' = ex_errors acc @ errs \<and> length errs = card failed)
    \<and> (\<forall>k. k \<notin> task_id ` set ts - failed \<longrightarrow> dget (ex_output acc') k = dget (ex_output acc) k)
    \<and> (\<forall>k \<in> task_id ` set ts - failed. dget (ex_output acc') k \<noteq> None)"
  using assms
proof (induction ts arbitrary: acc w)
  case Nil
  then show ?case by (auto simp: marked_def)
next
  case (Cons t ts)
  let ?ids = "task_id ` set ts" and ?i = "task_id t"
  from Cons.prems(3) obtain acc1 w1 where 1: "exec_task env a st t acc w = (Inr acc1, w1)"
    and 2: "exec_tasks env a st ts acc1 w1 = (Inr acc', w')" by (auto simp: abind_Inr)
  have i: "?i \<notin> ?ids" using Cons.prems(2) by simp
  from exec_task_Inr [OF 1] have d1: "distinct (map task_id (ex_plan acc1))"
    using Cons.prems(1) by (auto simp: task_done_def task_failed_def)
  from Cons.IH [OF d1 _ 2] Cons.prems(2) obtain failed errs where f: "failed \<subseteq> ?ids"
      "ex_plan acc' = marked failed ?ids (ex_plan acc1)"
      "ex_errors acc' = ex_errors acc1 @ errs" "length errs = card failed"
      "\<forall>k. k \<notin> ?ids - failed \<longrightarrow> dget (ex_output acc') k = dget (ex_output acc1) k"
      "\<forall>k \<in> ?ids - failed. dget (ex_output acc') k \<noteq> None" by auto
  have inf: "?i \<notin> failed" "finite failed" using i f(1) finite_subset by blast+
  from exec_task_Inr [OF 1] show ?case
  proof (elim disjE exE)
    fix out assume acc1: "acc1 = task_done ?i out acc"
    from f i inf have "ex_plan acc' = marked failed (insert ?i ?ids) (ex_plan acc)"
      by (simp add: acc1 task_done_def mark_done [OF Cons.prems(1)])
    moreover have "ex_errors acc' = ex_errors acc @ errs" by (simp add: f acc1 task_done_def)
    moreover have "dget (ex_output acc') k = dget (ex_output acc) k" if "k \<notin> insert ?i ?ids - failed" for k
      using that f(5) inf by (auto simp: acc1 task_done_def)
    moreover have "dget (ex_output acc') k \<noteq> None" if "k \<in> insert ?i ?ids - failed" for k
      using that f(5,6) i by (auto simp: acc1 task_done_def)
    ultimately show ?thesis using f(1,4) by (intro exI [of _ failed]) auto
  next
    fix err assume acc1: "acc1 = task_failed ?i err acc"
    from f i inf have "ex_plan acc' = marked (insert ?i failed) (insert ?i ?ids) (ex_plan acc)"
      by (simp add: acc1 task_failed_def mark_failed [OF Cons.prems(1)])
    moreover have "ex_errors acc' = ex_errors acc @ (err # errs)" "length (err # errs) = card (insert ?i failed)"
      using inf f(4) by (simp_all add: f acc1 task_failed_def)
    moreover have "dget (ex_output acc') k = dget (ex_output acc) k" if "k \<notin> insert ?i ?ids - insert ?i failed" for k
      using that f(5) i by (auto simp: acc1 task_failed_def)
    moreover have "dget (ex_output acc') k \<noteq> None" if "k \<in> insert ?i ?ids - insert ?i failed" for k
      using that f(6) by (auto simp: acc1 task_failed_def)
    ultimately have "insert ?i failed \<subseteq> task_id ` set (t # ts) \<and> ex_plan acc' = marked (insert ?i failed) (task_id ` set (t # ts)) (ex_plan acc)
      \<and> (\<exists>errs. ex_errors acc' = ex_errors acc @ errs \<and> length errs = card (insert ?i failed))
      \<and> (\<forall>k. k \<notin> task_id ` set (t # ts) - insert ?i failed \<longrightarrow> dget (ex_output acc') k = dget (ex_output acc) k)
      \<and> (\<forall>k \<in> task_id ` set (t # ts) - insert ?i failed. dget (ex_output acc') k \<noteq> None)"
      unfolding list.set image_insert using f(1) by (metis insert_mono)
    then show ?thesis by blast
  qed
qed

lemma executor_Inr:
  assumes "executor_agent env st w = (Inr u, w')"
  shows "\<exists>p o' e. u = no_update\<lparr>u_task_plan := Some p, u_execution_output := Some o', u_error_log := Some e\<rparr>"
  using assms by (auto simp: executor_agent_def executor_run_def abind_Inr)

lemma executor_plan_ids:
  assumes "executor_agent env st w = (Inr u, w')" "u_task_plan u = Some p"
  shows "map task_id p = map task_id (task_plan st)"
proof -
  have step: "map task_id (ex_plan acc') = map task_id (ex_plan acc)"
    if "exec_tasks env a st ts acc w1 = (Inr acc', w2)" for a ts acc w1 acc' w2
    using that
  proof (induction ts arbitrary: acc w1)
    case (Cons t ts)
    then obtain acc1 w3 where "exec_task env a st t acc w1 = (Inr acc1, w3)"
      "exec_tasks env a st ts acc1 w3 = (Inr acc', w2)" by (auto simp: abind_Inr)
    from exec_task_Inr [OF this(1)] Cons.IH [OF this(2)] show ?case
      by (auto simp: task_done_def task_failed_def)
  qed simp
  from assms(1) obtain a acc w1 where "exec_tasks env a st (concat (topological_sort (task_plan st)))
      \<lparr>ex_plan = task_plan st, ex_output = execution_output st, ex_errors = error_log st\<rparr> w1 = (Inr acc, w')"
      and u: "u = no_update\<lparr>u_task_plan := Some (ex_plan acc), u_execution_output := Some (ex_output acc),
           u_error_log := Some (ex_errors acc)\<rparr>"
    by (auto simp: executor_agent_def executor_run_def abind_Inr)
  from step [OF this(1)] u assms(2) show ?thesis by simp
qed

section \<open>What later tasks see\<close>

text \<open>Two answers of the sandbox that differ at most in the printed output and the time.\<close>

fun same_verdict :: "rpc_error + exec_response \<Rightarrow> rpc_error + exec_response \<Rightarrow> bool" where
  "same_verdict (Inl e) (Inl e') = (e = e')"
| "same_verdict (Inr r) (Inr r') = (rs_success r = rs_success r' \<and> rs_stderr r = rs_stderr r' \<and> rs_exit_code r = rs_exit_code r')"
| "same_verdict _ _ = False"

definition same_record :: "exec_acc \<Rightarrow> exec_acc \<Rightarrow> bool" where
  "same_record x y \<longleftrightarrow> ex_plan x = ex_plan y \<and> ex_errors x = ex_errors y \<and> dkeys (ex_output x) = dkeys (ex_output y)"

lemma attempts_sandbox: "attempts (env\<lparr>e_sandbox := sb\<rparr>) a m c k lst = attempts env a m c k lst"
  by (induction k arbitrary: lst) (simp_all add: attempt_def llm_call_def cong: if_cong)

lemma invoke_sandbox: "invoke_json (env\<lparr>e_sandbox := sb\<rparr>) a t c = invoke_json env a t c"
  by (simp add: invoke_json_def attempts_sandbox)

definition rel_act :: "exec_acc act \<Rightarrow> exec_acc act \<Rightarrow> world \<Rightarrow> bool" where
  "rel_act m m' w \<longleftrightarrow> snd (m w) = snd (m' w) \<and>
     (case (fst (m w), fst (m' w)) of (Inl e, Inl e') \<Rightarrow> e = e' | (Inr x, Inr y) \<Rightarrow> same_record x y | _ \<Rightarrow> False)"

lemma rel_execute:
  assumes "\<And>n rq t. same_verdict (e_sandbox env n rq t) (sb n rq t)"
  obtains r r' w' where "execute_code env src tm tid w = (Inr r, w')"
    "execute_code (env\<lparr>e_sandbox := sb\<rparr>) src tm tid w = (Inr r', w')"
    "sr_success r' = sr_success r" "sr_stderr r' = sr_stderr r"
proof -
  let ?rq = "\<lparr>rq_code = src, rq_timeout = min tm hard_timeout, rq_task_id = tid\<rparr>" and ?t = "min tm hard_timeout + 5"
  from assms [of "w_tick w" ?rq ?t] show thesis
    by (cases "e_sandbox env (w_tick w) ?rq ?t"; cases "sb (w_tick w) ?rq ?t")
       (auto intro!: that simp: execute_code_def Let_def split: rpc_error.split)
qed

lemma rel_generated:
  assumes "\<And>n rq t. same_verdict (e_sandbox env n rq t) (sb n rq t)" "same_record x y"
  shows "rel_act (run_generated env task parsed x) (run_generated (env\<lparr>e_sandbox := sb\<rparr>) task parsed y) w"
proof (cases "json_get parsed ''code'' (JStr [])")
  case (Inl e)
  then show ?thesis by (simp add: rel_act_def run_generated_def abind_def)
next
  case (Inr j)
  show ?thesis
  proof (cases "\<exists>c cs. j = JStr (c # cs)")
    case True
    then obtain c cs where j: "j = JStr (c # cs)" by blast
    from rel_execute [OF assms(1), of "c # cs" sandbox_timeout "task_id task" w] obtain r r' w'
      where "execute_code env (c # cs) sandbox_timeout (task_id task) w = (Inr r, w')"
        "execute_code (env\<lparr>e_sandbox := sb\<rparr>) (c # cs) sandbox_timeout (task_id task) w = (Inr r', w')"
        "sr_success r' = sr_success r" "sr_stderr r' = sr_stderr r" by metis
    with Inr j assms(2) show ?thesis
      by (simp add: rel_act_def run_generated_def same_record_def task_done_def task_failed_def dkeys_dset)
  next
    case False
    then show ?thesis using Inr assms(2)
      by (auto simp: rel_act_def run_generated_def same_record_def task_failed_def split: json.split list.split)
  qed
qed

lemma rel_exec_task:
  assumes "\<And>n rq t. same_verdict (e_sandbox env n rq t) (sb n rq t)" "same_record x y"
  shows "rel_act (exec_task env a st t x) (exec_task (env\<lparr>e_sandbox := sb\<rparr>) a st t y) w"
proof -
  let ?m = "if assigned_model t = ''code'' then ''code'' else ''reasoning''"
  obtain r w1 where m: "invoke_json env a ?m (build_executor_context t st) w = (r, w1)"
    by (cases "invoke_json env a ?m (build_executor_context t st) w")
  show ?thesis
  proof (cases r)
    case (Inl e)
    with m assms(2) show ?thesis
      by (simp add: rel_act_def exec_task_def Let_def invoke_sandbox same_record_def task_failed_def)
  next
    case (Inr parsed)
    with m rel_generated [OF assms, of t parsed w1] show ?thesis
      by (simp add: rel_act_def exec_task_def Let_def invoke_sandbox)
  qed
qed

lemma rel_exec_tasks:
  assumes "\<And>n rq t. same_verdict (e_sandbox env n rq t) (sb n rq t)" "same_record x y"
  shows "rel_act (exec_tasks env a st ts x) (exec_tasks (env\<lparr>e_sandbox := sb\<rparr>) a st ts y) w"
  using assms(2)
proof (induction ts arbitrary: x y w)
  case Nil
  then show ?case by (simp add: rel_act_def)
next
  case (Cons t ts x y w)
  note r = rel_exec_task [OF assms(1) Cons.prems, of a st t w]
  obtain q w1 where 1: "exec_task env a st t x w = (q, w1)" by (cases "exec_task env a st t x w")
  obtain q' where 2: "exec_task (env\<lparr>e_sandbox := sb\<rparr>) a st t y w = (q', w1)"
    using r 1 by (cases "exec_task (env\<lparr>e_sandbox := sb\<rparr>) a st t y w") (simp add: rel_act_def)
  show ?case
  proof (cases q)
    case (Inl e)
    with r 1 2 show ?thesis by (cases q') (simp_all add: rel_act_def)
  next
    case (Inr x1)
    with r 1 2 obtain y1 where y1: "q' = Inr y1" "same_record x1 y1" by (cases q') (simp_all add: rel_act_def)
    from Cons.IH [OF y1(2), of w1] show ?thesis by (simp add: rel_act_def 1 2 Inr y1(1))
  qed
qed

section \<open>Properties\<close>

lemma topological_ids:
  assumes "plan_ok p"
  shows "distinct (map task_id (concat (topological_sort p)))"
    and "set (concat (topological_sort p)) = set p" "length (concat (topological_sort p)) = length p"
proof -
  have m: "mset (concat (topological_sort p)) = mset p" using topological_sort_plan [OF assms] by blast
  then have "mset (map task_id (concat (topological_sort p))) = mset (map task_id p)" by simp
  moreover have "distinct (map task_id p)" using assms by (simp add: plan_ok_def)
  ultimately show "distinct (map task_id (concat (topological_sort p)))"
    by (metis mset_eq_imp_distinct_iff)
  show "set (concat (topological_sort p)) = set p" using m by (metis set_mset_mset)
  show "length (concat (topological_sort p)) = length p" using m by (metis size_mset)
qed

text \<open>C11: a pass of the executor over a validated plan accounts for every task: each ends up done
  or failed and is otherwise unchanged, the error log grows by exactly one entry per failed
  task, every done task has an output, and the outputs of failed tasks and of ids outside
  the plan stay what they were.\<close>

theorem executor_accounts_for_tasks:
  assumes "plan_ok (task_plan st)" "executor_agent env st w = (Inr u, w')"
  defines "ids \<equiv> task_id ` set (task_plan st)"
  shows "\<exists>failed out errs. failed \<subseteq> ids
    \<and> u = no_update\<lparr>u_task_plan := Some (marked failed ids (task_plan st)), u_execution_output := Some out,
                    u_error_log := Some (error_log st @ errs)\<rparr>
    \<and> length errs = card failed
    \<and> (\<forall>k \<in> ids - failed. dget out k \<noteq> None)
    \<and> (\<forall>k. k \<notin> ids - failed \<longrightarrow> dget out k = dget (execution_output st) k)"
proof -
  let ?ts = "concat (topological_sort (task_plan st))"
  let ?acc = "\<lparr>ex_plan = task_plan st, ex_output = execution_output st, ex_errors = error_log st\<rparr>"
  from assms(2) obtain a acc w1 where r: "exec_tasks env a st ?ts ?acc w1 = (Inr acc, w')"
    and u: "u = no_update\<lparr>u_task_plan := Some (ex_plan acc), u_execution_output := Some (ex_output acc),
           u_error_log := Some (ex_errors acc)\<rparr>"
    by (auto simp: executor_agent_def executor_run_def abind_Inr)
  have ids: "task_id ` set ?ts = ids" using topological_ids(2) [OF assms(1)] by (simp only: ids_def)
  have "distinct (map task_id (ex_plan ?acc))" using assms(1) by (simp add: plan_ok_def)
  from exec_tasks_spec [OF this topological_ids(1) [OF assms(1)] r] obtain failed errs where
    "failed \<subseteq> ids" "ex_plan acc = marked failed ids (task_plan st)" "ex_errors acc = error_log st @ errs"
    "length errs = card failed" "\<forall>k. k \<notin> ids - failed \<longrightarrow> dget (ex_output acc) k = dget (execution_output st) k"
    "\<forall>k \<in> ids - failed. dget (ex_output acc) k \<noteq> None" unfolding ids by auto
  with u show ?thesis by (intro exI [of _ failed] exI [of _ "ex_output acc"] exI [of _ errs]) simp
qed

definition two_tasks :: nexus_state where
  "two_tasks = initial_state ''g'' ''s'' ''u'' [] \<lparr>task_plan := [node_of ''a'' [''b''], node_of ''b'' []]\<rparr>"

lemma two_tasks_ok: "plan_ok (task_plan two_tasks)"
  using validate_plan_ok [OF example_plan_valid] by (simp add: two_tasks_def)

text \<open>A model that generates a script for every task.\<close>

definition script_reply :: "nat \<Rightarrow> string \<Rightarrow> json result" where
  "script_reply n p = Inr (JStr (dumps default_opts (JObj [(''code'', JStr ''print(1)'')])))"

theorem executor_accounts_for_tasks_witness:
  "\<exists>u w' failed. executor_agent (calm_env script_reply) two_tasks fresh_world = (Inr u, w')
     \<and> u_task_plan u = Some (marked failed (task_id ` set (task_plan two_tasks)) (task_plan two_tasks))"
proof -
  have "is_ok (fst (executor_agent (calm_env script_reply) two_tasks fresh_world))" by code_simp
  then obtain u w' where m: "executor_agent (calm_env script_reply) two_tasks fresh_world = (Inr u, w')"
    using is_ok_run by blast
  from executor_accounts_for_tasks [OF two_tasks_ok m] obtain failed where
    "u_task_plan u = Some (marked failed (task_id ` set (task_plan two_tasks)) (task_plan two_tasks))"
    by (elim exE conjE) simp
  with m show ?thesis by (intro exI conjI)
qed

lemma new_agent_sandbox: "new_agent (env\<lparr>e_sandbox := sb\<rparr>) name = new_agent env name"
proof -
  have c: "new_client (env\<lparr>e_sandbox := sb\<rparr>) = new_client env"
    by (simp add: new_client_def fun_eq_iff)
  have e: "e_settings (env\<lparr>e_sandbox := sb\<rparr>) = e_settings env" by simp
  have "make_router (env\<lparr>e_sandbox := sb\<rparr>) m = make_router env m" for m
    unfolding make_router_def c e ..
  note r = this [of None]
  have "get_model_router (env\<lparr>e_sandbox := sb\<rparr>) = get_model_router env"
    unfolding get_model_router_def r ..
  moreover have "cached_prompt (env\<lparr>e_sandbox := sb\<rparr>) name = cached_prompt env name"
    by (simp add: cached_prompt_def)
  ultimately show ?thesis by (simp add: new_agent_def)
qed

text \<open>C12: no task sees what another task printed in the same pass. If the sandbox's answers change
  only in their printed output, the executor makes the same requests in the same order and
  reaches the same verdicts and errors: the messages are built from the state the pass
  started with, so the section with the outputs of dependencies never shows a fresh one.\<close>

theorem executor_ignores_fresh_output:
  assumes "\<And>n rq t. same_verdict (e_sandbox env n rq t) (sb n rq t)"
    and "executor_agent env st w = (r, w1)" "executor_agent (env\<lparr>e_sandbox := sb\<rparr>) st w = (r', w2)"
  shows "w2 = w1 \<and> (case (r, r') of
       (Inl e, Inl e') \<Rightarrow> e' = e
     | (Inr u, Inr u') \<Rightarrow> u_task_plan u' = u_task_plan u \<and> u_error_log u' = u_error_log u
     | _ \<Rightarrow> False)"
proof -
  let ?ts = "concat (topological_sort (task_plan st))" and ?e = "env\<lparr>e_sandbox := sb\<rparr>"
  let ?acc = "\<lparr>ex_plan = task_plan st, ex_output = execution_output st, ex_errors = error_log st\<rparr>"
  obtain q w0 where a: "new_agent env ''executor'' w = (q, w0)" by (cases "new_agent env ''executor'' w")
  show ?thesis
  proof (cases q)
    case (Inl e)
    with a have "executor_agent env st w = (Inl e, w0)" "executor_agent ?e st w = (Inl e, w0)"
      by (simp_all add: executor_agent_def new_agent_sandbox)
    with assms(2,3) show ?thesis by auto
  next
    case (Inr ag)
    have "same_record ?acc ?acc" by (simp add: same_record_def)
    from rel_exec_tasks [where sb = sb, OF assms(1) this, of ag st ?ts w0]
    have rel: "rel_act (exec_tasks env ag st ?ts ?acc) (exec_tasks ?e ag st ?ts ?acc) w0" .
    obtain p v where p: "exec_tasks env ag st ?ts ?acc w0 = (p, v)" by (cases "exec_tasks env ag st ?ts ?acc w0")
    obtain p' where p': "exec_tasks ?e ag st ?ts ?acc w0 = (p', v)"
      using rel p by (cases "exec_tasks ?e ag st ?ts ?acc w0") (simp add: rel_act_def)
    have "executor_agent env st w = executor_run env ag st w0" "executor_agent ?e st w = executor_run ?e ag st w0"
      using a Inr by (simp_all add: executor_agent_def new_agent_sandbox)
    with assms(2,3) rel p p' show ?thesis
      by (cases p; cases p') (auto simp: rel_act_def executor_run_def same_record_def)
  qed
qed

definition loud_sandbox :: "nat \<Rightarrow> exec_request \<Rightarrow> int \<Rightarrow> rpc_error + exec_response" where
  "loud_sandbox n rq t = Inr \<lparr>rs_success = True, rs_stdout = ''LOUD'', rs_stderr = [], rs_exit_code = 0, rs_wall_ms = 9\<rparr>"

theorem executor_ignores_fresh_output_witness:
  "snd (executor_agent ((calm_env script_reply)\<lparr>e_sandbox := loud_sandbox\<rparr>) two_tasks fresh_world)
     = snd (executor_agent (calm_env script_reply) two_tasks fresh_world)"
proof -
  have s: "same_verdict (e_sandbox (calm_env script_reply) n rq t) (loud_sandbox n rq t)" for n rq t
    by (simp add: calm_env_def loud_sandbox_def)
  obtain r w1 where 1: "executor_agent (calm_env script_reply) two_tasks fresh_world = (r, w1)"
    by (cases "executor_agent (calm_env script_reply) two_tasks fresh_world")
  obtain r' w2 where 2: "executor_agent ((calm_env script_reply)\<lparr>e_sandbox := loud_sandbox\<rparr>) two_tasks fresh_world = (r', w2)"
    by (cases "executor_agent ((calm_env script_reply)\<lparr>e_sandbox := loud_sandbox\<rparr>) two_tasks fresh_world")
  from executor_ignores_fresh_output [OF s 1 2] 1 2 show ?thesis by simp
qed

end
