(* ===== verification/Pipeline.thy ===== *)
theory Pipeline
  imports Executor
begin

text \<open>
  The agent graph (\<open>backend/core/graph.py\<close>): its nodes, the conditional edges, one
  super-step of the runtime and a run under the runtime's limit on super-steps. The graph
  is written over the agents it calls, a record of functions; what it relies on is the
  locale \<open>agent_contract\<close>, under which the behaviour of runs is proved once.
\<close>

section \<open>Nodes\<close>

record 'w agents =
  ag_planner :: "nexus_state \<Rightarrow> 'w \<Rightarrow> state_update result \<times> 'w"
  ag_loop_check :: "string \<Rightarrow> task_node list \<Rightarrow> 'w \<Rightarrow> bool result \<times> 'w"
  ag_researcher :: "nexus_state \<Rightarrow> 'w \<Rightarrow> state_update result \<times> 'w"
  ag_executor :: "nexus_state \<Rightarrow> 'w \<Rightarrow> state_update result \<times> 'w"
  ag_verifier :: "nexus_state \<Rightarrow> 'w \<Rightarrow> state_update result \<times> 'w"
  ag_reflector :: "nexus_state \<Rightarrow> 'w \<Rightarrow> state_update result \<times> 'w"

definition max_reached :: string where "max_reached = ''max_iterations_reached''"
definition loop_detected :: string where "loop_detected = ''loop_detected''"

definition max_iter :: "nexus_state \<Rightarrow> int" where
  "max_iter st = int_or (max_iterations st) 3"

text \<open>\<open>{**base, **updates}\<close>: the second dictionary wins.\<close>

definition keep_or :: "'a option \<Rightarrow> 'a option \<Rightarrow> 'a option" where
  "keep_or b u = (case u of None \<Rightarrow> b | Some v \<Rightarrow> Some v)"

definition union_update :: "state_update \<Rightarrow> state_update \<Rightarrow> state_update" where
  "union_update b u =
     \<lparr>u_task_plan = keep_or (u_task_plan b) (u_task_plan u),
      u_research_context = keep_or (u_research_context b) (u_research_context u),
      u_execution_output = keep_or (u_execution_output b) (u_execution_output u),
      u_verification_report = keep_or (u_verification_report b) (u_verification_report u),
      u_quality_score = keep_or (u_quality_score b) (u_quality_score u),
      u_reflection_feedback = keep_or (u_reflection_feedback b) (u_reflection_feedback u),
      u_iteration_count = keep_or (u_iteration_count b) (u_iteration_count u),
      u_error_log = keep_or (u_error_log b) (u_error_log u),
      u_disclaimer = keep_or (u_disclaimer b) (u_disclaimer u)\<rparr>"

definition planner_node :: "'w agents \<Rightarrow> nexus_state \<Rightarrow> 'w \<Rightarrow> state_update result \<times> 'w" where
  "planner_node A st w =
     (let new_count = iteration_count st + 1;
          base = no_update\<lparr>u_iteration_count := Some new_count\<rparr>
      in if max_iter st < new_count then (Inr (base\<lparr>u_disclaimer := Some max_reached\<rparr>), w)
         else case ag_planner A (merge_update st base) w of
           (Inl e, w1) \<Rightarrow>
             (Inr (base\<lparr>u_error_log := Some (error_log st @ [''planner error: '' @ take 500 (exn_str e)])\<rparr>), w1)
         | (Inr updates, w1) \<Rightarrow>
             (let plan = (case u_task_plan updates of None \<Rightarrow> [] | Some p \<Rightarrow> p);
                  sid = (if session_id st = [] then ''unknown'' else session_id st)
              in case ag_loop_check A sid plan w1 of
                (Inr True, w2) \<Rightarrow>
                  (let log = (case u_error_log updates of Some (x # xs) \<Rightarrow> x # xs | _ \<Rightarrow> error_log st)
                   in (Inr ((union_update base updates)
                        \<lparr>u_error_log := Some (log @ [''loop detected '' @ dash @ '' identical plan repeated'']),
                         u_disclaimer := Some loop_detected\<rparr>), w2))
              | (_, w2) \<Rightarrow> (Inr (union_update base updates), w2)))"

definition output_node :: "nexus_state \<Rightarrow> state_update" where
  "output_node st =
     (if \<not> disclaimed st \<and> flt_less (quality_score st) quality_threshold \<and> max_iter st \<le> iteration_count st
      then no_update\<lparr>u_disclaimer := Some max_reached\<rparr> else no_update)"

section \<open>Edges\<close>

datatype node = PlannerN | ResearcherN | ExecutorN | VerifierN | ReflectorN | OutputN

definition route_after_planner :: "nexus_state \<Rightarrow> node" where
  "route_after_planner st = (if disclaimed st then OutputN else ResearcherN)"

definition route_after_reflector :: "nexus_state \<Rightarrow> node" where
  "route_after_reflector st =
     (if flt_le quality_threshold (quality_score st) then OutputN
      else if max_iter st \<le> iteration_count st then OutputN
      else PlannerN)"

text \<open>The node after a node, with the state merged; none after the output node.\<close>

fun next_node :: "node \<Rightarrow> nexus_state \<Rightarrow> node option" where
  "next_node PlannerN st = Some (route_after_planner st)"
| "next_node ResearcherN st = Some ExecutorN"
| "next_node ExecutorN st = Some VerifierN"
| "next_node VerifierN st = Some ReflectorN"
| "next_node ReflectorN st = Some (route_after_reflector st)"
| "next_node OutputN st = None"

fun run_node :: "'w agents \<Rightarrow> node \<Rightarrow> nexus_state \<Rightarrow> 'w \<Rightarrow> state_update result \<times> 'w" where
  "run_node A PlannerN st w = planner_node A st w"
| "run_node A ResearcherN st w = ag_researcher A st w"
| "run_node A ExecutorN st w = ag_executor A st w"
| "run_node A VerifierN st w = ag_verifier A st w"
| "run_node A ReflectorN st w = ag_reflector A st w"
| "run_node A OutputN st w = (Inr (output_node st), w)"

section \<open>Runs\<close>

datatype outcome = Finished nexus_state | Raised pyexn | LimitReached

text \<open>A run reports the updates of the nodes that completed, in order.\<close>

fun run_from :: "'w agents \<Rightarrow> nat \<Rightarrow> node \<Rightarrow> nexus_state \<Rightarrow> 'w \<Rightarrow> outcome \<times> (node \<times> state_update) list \<times> 'w" where
  "run_from A 0 n st w = (LimitReached, [], w)"
| "run_from A (Suc fuel) n st w =
     (case run_node A n st w of
        (Inl e, w1) \<Rightarrow> (Raised e, [], w1)
      | (Inr u, w1) \<Rightarrow>
          (let st1 = merge_update st u in
           case next_node n st1 of
             None \<Rightarrow> (Finished st1, [(n, u)], w1)
           | Some n1 \<Rightarrow>
               (case run_from A fuel n1 st1 w1 of (out, evs, w2) \<Rightarrow> (out, (n, u) # evs, w2))))"

text \<open>The runtime's default limit on super-steps.\<close>

definition recursion_limit :: nat where "recursion_limit = 25"

definition run_graph :: "'w agents \<Rightarrow> nexus_state \<Rightarrow> 'w \<Rightarrow> outcome \<times> (node \<times> state_update) list \<times> 'w" where
  "run_graph A st w = run_from A recursion_limit PlannerN st w"

text \<open>A larger limit changes nothing once a run is over.\<close>

lemma run_from_more:
  "fst (run_from A k n st w) \<noteq> LimitReached \<Longrightarrow> k \<le> l \<Longrightarrow> run_from A l n st w = run_from A k n st w"
proof (induction k arbitrary: l n st w)
  case (Suc k)
  then obtain l' where l: "l = Suc l'" "k \<le> l'" by (cases l) auto
  obtain r w1 where run: "run_node A n st w = (r, w1)" by (cases "run_node A n st w")
  show ?case
  proof (cases r)
    case (Inr u)
    show ?thesis
    proof (cases "next_node n (merge_update st u)")
      case (Some n1)
      with Suc.prems(1) run Inr have "fst (run_from A k n1 (merge_update st u) w1) \<noteq> LimitReached"
        by (auto simp: Let_def split: prod.splits)
      from Suc.IH [OF this l(2)] run Inr Some l(1) show ?thesis by (simp add: Let_def)
    qed (use run Inr l in \<open>simp add: Let_def\<close>)
  qed (use run l in simp)
qed simp

section \<open>Reachable configurations\<close>

inductive reachable :: "'w agents \<Rightarrow> nexus_state \<Rightarrow> 'w \<Rightarrow> node \<Rightarrow> nexus_state \<Rightarrow> 'w \<Rightarrow> bool"
  for A st0 w0 where
  start: "reachable A st0 w0 PlannerN st0 w0"
| step: "reachable A st0 w0 n st w \<Longrightarrow> run_node A n st w = (Inr u, w1) \<Longrightarrow>
    next_node n (merge_update st u) = Some n1 \<Longrightarrow> reachable A st0 w0 n1 (merge_update st u) w1"

section \<open>The orchestration the graph promises\<close>

text \<open>
  The abstract machine: where the session is and how many iterations it has begun, of at
  most \<open>M\<close>. Planning may be cut short by a loop; reflection passes the gate, gives up in the
  last iteration, or replans.
\<close>

inductive spec_step :: "int \<Rightarrow> node \<times> int \<Rightarrow> node \<times> int \<Rightarrow> bool" for M where
  plan: "k < M \<Longrightarrow> spec_step M (PlannerN, k) (ResearcherN, k + 1)"
| loop: "k < M \<Longrightarrow> spec_step M (PlannerN, k) (OutputN, k + 1)"
| research: "spec_step M (ResearcherN, k) (ExecutorN, k)"
| execute: "spec_step M (ExecutorN, k) (VerifierN, k)"
| verify: "spec_step M (VerifierN, k) (ReflectorN, k)"
| accept: "spec_step M (ReflectorN, k) (OutputN, k)"
| replan: "k < M \<Longrightarrow> spec_step M (ReflectorN, k) (PlannerN, k)"

inductive_cases spec_stepE [consumes 1]: "spec_step M (n, k) (n', k')"
inductive_simps spec_step_simps: "spec_step M (n, k) (n', k')"

text \<open>Super-steps and chat model calls that can still follow, when an iteration makes at most
  \<open>c\<close> calls of which the planner has three.\<close>

fun steps_left :: "int \<Rightarrow> node \<Rightarrow> int \<Rightarrow> int" where
  "steps_left M PlannerN k = 5 * (M - k) + 1"
| "steps_left M ResearcherN k = 5 * (M - k) + 5"
| "steps_left M ExecutorN k = 5 * (M - k) + 4"
| "steps_left M VerifierN k = 5 * (M - k) + 3"
| "steps_left M ReflectorN k = 5 * (M - k) + 2"
| "steps_left M OutputN k = 1"

fun calls_left :: "int \<Rightarrow> node \<Rightarrow> int \<Rightarrow> int" where
  "calls_left M PlannerN k = 39 * (M - k)"
| "calls_left M ResearcherN k = 39 * (M - k) + 36"
| "calls_left M ExecutorN k = 39 * (M - k) + 36"
| "calls_left M VerifierN k = 39 * (M - k) + 6"
| "calls_left M ReflectorN k = 39 * (M - k) + 3"
| "calls_left M OutputN k = 0"

lemma spec_step_bound: "spec_step M c c' \<Longrightarrow> snd c \<le> M \<Longrightarrow> snd c' \<le> M"
  by (induction rule: spec_step.induct) auto

lemma spec_step_steps: "spec_step M (n, k) (n', k') \<Longrightarrow> k \<le> M \<Longrightarrow> steps_left M n' k' < steps_left M n k"
  by (auto elim!: spec_stepE)

section \<open>The contract of the agents\<close>

text \<open>What the graph relies on: each agent updates its own fields only, a plan is well formed,
  the score is a finite number in the unit interval, and the number of chat model calls is bounded.\<close>

definition unit_quality :: "pyfloat \<Rightarrow> bool" where
  "unit_quality x \<longleftrightarrow> (\<exists>q. x = Fin q \<and> 0 \<le> q \<and> q \<le> 1)"

definition small_plan :: "task_node list \<Rightarrow> bool" where
  "small_plan p \<longleftrightarrow> distinct (map task_id p) \<and> length p \<le> 10"

text \<open>What holds when a node is about to run, in a run of at most \<open>M\<close> iterations.\<close>

definition run_inv :: "int \<Rightarrow> node \<Rightarrow> nexus_state \<Rightarrow> bool" where
  "run_inv M n st \<longleftrightarrow> max_iterations st = M \<and> 0 \<le> iteration_count st \<and> iteration_count st \<le> M
     \<and> small_plan (task_plan st) \<and> unit_quality (quality_score st)
     \<and> (n \<noteq> PlannerN \<longrightarrow> 1 \<le> iteration_count st)
     \<and> (n = PlannerN \<longrightarrow> iteration_count st < M)
     \<and> (if n = OutputN
        then disclaimer st = Some loop_detected \<or> disclaimer st = None
               \<and> (flt_le quality_threshold (quality_score st) \<or> iteration_count st = M)
        else disclaimer st = None)"

lemma max_iter_eq: "1 \<le> M \<Longrightarrow> max_iterations st = M \<Longrightarrow> max_iter st = M"
  by (simp add: max_iter_def int_or_def)

lemma threshold_total: "unit_quality x \<Longrightarrow> flt_less x quality_threshold \<longleftrightarrow> \<not> flt_le quality_threshold x"
  by (auto simp: unit_quality_def quality_threshold_value)

lemma update_fields [simp]:
  "u_task_plan no_update = None" "u_research_context no_update = None" "u_execution_output no_update = None"
  "u_verification_report no_update = None" "u_quality_score no_update = None"
  "u_reflection_feedback no_update = None" "u_iteration_count no_update = None"
  "u_error_log no_update = None" "u_disclaimer no_update = None"
  by (simp_all add: no_update_def)

text \<open>The planner node never fails; its three outcomes below the cap.\<close>

lemma planner_node_cases:
  assumes "iteration_count st < max_iter st"
  obtains (failed) e w1 where "ag_planner A (merge_update st (no_update\<lparr>u_iteration_count := Some (iteration_count st + 1)\<rparr>)) w = (Inl e, w1)"
      "planner_node A st w = (Inr (no_update\<lparr>u_iteration_count := Some (iteration_count st + 1),
          u_error_log := Some (error_log st @ [''planner error: '' @ take 500 (exn_str e)])\<rparr>), w1)"
  | (loop) u w1 sid p w2 log where "ag_planner A (merge_update st (no_update\<lparr>u_iteration_count := Some (iteration_count st + 1)\<rparr>)) w = (Inr u, w1)"
      "ag_loop_check A sid p w1 = (Inr True, w2)"
      "planner_node A st w = (Inr ((union_update (no_update\<lparr>u_iteration_count := Some (iteration_count st + 1)\<rparr>) u)
          \<lparr>u_error_log := Some log, u_disclaimer := Some loop_detected\<rparr>), w2)"
  | (planned) u w1 sid p b w2 where "ag_planner A (merge_update st (no_update\<lparr>u_iteration_count := Some (iteration_count st + 1)\<rparr>)) w = (Inr u, w1)"
      "ag_loop_check A sid p w1 = (b, w2)" "b \<noteq> Inr True"
      "planner_node A st w = (Inr (union_update (no_update\<lparr>u_iteration_count := Some (iteration_count st + 1)\<rparr>) u), w2)"
proof -
  let ?base = "no_update\<lparr>u_iteration_count := Some (iteration_count st + 1)\<rparr>"
  have n: "\<not> max_iter st < iteration_count st + 1" using assms by simp
  obtain r w1 where p: "ag_planner A (merge_update st ?base) w = (r, w1)"
    by (cases "ag_planner A (merge_update st ?base) w")
  show thesis
  proof (cases r)
    case (Inl e)
    with p n show thesis by (intro failed) (simp_all add: planner_node_def Let_def)
  next
    case (Inr u)
    let ?p = "case u_task_plan u of None \<Rightarrow> [] | Some p \<Rightarrow> p" and ?sid = "if session_id st = [] then ''unknown'' else session_id st"
    obtain b w2 where l: "ag_loop_check A ?sid ?p w1 = (b, w2)" by (cases "ag_loop_check A ?sid ?p w1")
    show thesis
    proof (cases "b = Inr True")
      case True
      with p Inr n l show thesis by (intro loop) (simp_all add: planner_node_def Let_def)
    next
      case False
      with p Inr n l show thesis
        by (intro planned [of u w1 ?sid ?p b w2]) (auto simp: planner_node_def Let_def split: sum.splits bool.splits)
    qed
  qed
qed

text \<open>The part of an iteration still ahead when a node is about to run.\<close>

definition one_round :: "node list" where
  "one_round = [PlannerN, ResearcherN, ExecutorN, VerifierN, ReflectorN]"

fun rest_of_round :: "node \<Rightarrow> node list" where
  "rest_of_round ResearcherN = [ResearcherN, ExecutorN, VerifierN, ReflectorN]"
| "rest_of_round ExecutorN = [ExecutorN, VerifierN, ReflectorN]"
| "rest_of_round VerifierN = [VerifierN, ReflectorN]"
| "rest_of_round ReflectorN = [ReflectorN]"
| "rest_of_round _ = []"

definition rounds :: "nat \<Rightarrow> node list" where
  "rounds j = concat (replicate j one_round)"

definition tail_nodes :: "bool \<Rightarrow> node list" where
  "tail_nodes looped = (if looped then [PlannerN, OutputN] else [OutputN])"

text \<open>Whether the planner node reported a loop, and what a run ends with in either case.\<close>

definition loop_reported :: "(node \<times> state_update) list \<Rightarrow> bool" where
  "loop_reported evs \<longleftrightarrow> list_ex (\<lambda>(n, u). n = PlannerN \<and> u_disclaimer u = Some loop_detected) evs"

definition gate_outcome :: "int \<Rightarrow> bool \<Rightarrow> nexus_state \<Rightarrow> bool" where
  "gate_outcome M looped st \<longleftrightarrow>
     disclaimer st = (if looped then Some ''loop_detected''
       else if flt_le quality_threshold (quality_score st) then None else Some ''max_iterations_reached'')
   \<and> (looped \<or> flt_le quality_threshold (quality_score st) \<or> iteration_count st = M)"

locale agent_contract =
  fixes A :: "'w agents" and calls :: "'w \<Rightarrow> nat"
  assumes planner_law: "ag_planner A st w = (r, w') \<Longrightarrow> calls w' \<le> calls w + 3
      \<and> (\<forall>u. r = Inr u \<longrightarrow> (\<exists>p. u = no_update\<lparr>u_task_plan := Some p\<rparr> \<and> small_plan p))"
    and loop_law: "ag_loop_check A sid p w = (b, w') \<Longrightarrow> calls w' \<le> calls w"
    and researcher_law: "ag_researcher A st w = (r, w') \<Longrightarrow> calls w' \<le> calls w
      \<and> (\<forall>u. r = Inr u \<longrightarrow> (\<exists>c. u = no_update\<lparr>u_research_context := Some c\<rparr>))"
    and executor_law: "ag_executor A st w = (r, w') \<Longrightarrow> small_plan (task_plan st) \<Longrightarrow> calls w' \<le> calls w + 30
      \<and> (\<forall>u. r = Inr u \<longrightarrow> (\<exists>p out log. u = no_update\<lparr>u_task_plan := Some p, u_execution_output := Some out,
            u_error_log := Some log\<rparr> \<and> small_plan p))"
    and verifier_law: "ag_verifier A st w = (r, w') \<Longrightarrow> calls w' \<le> calls w + 3
      \<and> (\<forall>u. r = Inr u \<longrightarrow> (\<exists>v. u = no_update\<lparr>u_verification_report := Some v\<rparr>))"
    and reflector_law: "ag_reflector A st w = (r, w') \<Longrightarrow> calls w' \<le> calls w + 3
      \<and> (\<forall>u. r = Inr u \<longrightarrow> (\<exists>q fb. u = no_update\<lparr>u_quality_score := Some q, u_reflection_feedback := Some fb\<rparr>
            \<and> unit_quality q))"
begin

lemma planner_step:
  assumes M: "1 \<le> M" and inv: "run_inv M PlannerN st" and run: "planner_node A st w = (r, w1)"
  shows "\<exists>u. r = Inr u \<and> run_inv M (route_after_planner (merge_update st u)) (merge_update st u)
    \<and> spec_step M (PlannerN, iteration_count st)
        (route_after_planner (merge_update st u), iteration_count (merge_update st u))
    \<and> calls w1 \<le> calls w + 3"
proof -
  have lt: "iteration_count st < max_iter st" and k: "iteration_count st < M"
    using inv max_iter_eq [OF M] by (auto simp: run_inv_def)
  have base: "0 \<le> iteration_count st" "disclaimer st = None" "small_plan (task_plan st)"
    "unit_quality (quality_score st)" "max_iterations st = M" using inv by (auto simp: run_inv_def)
  show ?thesis
  proof (cases rule: planner_node_cases [OF lt, of A w])
    case (1 e w')
    with run planner_law [OF 1(1)] k base show ?thesis
      by (auto simp: run_inv_def route_after_planner_def disclaimed_def spec_step_simps)
  next
    case (2 u w' sid p w2 log)
    from planner_law [OF 2(1)] obtain q where u: "u = no_update\<lparr>u_task_plan := Some q\<rparr>" "small_plan q"
      and c: "calls w' \<le> calls w + 3" by auto
    with loop_law [OF 2(2)] 2(3) run k base show ?thesis
      by (auto simp: run_inv_def route_after_planner_def disclaimed_def spec_step_simps union_update_def
          keep_or_def loop_detected_def)
  next
    case (3 u w' sid p b w2)
    from planner_law [OF 3(1)] obtain q where u: "u = no_update\<lparr>u_task_plan := Some q\<rparr>" "small_plan q"
      and c: "calls w' \<le> calls w + 3" by auto
    with loop_law [OF 3(2)] 3(4) run k base show ?thesis
      by (auto simp: run_inv_def route_after_planner_def disclaimed_def spec_step_simps union_update_def
          keep_or_def)
  qed
qed

text \<open>One super-step, for every node: the invariant, the abstract step, the calls it may use.\<close>

lemma node_step:
  assumes M: "1 \<le> M" and inv: "run_inv M n st" and run: "run_node A n st w = (r, w1)"
  shows "int (calls w1) \<le> int (calls w) + calls_left M n (iteration_count st)"
    and "r = Inr u \<Longrightarrow> next_node n (merge_update st u) = Some n1 \<Longrightarrow>
      run_inv M n1 (merge_update st u)
      \<and> spec_step M (n, iteration_count st) (n1, iteration_count (merge_update st u))
      \<and> int (calls w1) + calls_left M n1 (iteration_count (merge_update st u))
          \<le> int (calls w) + calls_left M n (iteration_count st)"
proof -
  have k: "iteration_count st \<le> M" "n = PlannerN \<Longrightarrow> iteration_count st < M"
    using inv by (auto simp: run_inv_def)
  have both: "int (calls w1) \<le> int (calls w) + calls_left M n (iteration_count st)
    \<and> (\<forall>u n1. r = Inr u \<longrightarrow> next_node n (merge_update st u) = Some n1 \<longrightarrow>
      run_inv M n1 (merge_update st u)
      \<and> spec_step M (n, iteration_count st) (n1, iteration_count (merge_update st u))
      \<and> int (calls w1) + calls_left M n1 (iteration_count (merge_update st u))
          \<le> int (calls w) + calls_left M n (iteration_count st))"
  proof (cases n)
    case PlannerN
    from planner_step [OF M inv [unfolded PlannerN] run [unfolded PlannerN run_node.simps]] obtain u where u: "r = Inr u"
      "run_inv M (route_after_planner (merge_update st u)) (merge_update st u)"
      "spec_step M (PlannerN, iteration_count st)
        (route_after_planner (merge_update st u), iteration_count (merge_update st u))" "calls w1 \<le> calls w + 3" by blast
    from u(3,4) k(2) [OF PlannerN] PlannerN u(1,2) show ?thesis
      by (cases "route_after_planner (merge_update st u)") (auto simp: spec_step_simps)
  next
    case ResearcherN
    with run researcher_law [of st w r w1] k inv show ?thesis
      by (auto simp: run_inv_def spec_step_simps)
  next
    case ExecutorN
    then have "small_plan (task_plan st)" using inv by (simp add: run_inv_def)
    with ExecutorN run executor_law [of st w r w1] k inv show ?thesis
      by (auto simp: run_inv_def spec_step_simps)
  next
    case VerifierN
    with run verifier_law [of st w r w1] k inv show ?thesis
      by (auto simp: run_inv_def spec_step_simps)
  next
    case ReflectorN
    with run reflector_law [of st w r w1] k inv max_iter_eq [OF M, of "merge_update st _"] show ?thesis
      by (auto simp: run_inv_def spec_step_simps route_after_reflector_def)
  next
    case OutputN
    with run show ?thesis by simp
  qed
  then show "int (calls w1) \<le> int (calls w) + calls_left M n (iteration_count st)" by blast
  show "r = Inr u \<Longrightarrow> next_node n (merge_update st u) = Some n1 \<Longrightarrow>
      run_inv M n1 (merge_update st u)
      \<and> spec_step M (n, iteration_count st) (n1, iteration_count (merge_update st u))
      \<and> int (calls w1) + calls_left M n1 (iteration_count (merge_update st u))
          \<le> int (calls w) + calls_left M n (iteration_count st)" using both by blast
qed

text \<open>What is known of the state a run finishes in.\<close>

lemma run_step:
  assumes "run_node A n st w = (Inr u, w1)" "next_node n (merge_update st u) = Some n1"
    and "run_from A (Suc fuel) n st w = (out, evs, w')"
  obtains evs1 where "run_from A fuel n1 (merge_update st u) w1 = (out, evs1, w')" "evs = (n, u) # evs1"
  using assms by (auto simp: Let_def split: prod.splits)

lemma run_no_limit:
  assumes "1 \<le> M" "run_inv M n st" "steps_left M n (iteration_count st) \<le> int fuel"
  shows "fst (run_from A fuel n st w) \<noteq> LimitReached"
  using assms(2,3)
proof (induction fuel arbitrary: n st w)
  case 0
  then show ?case by (cases n) (auto simp: run_inv_def)
next
  case (Suc fuel)
  obtain r w1 where run: "run_node A n st w = (r, w1)" by (cases "run_node A n st w")
  show ?case
  proof (cases r)
    case (Inr u)
    show ?thesis
    proof (cases "next_node n (merge_update st u)")
      case (Some n1)
      from node_step(2) [OF assms(1) Suc.prems(1) run Inr Some]
      have i: "run_inv M n1 (merge_update st u)"
        and s: "spec_step M (n, iteration_count st) (n1, iteration_count (merge_update st u))" by auto
      have "iteration_count st \<le> M" using Suc.prems(1) by (simp add: run_inv_def)
      from spec_step_steps [OF s this] Suc.prems(2)
      have "steps_left M n1 (iteration_count (merge_update st u)) \<le> int fuel" by linarith
      from Suc.IH [OF i this, of w1] run Inr Some show ?thesis
        by (cases "run_from A fuel n1 (merge_update st u) w1") (simp add: Let_def)
    qed (use run Inr in \<open>simp add: Let_def\<close>)
  qed (use run in simp)
qed

lemma run_calls:
  assumes "1 \<le> M" "run_inv M n st" "run_from A fuel n st w = (out, evs, w')"
  shows "int (calls w') \<le> int (calls w) + calls_left M n (iteration_count st)"
  using assms(2,3)
proof (induction fuel arbitrary: n st w evs)
  case 0
  then have "0 \<le> calls_left M n (iteration_count st)" by (cases n) (auto simp: run_inv_def)
  with 0 show ?case by simp
next
  case (Suc fuel)
  obtain r w1 where run: "run_node A n st w = (r, w1)" by (cases "run_node A n st w")
  note c = node_step(1) [OF assms(1) Suc.prems(1) run]
  show ?case
  proof (cases r)
    case (Inl e)
    with Suc.prems(2) run c show ?thesis by simp
  next
    case (Inr u)
    show ?thesis
    proof (cases "next_node n (merge_update st u)")
      case None
      with Suc.prems(2) run c Inr show ?thesis by (simp add: Let_def)
    next
      case (Some n1)
      from node_step(2) [OF assms(1) Suc.prems(1) run Inr Some]
      have i: "run_inv M n1 (merge_update st u)" and
        l: "int (calls w1) + calls_left M n1 (iteration_count (merge_update st u))
              \<le> int (calls w) + calls_left M n (iteration_count st)" by auto
      from run_step [OF run [unfolded Inr] Some Suc.prems(2)] Suc.IH [OF i] l show ?thesis
        by (metis (no_types, lifting) order_trans)
    qed
  qed
qed

lemma output_gate:
  assumes "1 \<le> M" "run_inv M OutputN st"
  shows "gate_outcome M (disclaimer st = Some loop_detected) (merge_update st (output_node st))"
proof -
  have q: "unit_quality (quality_score st)" and m: "max_iter st = M"
    using assms max_iter_eq by (auto simp: run_inv_def)
  have d: "disclaimer st = Some loop_detected \<or> disclaimer st = None
               \<and> (flt_le quality_threshold (quality_score st) \<or> iteration_count st = M)"
    using assms(2) by (simp add: run_inv_def)
  then show ?thesis
    by (auto simp: gate_outcome_def output_node_def disclaimed_def threshold_total [OF q] m loop_detected_def max_reached_def)
qed

text \<open>What the planner's and the reflector's step towards the output node leave in the state.\<close>

lemma output_after:
  assumes "1 \<le> M" "run_inv M n st" "run_node A n st w = (Inr u, w1)" "next_node n (merge_update st u) = Some n1"
  shows "n = PlannerN \<Longrightarrow> u_disclaimer u = Some loop_detected \<longleftrightarrow> n1 = OutputN"
    "n \<noteq> OutputN \<Longrightarrow> disclaimer (merge_update st u) = Some loop_detected \<longleftrightarrow> n = PlannerN \<and> n1 = OutputN"
proof -
  from node_step(2) [OF assms(1-3) refl assms(4)]
  have i: "run_inv M n1 (merge_update st u)" and sp: "spec_step M (n, iteration_count st) (n1, iteration_count (merge_update st u))"
    by auto
  have d: "disclaimer st = None" if "n \<noteq> OutputN" using assms(2) that by (simp add: run_inv_def)
  have p: "disclaimer (merge_update st u) = Some loop_detected \<longleftrightarrow> n1 = OutputN" if "n = PlannerN"
  proof
    assume "disclaimer (merge_update st u) = Some loop_detected"
    with i show "n1 = OutputN" by (auto simp: run_inv_def split: if_splits)
  next
    assume "n1 = OutputN"
    with assms(4) that have "disclaimed (merge_update st u)" by (simp add: route_after_planner_def split: if_splits)
    with i \<open>n1 = OutputN\<close> show "disclaimer (merge_update st u) = Some loop_detected" by (auto simp: run_inv_def disclaimed_def)
  qed
  then show "u_disclaimer u = Some loop_detected \<longleftrightarrow> n1 = OutputN" if "n = PlannerN"
    using that d by (auto split: option.splits)
  show "disclaimer (merge_update st u) = Some loop_detected \<longleftrightarrow> n = PlannerN \<and> n1 = OutputN" if o: "n \<noteq> OutputN"
  proof (cases "n = PlannerN")
    case False
    have "u_disclaimer u = None"
      using False o assms(2,3) researcher_law [of st w _ w1] executor_law [of st w _ w1] verifier_law [of st w _ w1]
        reflector_law [of st w _ w1] by (cases n) (fastforce simp: run_inv_def)+
    with False d [OF o] show ?thesis by simp
  qed (use p in simp)
qed

lemma run_finished:
  assumes "1 \<le> M" "run_inv M n st" "run_from A fuel n st w = (Finished st', evs, w')"
  shows "1 \<le> iteration_count st' \<and> iteration_count st' \<le> M \<and> unit_quality (quality_score st')
    \<and> user_goal st' = user_goal st \<and> session_id st' = session_id st \<and> user_id st' = user_id st
    \<and> gate_outcome M (loop_reported evs \<or> disclaimer st = Some loop_detected) st'
    \<and> (\<exists>j. map fst evs = rest_of_round n @ rounds j @ tail_nodes (loop_reported evs)
         \<and> (n = PlannerN \<and> \<not> loop_reported evs \<longrightarrow> 1 \<le> j) \<and> (n = OutputN \<longrightarrow> j = 0 \<and> \<not> loop_reported evs)
         \<and> iteration_count st' = iteration_count st + int j + (if loop_reported evs then 1 else 0))"
  using assms(2,3)
proof (induction fuel arbitrary: n st w evs)
  case (Suc fuel)
  obtain r w1 where run: "run_node A n st w = (r, w1)" by (cases "run_node A n st w")
  then obtain u where Inr: "r = Inr u" using Suc.prems(2) by (cases r) auto
  show ?case
  proof (cases "next_node n (merge_update st u)")
    case None
    then have n: "n = OutputN" by (cases n) simp_all
    with run Inr Suc.prems(2) have st': "st' = merge_update st (output_node st)" and evs: "evs = [(OutputN, u)]" by auto
    have "u_iteration_count (output_node st) = None" "u_quality_score (output_node st) = None"
      by (simp_all add: output_node_def)
    with output_gate [OF assms(1)] Suc.prems(1) n show ?thesis
      unfolding st' evs by (intro conjI exI [of _ 0]) (simp_all add: run_inv_def rounds_def tail_nodes_def loop_reported_def)
  next
    case (Some n1)
    let ?st1 = "merge_update st u"
    from node_step(2) [OF assms(1) Suc.prems(1) run Inr Some]
    have i: "run_inv M n1 ?st1" and sp: "spec_step M (n, iteration_count st) (n1, iteration_count ?st1)" by auto
    from run_step [OF run [unfolded Inr] Some Suc.prems(2)] obtain evs1
      where r1: "run_from A fuel n1 ?st1 w1 = (Finished st', evs1, w')" and evs: "evs = (n, u) # evs1" by blast
    from Suc.IH [OF i r1] obtain j where IH: "1 \<le> iteration_count st'" "iteration_count st' \<le> M"
      "unit_quality (quality_score st')" "user_goal st' = user_goal st" "session_id st' = session_id st" "user_id st' = user_id st"
      and g: "gate_outcome M (loop_reported evs1 \<or> disclaimer ?st1 = Some loop_detected) st'"
      and path: "map fst evs1 = rest_of_round n1 @ rounds j @ tail_nodes (loop_reported evs1)"
      "n1 = PlannerN \<and> \<not> loop_reported evs1 \<longrightarrow> 1 \<le> j" "n1 = OutputN \<longrightarrow> j = 0 \<and> \<not> loop_reported evs1"
      "iteration_count st' = iteration_count ?st1 + int j + (if loop_reported evs1 then 1 else 0)" by auto
    from output_after [OF assms(1) Suc.prems(1) run [unfolded Inr] Some]
    have l: "loop_reported evs \<longleftrightarrow> (n = PlannerN \<and> n1 = OutputN) \<or> loop_reported evs1"
      "n \<noteq> OutputN \<Longrightarrow> disclaimer ?st1 = Some loop_detected \<longleftrightarrow> n = PlannerN \<and> n1 = OutputN"
      by (auto simp: evs loop_reported_def)
    have o: "n \<noteq> OutputN" using Some by auto
    then have "disclaimer st = None" using Suc.prems(1) by (simp add: run_inv_def)
    with g l(2) [OF o] have "gate_outcome M (loop_reported evs \<or> disclaimer st = Some loop_detected) st'"
      by (simp add: l(1) disj_commute)
    moreover from sp have "\<exists>j. map fst evs = rest_of_round n @ rounds j @ tail_nodes (loop_reported evs)
         \<and> (n = PlannerN \<and> \<not> loop_reported evs \<longrightarrow> 1 \<le> j) \<and> (n = OutputN \<longrightarrow> j = 0 \<and> \<not> loop_reported evs)
         \<and> iteration_count st' = iteration_count st + int j + (if loop_reported evs then 1 else 0)"
    proof (cases rule: spec_stepE)
      case 1
      with path evs l(1) show ?thesis by (intro exI [of _ "Suc j"]) (simp add: rounds_def one_round_def)
    next
      case 2
      with path evs l(1) show ?thesis by (intro exI [of _ 0]) (simp add: rounds_def tail_nodes_def)
    next
      case 3
      with path evs l(1) show ?thesis by (intro exI [of _ j]) simp
    next
      case 4
      with path evs l(1) show ?thesis by (intro exI [of _ j]) simp
    next
      case 5
      with path evs l(1) show ?thesis by (intro exI [of _ j]) simp
    next
      case 6
      with path evs l(1) show ?thesis by (intro exI [of _ j]) simp
    next
      case 7
      with path evs l(1) show ?thesis by (intro exI [of _ j]) simp
    qed
    ultimately show ?thesis using IH by blast
  qed
qed simp

lemma reachable_inv:
  assumes "1 \<le> M" "run_inv M PlannerN st0" "reachable A st0 w0 n st w"
  shows "run_inv M n st"
  using assms(3)
proof (induction rule: reachable.induct)
  case start
  then show ?case by (rule assms(2))
next
  case (step n st w u w1 n1)
  from node_step(2) [OF assms(1) step.IH step.hyps(2) refl step.hyps(3)] show ?case by blast
qed

end

end
