(* ===== verification/Graph.thy ===== *)
theory Graph
  imports Pipeline
begin

text \<open>
  The graph of \<open>backend/core/graph.py\<close> over the modelled agents: the agents keep the
  contract the graph relies on, whatever the models and services answer, so what was proved
  of runs under the contract holds of the program.
\<close>

definition nexus_agents :: "env \<Rightarrow> world agents" where
  "nexus_agents env = \<lparr>ag_planner = planner_agent env, ag_loop_check = loop_check env,
     ag_researcher = researcher_agent env, ag_executor = executor_agent env,
     ag_verifier = verifier_agent env, ag_reflector = reflector_agent env\<rparr>"

lemma nexus_agents_simps [simp]:
  "ag_planner (nexus_agents env) = planner_agent env" "ag_loop_check (nexus_agents env) = loop_check env"
  "ag_researcher (nexus_agents env) = researcher_agent env" "ag_executor (nexus_agents env) = executor_agent env"
  "ag_verifier (nexus_agents env) = verifier_agent env" "ag_reflector (nexus_agents env) = reflector_agent env"
  by (simp_all add: nexus_agents_def)

section \<open>The agents keep the contract\<close>

lemma plan_ok_small: "plan_ok p \<Longrightarrow> small_plan p"
  by (simp add: plan_ok_def small_plan_def max_tasks_def)

text \<open>The executor works on a plan whose statuses it has changed, so only the ids matter here.\<close>

lemma topological_sort_length:
  assumes "distinct (map task_id p)"
  shows "length (concat (topological_sort p)) \<le> length p"
proof -
  let ?ids = "concat (map (map task_id) (topological_sort p))"
  have len: "length ?ids = length (concat (topological_sort p))"
    by (simp add: map_concat [symmetric])
  have "distinct ?ids" "set ?ids \<subseteq> task_id ` set p"
    using layered_distinct [OF topological_sort_layered(1) [OF assms]] by auto
  then have "length ?ids \<le> card (task_id ` set p)" by (metis card_mono distinct_card finite_imageI finite_set)
  also have "\<dots> \<le> length p" by (metis card_image_le card_length finite_set order_trans)
  finally show ?thesis using len by simp
qed

lemma executor_contract:
  assumes "executor_agent env st w = (r, w')" "small_plan (task_plan st)"
  shows "w_llm_calls w' \<le> w_llm_calls w + 30 \<and> (\<forall>u. r = Inr u \<longrightarrow> (\<exists>p out log.
      u = no_update\<lparr>u_task_plan := Some p, u_execution_output := Some out, u_error_log := Some log\<rparr> \<and> small_plan p))"
proof (intro conjI allI impI)
  have "3 * length (concat (topological_sort (task_plan st))) \<le> 30"
    using topological_sort_length [of "task_plan st"] assms(2) by (simp add: small_plan_def)
  with llm_costD [OF cost_executor assms(1)] show "w_llm_calls w' \<le> w_llm_calls w + 30" by linarith
next
  fix u assume "r = Inr u"
  with assms(1) have run: "executor_agent env st w = (Inr u, w')" by simp
  from executor_Inr [OF run] obtain p out log where
    u: "u = no_update\<lparr>u_task_plan := Some p, u_execution_output := Some out, u_error_log := Some log\<rparr>" by blast
  with executor_plan_ids [OF run, of p] have "map task_id p = map task_id (task_plan st)" by simp
  with assms(2) have "small_plan p" unfolding small_plan_def by (metis length_map)
  with u show "\<exists>p out log. u = no_update\<lparr>u_task_plan := Some p, u_execution_output := Some out, u_error_log := Some log\<rparr>
      \<and> small_plan p" by blast
qed

interpretation nexus: agent_contract "nexus_agents env" w_llm_calls for env
proof
  fix st :: nexus_state and w w' :: world and r
  assume "ag_planner (nexus_agents env) st w = (r, w')"
  then have run: "planner_agent env st w = (r, w')" by simp
  show "w_llm_calls w' \<le> w_llm_calls w + 3 \<and> (\<forall>u. r = Inr u \<longrightarrow> (\<exists>p. u = no_update\<lparr>u_task_plan := Some p\<rparr> \<and> small_plan p))"
    using llm_costD [OF cost_planner run] planner_Inr run plan_ok_small by blast
next
  fix sid p and w w' :: world and b
  assume "ag_loop_check (nexus_agents env) sid p w = (b, w')"
  then have "loop_check env sid p w = (b, w')" by simp
  from llm_costD [OF cost_loop_check this] show "w_llm_calls w' \<le> w_llm_calls w" by simp
next
  fix st :: nexus_state and w w' :: world and r
  assume "ag_researcher (nexus_agents env) st w = (r, w')"
  then have run: "researcher_agent env st w = (r, w')" by simp
  show "w_llm_calls w' \<le> w_llm_calls w \<and> (\<forall>u. r = Inr u \<longrightarrow> (\<exists>c. u = no_update\<lparr>u_research_context := Some c\<rparr>))"
    using llm_costD [OF cost_researcher run] researcher_Inr [of env st w] run by auto
next
  fix st :: nexus_state and w w' :: world and r
  assume "ag_executor (nexus_agents env) st w = (r, w')" "small_plan (task_plan st)"
  then show "w_llm_calls w' \<le> w_llm_calls w + 30 \<and> (\<forall>u. r = Inr u \<longrightarrow> (\<exists>p out log.
      u = no_update\<lparr>u_task_plan := Some p, u_execution_output := Some out, u_error_log := Some log\<rparr> \<and> small_plan p))"
    using executor_contract by simp
next
  fix st :: nexus_state and w w' :: world and r
  assume "ag_verifier (nexus_agents env) st w = (r, w')"
  then have run: "verifier_agent env st w = (r, w')" by simp
  show "w_llm_calls w' \<le> w_llm_calls w + 3 \<and> (\<forall>u. r = Inr u \<longrightarrow> (\<exists>v. u = no_update\<lparr>u_verification_report := Some v\<rparr>))"
    using llm_costD [OF cost_verifier run] verifier_Inr run by blast
next
  fix st :: nexus_state and w w' :: world and r
  assume "ag_reflector (nexus_agents env) st w = (r, w')"
  then have run: "reflector_agent env st w = (r, w')" by simp
  show "w_llm_calls w' \<le> w_llm_calls w + 3 \<and> (\<forall>u. r = Inr u \<longrightarrow> (\<exists>q fb.
      u = no_update\<lparr>u_quality_score := Some q, u_reflection_feedback := Some fb\<rparr> \<and> unit_quality q))"
    using llm_costD [OF cost_reflector run] reflector_Inr run by (fastforce simp: unit_quality_def unit_score_def)
qed

text \<open>The nodes leave alone what belongs to the API.\<close>

lemma keeps_nodes: "act_keeps world_le (run_node (nexus_agents env) n st)"
proof (cases n)
  case PlannerN
  have p: "planner_agent env x v = (r, v') \<Longrightarrow> world_le v v'" for x v r v'
    using keeps_planner [of env x] by (metis act_keeps_def snd_conv)
  have l: "loop_check env sid plan v = (r, v') \<Longrightarrow> world_le v v'" for sid plan v r v'
    using keeps_loop_check [of env sid plan] by (metis act_keeps_def snd_conv)
  show ?thesis unfolding act_keeps_def PlannerN run_node.simps
  proof
    fix w
    show "world_le w (snd (planner_node (nexus_agents env) st w))"
    proof (cases "iteration_count st < max_iter st")
      case True
      then show ?thesis
        by (cases rule: planner_node_cases [of st "nexus_agents env" w]) (auto dest!: p l intro: grow.trans)
    qed (simp add: planner_node_def Let_def grow.refl)
  qed
qed (use keeps_researcher keeps_executor keeps_verifier keeps_reflector in \<open>auto simp: act_keeps_def grow.refl\<close>)

lemma initial_inv: "run_inv 3 PlannerN (initial_state g s u mem)"
  by (simp add: run_inv_def initial_state_def small_plan_def unit_quality_def)

section \<open>A run with an empty-handed model\<close>

text \<open>A chat model that answers every prompt with an empty object: the planner fails, the other agents
  make do, and every agent but the planner returns in every state.\<close>

definition idle_env :: env where
  "idle_env = calm_env (\<lambda>n p. Inr (JStr ''{}''))"

lemma calm_agent: "\<exists>a w'. new_agent (calm_env llm) name w = (Inr a, w')"
proof -
  have router: "\<exists>r w'. get_model_router (calm_env llm) w = (Inr r, w')" for w
  proof (cases "w_router w")
    case None
    have "dget model_names_table ''openai_only'' \<noteq> None" by code_simp
    with None show ?thesis
      by (auto simp: get_model_router_def make_router_def calm_env_def plain_settings_def new_client_def Let_def)
  qed (simp add: get_model_router_def)
  obtain r w1 where r: "get_model_router (calm_env llm) w = (Inr r, w1)" using router by blast
  have "e_prompt_file (calm_env llm) f = Inr f" for f by (simp add: calm_env_def)
  then obtain p w2 where "cached_prompt (calm_env llm) name w1 = (Inr p, w2)"
    by (cases "dget (w_prompts w1) name") (auto simp: cached_prompt_def load_prompt_def)
  with r have "new_agent (calm_env llm) name w = (Inr \<lparr>ag_name = name, ag_router = r, ag_prompt = p\<rparr>, w2)"
    by (simp add: new_agent_def)
  then show ?thesis by blast
qed

lemma idle_invoke: "\<exists>w'. invoke_json idle_env a t c w = (Inr (JObj []), w')"
proof -
  have "parse_json (py_str (JStr ''{}'')) = Inr (JObj [])" by code_simp
  moreover have "e_llm idle_env n m p x = Inr (JStr ''{}'')" for n m p x by (simp add: idle_env_def calm_env_def)
  ultimately have "outcome idle_env a t c w 0 = Inr (JObj [])" unfolding outcome_def by (simp only: rbind_simps)
  then have "attempt idle_env a (router_get (ag_router a) t) c w = (Inr (JObj []), tick (w\<lparr>w_llm_calls := Suc (w_llm_calls w)\<rparr>))"
    by (simp only: attempt_outcome)
  then show ?thesis unfolding invoke_json_def max_retries_def numeral_3_eq_3 attempts.simps
    by (intro exI) (rule acatch_step(1))
qed

lemma idle_exec_tasks: "\<exists>acc' w'. exec_tasks idle_env a st ts acc w = (Inr acc', w')"
proof (induction ts arbitrary: acc w)
  case (Cons t ts)
  have "\<exists>acc1 w1. exec_task idle_env a st t acc w = (Inr acc1, w1)"
    using idle_invoke [of a "if assigned_model t = ''code'' then ''code'' else ''reasoning''" "build_executor_context t st" w]
    by (auto simp: exec_task_def Let_def run_generated_def json_get_def dget_or_def abind_def)
  with Cons.IH show ?case by (metis abind_step(1) exec_tasks.simps(2))
qed simp

lemma idle_reflection: "\<exists>r fb. validate_reflection (JObj []) = Inr r \<and> feedback_of r = Inr fb"
proof -
  have "claimed_score [] = Inr (Fin 0)" "given_dims [] = JObj []"
    by (simp_all add: claimed_score_def given_dims_def dget_or_def)
  moreover have "is_ok (clamp_dims dimensions [])" by code_simp
  ultimately obtain r where r: "validate_reflection (JObj []) = Inr r" using reflection_accepts by metis
  from reflection_Inr [OF r] have "dget_or r ''improvement_directives'' JNull = JArr []"
    by (simp add: dget_or_def) metis
  with r show ?thesis by (simp add: feedback_of_def first_five_def)
qed

lemma idle_nodes: "n \<noteq> PlannerN \<Longrightarrow> is_ok (fst (run_node (nexus_agents idle_env) n st w))"
proof (cases n)
  case ResearcherN
  with researcher_Inr [of idle_env st w] show ?thesis by (auto simp: is_ok_def)
next
  case ExecutorN
  obtain a w1 where a: "new_agent idle_env ''executor'' w = (Inr a, w1)" using calm_agent idle_env_def by metis
  obtain acc w2 where "exec_tasks idle_env a st (concat (topological_sort (task_plan st)))
      \<lparr>ex_plan = task_plan st, ex_output = execution_output st, ex_errors = error_log st\<rparr> w1 = (Inr acc, w2)"
    using idle_exec_tasks by blast
  with a ExecutorN show ?thesis by (simp add: executor_agent_def executor_run_def is_ok_def)
next
  case VerifierN
  obtain a w1 where a: "new_agent idle_env ''verifier'' w = (Inr a, w1)" using calm_agent idle_env_def by metis
  obtain w2 where i: "invoke_json idle_env a ''reasoning'' (build_verifier_context st) w1 = (Inr (JObj []), w2)"
    using idle_invoke by blast
  have "\<exists>m. validate_report idle_env (JObj []) = Inl (Exn ValueError m)"
    by (simp add: validate_report_def required_keys_def dkeys_def)
  with a i VerifierN show ?thesis
    by (auto simp: verifier_agent_def verifier_run_def is_ok_def is_ValueError_def)
next
  case ReflectorN
  obtain a w1 where a: "new_agent idle_env ''reflector'' w = (Inr a, w1)" using calm_agent idle_env_def by metis
  obtain w2 where i: "invoke_json idle_env a ''reasoning'' (build_reflector_context st) w1 = (Inr (JObj []), w2)"
    using idle_invoke by blast
  from a i idle_reflection ReflectorN show ?thesis
    by (auto simp: reflector_agent_def reflector_run_def is_ok_def)
qed (simp_all add: is_ok_def)

lemma idle_finished:
  "\<exists>st' evs w'. run_graph (nexus_agents idle_env) (initial_state g s u mem) w = (Finished st', evs, w')"
proof -
  have "fst (run_from (nexus_agents idle_env) k n st w) \<noteq> Raised e" if "run_inv 3 n st" for k n st w e
    using that
  proof (induction k arbitrary: n st w)
    case (Suc k)
    obtain r w1 where run: "run_node (nexus_agents idle_env) n st w = (r, w1)"
      by (cases "run_node (nexus_agents idle_env) n st w")
    have "is_ok r"
    proof (cases "n = PlannerN")
      case True
      with nexus.planner_step [of 3 st idle_env w r w1] Suc.prems run show ?thesis by (auto simp: is_ok_def)
    next
      case False
      with idle_nodes [of n st w] run show ?thesis by simp
    qed
    then obtain upd where r: "r = Inr upd" by (cases r) (auto simp: is_ok_def)
    show ?case
    proof (cases "next_node n (merge_update st upd)")
      case (Some n1)
      from nexus.node_step(2) [OF _ Suc.prems run r Some] have "run_inv 3 n1 (merge_update st upd)" by simp
      from Suc.IH [OF this, of w1] run r Some show ?thesis by (auto simp: Let_def split: prod.split)
    qed (use run r in \<open>simp add: Let_def\<close>)
  qed simp
  from this [OF initial_inv] have "fst (run_graph (nexus_agents idle_env) (initial_state g s u mem) w) \<noteq> Raised e" for e
    by (simp add: run_graph_def)
  moreover have "steps_left 3 PlannerN (iteration_count (initial_state g s u mem)) \<le> int recursion_limit"
    by (simp add: initial_state_def recursion_limit_def)
  from nexus.run_no_limit [OF _ initial_inv this]
  have "fst (run_graph (nexus_agents idle_env) (initial_state g s u mem) w) \<noteq> LimitReached"
    by (simp add: run_graph_def)
  ultimately obtain st' where "fst (run_graph (nexus_agents idle_env) (initial_state g s u mem) w) = Finished st'"
    by (metis outcome.exhaust)
  then show ?thesis by (metis prod.exhaust fst_conv)
qed

section \<open>Properties\<close>

text \<open>C2: A run of the graph from the initial state ends within sixteen super-steps, whatever the
  models, the sandbox and the other services do: it finishes or an agent raises, and the
  runtime's limit of 25 super-steps, or any other limit from sixteen on, is never what ends it.\<close>

theorem graph_run_ends:
  "fst (run_graph (nexus_agents env) (initial_state g s u mem) w) \<noteq> LimitReached
   \<and> (\<forall>limit \<ge> 16. run_from (nexus_agents env) limit PlannerN (initial_state g s u mem) w
        = run_graph (nexus_agents env) (initial_state g s u mem) w)"
proof -
  let ?st = "initial_state g s u mem" and ?run = "\<lambda>k. run_from (nexus_agents env) k PlannerN (initial_state g s u mem) w"
  have "steps_left 3 PlannerN (iteration_count ?st) \<le> int 16" by (simp add: initial_state_def)
  from nexus.run_no_limit [OF _ initial_inv this] have l: "fst (?run 16) \<noteq> LimitReached" by simp
  have limit: "?run k = ?run 16" if "16 \<le> k" for k by (rule run_from_more [OF l that])
  have "run_graph (nexus_agents env) ?st w = ?run 16"
    unfolding run_graph_def by (rule limit) (simp add: recursion_limit_def)
  with l limit show ?thesis by metis
qed

theorem graph_run_ends_witness:
  "fst (run_graph (nexus_agents idle_env) (initial_state ''goal'' ''sid'' ''uid'' []) fresh_world) \<noteq> LimitReached
   \<and> run_from (nexus_agents idle_env) 16 PlannerN (initial_state ''goal'' ''sid'' ''uid'' []) fresh_world
      = run_graph (nexus_agents idle_env) (initial_state ''goal'' ''sid'' ''uid'' []) fresh_world"
  using graph_run_ends [of idle_env "''goal''" "''sid''" "''uid''" "[]" fresh_world] by blast

text \<open>C1: The quality gate. A finished run has made one to three iterations and has a finite score
  between zero and one. When the planner node reported a loop, the run went from the planner
  straight to the output node and carries the disclaimer of a loop, whatever the iteration. Otherwise
  it is whole rounds of the five agents, and it carries no disclaimer exactly when the score
  reaches the threshold; below it all three iterations are used and the disclaimer says they
  ran out. The goal and the owner are those it began with.\<close>

theorem graph_quality_gate:
  assumes "run_graph (nexus_agents env) (initial_state g s u mem) w = (Finished st', evs, w')"
  shows "1 \<le> iteration_count st' \<and> iteration_count st' \<le> 3 \<and> unit_quality (quality_score st')
    \<and> (if loop_reported evs
       then disclaimer st' = Some ''loop_detected''
         \<and> map fst evs = rounds (nat (iteration_count st' - 1)) @ [PlannerN, OutputN]
       else map fst evs = rounds (nat (iteration_count st')) @ [OutputN]
         \<and> (if flt_le quality_threshold (quality_score st') then disclaimer st' = None
            else disclaimer st' = Some ''max_iterations_reached'' \<and> iteration_count st' = 3))
    \<and> user_goal st' = g \<and> session_id st' = s \<and> user_id st' = u"
proof -
  have init: "user_goal (initial_state g s u mem) = g" "session_id (initial_state g s u mem) = s"
    "user_id (initial_state g s u mem) = u" "disclaimer (initial_state g s u mem) = None"
    "iteration_count (initial_state g s u mem) = 0" by (simp_all add: initial_state_def)
  note r = nexus.run_finished [OF _ initial_inv assms [unfolded run_graph_def], unfolded init rest_of_round.simps append.simps]
  from r obtain j where "map fst evs = rounds j @ tail_nodes (loop_reported evs)"
    "iteration_count st' = int j + (if loop_reported evs then 1 else 0)" by auto
  then have "map fst evs = (if loop_reported evs then rounds (nat (iteration_count st' - 1)) @ [PlannerN, OutputN]
      else rounds (nat (iteration_count st')) @ [OutputN])" by (simp add: tail_nodes_def)
  with r show ?thesis by (cases "loop_reported evs") (simp_all add: gate_outcome_def split: if_splits)
qed

theorem graph_quality_gate_witness:
  "\<exists>st' evs w'. run_graph (nexus_agents idle_env) (initial_state ''goal'' ''sid'' ''uid'' []) fresh_world = (Finished st', evs, w')
     \<and> last (map fst evs) = OutputN \<and> iteration_count st' \<le> 3 \<and> user_goal st' = ''goal''"
proof -
  obtain st' evs w' where r: "run_graph (nexus_agents idle_env) (initial_state ''goal'' ''sid'' ''uid'' []) fresh_world
      = (Finished st', evs, w')" using idle_finished by blast
  from graph_quality_gate [OF r] have "last (map fst evs) = OutputN" by (auto split: if_splits)
  with graph_quality_gate [OF r] r show ?thesis by blast
qed

text \<open>C16: A run, however it ends, makes at most 117 chat model calls: three iterations of at most
  three calls each for planner, verifier and reflector and three for each of at most ten tasks.\<close>

theorem graph_llm_calls_bounded:
  assumes "run_graph (nexus_agents env) (initial_state g s u mem) w = (out, evs, w')"
  shows "w_llm_calls w' \<le> w_llm_calls w + 117"
proof -
  have "iteration_count (initial_state g s u mem) = 0" by (simp add: initial_state_def)
  with nexus.run_calls [OF _ initial_inv assms [unfolded run_graph_def]] show ?thesis by simp
qed

theorem graph_llm_calls_bounded_witness:
  "w_llm_calls (snd (snd (run_graph (nexus_agents idle_env) (initial_state ''goal'' ''sid'' ''uid'' []) fresh_world))) \<le> 117"
proof -
  obtain out evs w' where r: "run_graph (nexus_agents idle_env) (initial_state ''goal'' ''sid'' ''uid'' []) fresh_world
      = (out, evs, w')" by (metis prod.exhaust)
  from graph_llm_calls_bounded [OF r] r show ?thesis by (simp add: fresh_world_def)
qed

text \<open>C3: Every super-step of the running graph is a step of the abstract orchestration machine, with
  a cap of three iterations: the planner starts an iteration and goes on to research or, on a
  loop, to the output; the others follow in order; after reflection the run ends or, below the
  cap only, returns to the planner.\<close>

theorem graph_refines_orchestration:
  assumes "reachable (nexus_agents env) (initial_state g s u mem) w0 n st w"
    and "run_node (nexus_agents env) n st w = (Inr upd, w1)"
    and "next_node n (merge_update st upd) = Some n1"
  shows "spec_step 3 (n, iteration_count st) (n1, iteration_count (merge_update st upd))"
proof -
  have "run_inv 3 n st" by (rule nexus.reachable_inv [OF _ initial_inv assms(1)]) simp
  from nexus.node_step(2) [OF _ this assms(2) refl assms(3)] show ?thesis by simp
qed

theorem graph_refines_orchestration_witness:
  "\<exists>upd. spec_step 3 (PlannerN, 0)
     (route_after_planner (merge_update (initial_state ''goal'' ''sid'' ''uid'' []) upd),
      iteration_count (merge_update (initial_state ''goal'' ''sid'' ''uid'' []) upd))"
proof -
  let ?st = "initial_state ''goal'' ''sid'' ''uid'' []"
  obtain r w1 where run: "run_node (nexus_agents idle_env) PlannerN ?st fresh_world = (r, w1)" by (metis prod.exhaust)
  with nexus.planner_step [OF _ initial_inv, of idle_env "''goal''" "''sid''" "''uid''" "[]" fresh_world] obtain upd
    where "r = Inr upd" by auto
  with run have "run_node (nexus_agents idle_env) PlannerN ?st fresh_world = (Inr upd, w1)" by simp
  from graph_refines_orchestration [OF reachable.start this] have
    "spec_step 3 (PlannerN, iteration_count ?st) (route_after_planner (merge_update ?st upd), iteration_count (merge_update ?st upd))"
    by simp
  moreover have "iteration_count ?st = 0" by (simp add: initial_state_def)
  ultimately show ?thesis by (intro exI [of _ upd]) simp
qed

text \<open>A failed planner does not stop the run. Its error is logged, truncated to 500 characters,
  the iteration counts, and the graph goes on to the researcher with the plan of the state as
  it was: empty in the first iteration, the previous plan later.\<close>

theorem planner_failure_continues:
  assumes "iteration_count st < max_iter st" "\<not> disclaimed st"
    and "planner_agent env (merge_update st (no_update\<lparr>u_iteration_count := Some (iteration_count st + 1)\<rparr>)) w = (Inl e, w1)"
  shows "\<exists>upd. run_node (nexus_agents env) PlannerN st w = (Inr upd, w1)
    \<and> next_node PlannerN (merge_update st upd) = Some ResearcherN
    \<and> task_plan (merge_update st upd) = task_plan st
    \<and> iteration_count (merge_update st upd) = iteration_count st + 1
    \<and> error_log (merge_update st upd) = error_log st @ [''planner error: '' @ take 500 (exn_str e)]"
proof -
  have "\<not> max_iter st < iteration_count st + 1" using assms(1) by simp
  with assms(3) have "run_node (nexus_agents env) PlannerN st w = (Inr (no_update
      \<lparr>u_iteration_count := Some (iteration_count st + 1),
       u_error_log := Some (error_log st @ [''planner error: '' @ take 500 (exn_str e)])\<rparr>), w1)"
    by (simp add: planner_node_def Let_def)
  with assms(2) show ?thesis by (simp add: route_after_planner_def disclaimed_def)
qed

theorem planner_failure_continues_witness:
  "\<exists>upd w1. run_node (nexus_agents idle_env) PlannerN (initial_state ''goal'' ''sid'' ''uid'' []) fresh_world = (Inr upd, w1)
     \<and> next_node PlannerN (merge_update (initial_state ''goal'' ''sid'' ''uid'' []) upd) = Some ResearcherN"
proof -
  let ?st = "initial_state ''goal'' ''sid'' ''uid'' []"
  let ?m = "planner_agent idle_env (merge_update ?st (no_update\<lparr>u_iteration_count := Some (iteration_count ?st + 1)\<rparr>)) fresh_world"
  have "\<not> is_ok (fst ?m)" by code_simp
  then obtain e w1 where m: "?m = (Inl e, w1)" by (cases ?m; cases "fst ?m") (auto simp: is_ok_def)
  have "iteration_count ?st < max_iter ?st" "\<not> disclaimed ?st"
    by (simp_all add: initial_state_def max_iter_def int_or_def disclaimed_def)
  from planner_failure_continues [OF this m] show ?thesis by blast
qed

end
