(* ===== verification/Auth.thy ===== *)
theory Auth
  imports Router
begin

text \<open>
  Access to the database and authentication: the connection pool (\<open>backend/db/postgres.py\<close>),
  tokens and passwords (\<open>backend/api/auth.py\<close>), and the dependency that turns a bearer token
  into a user (\<open>backend/api/deps.py\<close>). Token signing and password hashing are parameters;
  what is relied on of them is stated as hypotheses.
\<close>

section \<open>Connection pool\<close>

definition get_pool :: "env \<Rightarrow> unit act" where
  "get_pool env = (\<lambda>w.
     if w_pool w then (Inr (), w)
     else case e_pg_error env (w_tick w) of
         Some e \<Rightarrow> (Inl e, tick w)
       | None \<Rightarrow> (Inr (), tick (w\<lparr>w_pool := True\<rparr>)))"

definition close_pool :: "unit act" where
  "close_pool = (\<lambda>w. (Inr (), if w_pool w then w\<lparr>w_pool := False\<rparr> else w))"

text \<open>A statement fails without effect or is carried out at the time of the call.\<close>

definition pg_cmd :: "env \<Rightarrow> (uuid \<Rightarrow> int \<Rightarrow> database \<Rightarrow> ('a \<times> database) result) \<Rightarrow> 'a act" where
  "pg_cmd env f = (\<lambda>w. case e_pg_error env (w_tick w) of
       Some e \<Rightarrow> (Inl e, tick w)
     | None \<Rightarrow> (case f (e_new_uuid env (w_tick w)) (now env w) (w_db w) of
           Inl e \<Rightarrow> (Inl e, tick w)
         | Inr (x, db) \<Rightarrow> (Inr x, tick (w\<lparr>w_db := db\<rparr>))))"

definition pg_query :: "env \<Rightarrow> (database \<Rightarrow> 'a) \<Rightarrow> 'a act" where
  "pg_query env q = pg_cmd env (\<lambda>i t db. Inr (q db, db))"

section \<open>Passwords and tokens\<close>

definition hash_password :: "env \<Rightarrow> string \<Rightarrow> string act" where
  "hash_password env password = (\<lambda>w. (e_bcrypt_hash env (w_tick w) password, tick w))"

definition verify_password :: "env \<Rightarrow> string \<Rightarrow> string \<Rightarrow> bool act" where
  "verify_password env password password_hash = alift (e_bcrypt_check env password password_hash)"

definition clock :: "env \<Rightarrow> int act" where
  "clock env = (\<lambda>w. (Inr (now env w), tick w))"

definition create_access_token :: "env \<Rightarrow> string \<Rightarrow> string act" where
  "create_access_token env uid =
     (let cfg = e_settings env in
      abind (clock env) (\<lambda>t1.
      abind (clock env) (\<lambda>t2.
      aret (e_jwt_encode env uid (t1 + jwt_expiry_seconds cfg) t2 (jwt_secret cfg) (jwt_algorithm cfg)))))"

definition decode_token :: "env \<Rightarrow> string \<Rightarrow> json dict act" where
  "decode_token env token = (\<lambda>w.
     (case e_jwt_decode env (now env w) token (jwt_secret (e_settings env)) (jwt_algorithm (e_settings env)) of
        Some payload \<Rightarrow> Inr payload
      | None \<Rightarrow> Inl (Exn JWTError ''Signature verification failed.''), tick w))"

section \<open>The current user\<close>

record current_user =
  cu_id :: uuid
  cu_email :: string
  cu_created_at :: int
  cu_is_active :: bool

definition user_columns :: "user_row \<Rightarrow> current_user" where
  "user_columns u = \<lparr>cu_id = us_id u, cu_email = us_email u, cu_created_at = us_created_at u, cu_is_active = us_is_active u\<rparr>"

text \<open>\<open>UUID(x)\<close>: reading begins with a string method.\<close>

definition uuid_of_json :: "json \<Rightarrow> uuid result" where
  "uuid_of_json j = (case j of JStr s \<Rightarrow> uuid_of s | v \<Rightarrow> Inl (no_attribute v ''replace''))"

definition get_current_user :: "env \<Rightarrow> string \<Rightarrow> current_user http act" where
  "get_current_user env token = (\<lambda>w. case decode_token env token w of
       (Inl e, w1) \<Rightarrow> if exn_class e = JWTError then (Inr (HttpError 401 ''Invalid or expired token''), w1) else (Inl e, w1)
     | (Inr payload, w1) \<Rightarrow>
         (let sub = dget_or payload ''sub'' JNull in
          if \<not> truthy sub then (Inr (HttpError 401 ''Token missing sub''), w1)
          else abind (get_pool env) (\<lambda>_.
               abind (alift (uuid_of_json sub)) (\<lambda>uid.
               abind (pg_query env (\<lambda>db. map_option user_columns (find_user db uid))) (\<lambda>row.
               case row of
                 None \<Rightarrow> aret (HttpError 401 ''User not found'')
               | Some u \<Rightarrow> if \<not> cu_is_active u then aret (HttpError 401 ''User not found'') else aret (Reply 200 u)))) w1))"

text \<open>An endpoint that depends on the current user does not start without one.\<close>

definition with_user :: "env \<Rightarrow> string \<Rightarrow> (current_user \<Rightarrow> 'a http act) \<Rightarrow> 'a http act" where
  "with_user env token handler = abind (get_current_user env token) (\<lambda>r. case r of
       HttpError n d \<Rightarrow> aret (HttpError n d)
     | Reply n u \<Rightarrow> handler u)"

section \<open>What is relied on\<close>

text \<open>Documented behaviour of the token library: what was encoded decodes until it expires and not
  afterwards, under the secret and algorithm it was signed with.\<close>

definition jwt_law :: "env \<Rightarrow> bool" where
  "jwt_law env \<longleftrightarrow> (\<forall>t sub until since k a. e_jwt_decode env t (e_jwt_encode env sub until since k a) k a =
     (if t < until then Some [(''sub'', JStr sub), (''exp'', JInt until), (''iat'', JInt since)] else None))"

definition bcrypt_law :: "env \<Rightarrow> bool" where
  "bcrypt_law env \<longleftrightarrow> (\<forall>n p h. e_bcrypt_hash env n p = Inr h \<longrightarrow> e_bcrypt_check env p h = Inr True)"

lemma unary_value [simp]: "unary_value (unary i) = i"
  by (cases "nat i") (auto simp: unary_value_def unary_def startswith_def)

lemma unary_no_dot: "\<forall>c \<in> set (unary i). c \<noteq> CHR ''.''"
  by (auto simp: unary_def)

lemma takeWhile_sep: "\<forall>c \<in> set s. c \<noteq> d \<Longrightarrow> takeWhile (\<lambda>c. c \<noteq> d) (s @ [d] @ t) = s"
  by (induction s) auto

lemma dropWhile_sep: "\<forall>c \<in> set s. c \<noteq> d \<Longrightarrow> dropWhile (\<lambda>c. c \<noteq> d) (s @ [d] @ t) = d # t"
  by (induction s) auto

lemma calm_laws: "jwt_law (calm_env llm)" "bcrypt_law (calm_env llm)"
proof -
  have c: "contains ''.'' (unary i @ ''.'' @ t)" for i t by (auto simp: contains_iff)
  show "jwt_law (calm_env llm)"
    unfolding jwt_law_def calm_env_def
    by (simp add: plain_encode_def plain_decode_def Let_def c [simplified]
        takeWhile_sep [OF unary_no_dot, simplified] dropWhile_sep [OF unary_no_dot, simplified])
  show "bcrypt_law (calm_env llm)" by (auto simp: bcrypt_law_def calm_env_def)
qed

section \<open>Frame conditions\<close>

text \<open>Branching on an answer goes through any such relation.\<close>

lemma keeps_http: "(\<And>n d. act_keeps R (f n d)) \<Longrightarrow> (\<And>n u. act_keeps R (g n u)) \<Longrightarrow>
    act_keeps R (case r of HttpError n d \<Rightarrow> f n d | Reply n u \<Rightarrow> g n u)"
  by (cases r) auto

lemmas keeps_branch = keeps_option keeps_if keeps_http

text \<open>Everything but the named part of the world is as it was.\<close>

lemma clock_run [simp]: "clock env w = (Inr (now env w), tick w)"
  by (simp add: clock_def)

definition db_kept :: "world \<Rightarrow> world \<Rightarrow> bool" where
  "db_kept w w' \<longleftrightarrow> w_db w' = w_db w"

interpretation db_frame: world_order db_kept
  by unfold_locales (simp_all add: db_kept_def)

lemma db_keptD: "act_keeps db_kept m \<Longrightarrow> m w = (r, w') \<Longrightarrow> w_db w' = w_db w"
  by (metis act_keeps_def db_kept_def snd_conv)

lemma kept_get_pool [intro]: "act_keeps db_kept (get_pool env)"
  by (auto simp: act_keeps_def db_kept_def get_pool_def split: option.splits)

lemma kept_query [intro]: "act_keeps db_kept (pg_query env q)"
  by (auto simp: act_keeps_def db_kept_def pg_query_def pg_cmd_def split: option.splits)

lemma kept_token [intro]: "act_keeps db_kept (create_access_token env uid)" "act_keeps db_kept (hash_password env p)"
  "act_keeps db_kept (verify_password env p h)" "act_keeps db_kept (decode_token env token)"
  by (auto simp: act_keeps_def db_kept_def create_access_token_def hash_password_def verify_password_def
      decode_token_def abind_def Let_def)

lemma kept_user: "act_keeps db_kept (get_current_user env token)"
proof -
  have "act_keeps db_kept (abind (get_pool env) (\<lambda>_.
               abind (alift (uuid_of_json sub)) (\<lambda>uid.
               abind (pg_query env (\<lambda>db. map_option user_columns (find_user db uid))) (\<lambda>row.
               case row of
                 None \<Rightarrow> aret (HttpError 401 ''User not found'')
               | Some u \<Rightarrow> if \<not> cu_is_active u then aret (HttpError 401 ''User not found'') else aret (Reply 200 u)))))"
    for sub by (intro db_frame.keeps_abind kept_get_pool db_frame.keeps_alift kept_query) (auto split: option.split)
  then show ?thesis
    unfolding act_keeps_def get_current_user_def
    by (auto simp: decode_token_def db_kept_def Let_def split: option.split prod.split sum.split)
qed

end
