(* ===== verification/Sessions.thy ===== *)
theory Sessions
  imports Auth "HOL-Library.Multiset"
begin

text \<open>
  The REST endpoints for accounts and sessions (\<open>backend/api/routes/sessions.py\<close>) with their
  request and response types (\<open>backend/api/schemas.py\<close>). An endpoint that raises something
  other than an HTTP error is the framework's status 500. Rows are ordered as
  far as a query asks for it; rows with equal times come in an order of the server's own.
\<close>

section \<open>Requests and responses\<close>

record register_request =
  rr_email :: string
  rr_password :: string

definition register_request_ok :: "register_request \<Rightarrow> bool" where
  "register_request_ok r \<longleftrightarrow> 3 \<le> length (rr_email r) \<and> length (rr_email r) \<le> 320
     \<and> 12 \<le> length (rr_password r) \<and> length (rr_password r) \<le> 128"

record register_response =
  rg_user_id :: uuid
  rg_email :: string
  rg_access_token :: string
  rg_token_type :: string

record login_request =
  lr_email :: string
  lr_password :: string

record login_response =
  lg_access_token :: string
  lg_token_type :: string
  lg_expires_in :: int

record user_profile =
  up_user_id :: uuid
  up_email :: string
  up_created_at :: int

definition create_session_request_ok :: "string \<Rightarrow> bool" where
  "create_session_request_ok goal \<longleftrightarrow> 1 \<le> length goal \<and> length goal \<le> 4000"

record create_session_response =
  cs_session_id :: uuid
  cs_status :: string
  cs_created_at :: int

record session_list_item =
  li_session_id :: uuid
  li_goal :: string
  li_status :: string
  li_final_quality :: "pyfloat option"
  li_created_at :: int

record session_list =
  sl_items :: "session_list_item list"
  sl_total :: nat
  sl_limit :: nat
  sl_offset :: nat

record session_detail =
  sd_session_id :: uuid
  sd_goal :: string
  sd_status :: string
  sd_iteration_count :: int
  sd_final_quality :: "pyfloat option"
  sd_final_output :: "json dict option"
  sd_created_at :: int
  sd_completed_at :: "int option"

record event_record =
  er_id :: int
  er_agent_name :: string
  er_iteration :: int
  er_model_used :: string
  er_tokens_in :: int
  er_tokens_out :: int
  er_latency_ms :: int
  er_error :: "string option"
  er_created_at :: int

record event_list =
  el_items :: "event_record list"
  el_total :: nat
  el_limit :: nat
  el_offset :: nat

section \<open>Statements\<close>

definition user_by_email :: "string \<Rightarrow> database \<Rightarrow> user_row option" where
  "user_by_email email db = find (\<lambda>u. us_email u = email) (db_users db)"

definition insert_user :: "uuid \<Rightarrow> int \<Rightarrow> string \<Rightarrow> string \<Rightarrow> database \<Rightarrow> (uuid \<times> database) result" where
  "insert_user i t email pw_hash db =
     (if i \<in> us_id ` set (db_users db) then Inl (violation ''users_pkey'')
      else if email \<in> us_email ` set (db_users db) then Inl (violation ''users_email_key'')
      else Inr (i, db\<lparr>db_users := db_users db @ [\<lparr>us_id = i, us_email = email, us_password_hash = pw_hash,
             us_created_at = t, us_last_login_at = None, us_is_active = True\<rparr>]\<rparr>))"

definition touch_login :: "uuid \<Rightarrow> int \<Rightarrow> database \<Rightarrow> database" where
  "touch_login i t db =
     db\<lparr>db_users := map (\<lambda>u. if us_id u = i then u\<lparr>us_last_login_at := Some t\<rparr> else u) (db_users db)\<rparr>"

definition insert_session :: "uuid \<Rightarrow> int \<Rightarrow> uuid \<Rightarrow> string \<Rightarrow> database \<Rightarrow> (session_row \<times> database) result" where
  "insert_session i t uid goal db =
     (if i \<in> se_id ` set (db_sessions db) then Inl (violation ''sessions_pkey'')
      else if uid \<notin> us_id ` set (db_users db)
      then Inl (Exn OtherError ''insert or update on table sessions violates foreign key constraint sessions_user_id_fkey'')
      else (let row = \<lparr>se_id = i, se_user_id = uid, se_goal = goal, se_status = ''pending'', se_final_output = None,
              se_final_quality = None, se_iteration_count = 0, se_created_at = t, se_completed_at = None\<rparr>
            in Inr (row, db\<lparr>db_sessions := db_sessions db @ [row]\<rparr>)))"

definition own_sessions :: "uuid \<Rightarrow> database \<Rightarrow> session_row list" where
  "own_sessions uid db = filter (\<lambda>s. se_user_id s = uid) (db_sessions db)"

definition newest_first :: "session_row list \<Rightarrow> session_row list" where
  "newest_first = sort_key (\<lambda>s. - se_created_at s)"

definition page :: "nat \<Rightarrow> nat \<Rightarrow> 'a list \<Rightarrow> 'a list" where
  "page limit offset rows = take limit (drop offset rows)"

text \<open>
  The server promises no order of rows but the one asked for: a query sees the rows it selects in
  an order of its own, so rows with equal keys may come differently at every query.
\<close>

definition scanned :: "env \<Rightarrow> nat \<Rightarrow> 'a list \<Rightarrow> 'a list" where
  "scanned env n rows = map ((!) rows) (e_row_order env n (length rows))"

definition scan_law :: "env \<Rightarrow> bool" where
  "scan_law env \<longleftrightarrow> (\<forall>n k. mset (e_row_order env n k) = mset [0..<k])"

definition pg_page :: "env \<Rightarrow> ('a list \<Rightarrow> 'a list) \<Rightarrow> nat \<Rightarrow> nat \<Rightarrow> (database \<Rightarrow> 'a list) \<Rightarrow> 'a list act" where
  "pg_page env order limit offset q =
     (\<lambda>w. pg_query env (\<lambda>db. page limit offset (order (scanned env (w_tick w) (q db)))) w)"

definition own_session :: "uuid \<Rightarrow> uuid \<Rightarrow> database \<Rightarrow> session_row option" where
  "own_session sid uid db = find (\<lambda>s. se_id s = sid \<and> se_user_id s = uid) (db_sessions db)"

definition session_audit :: "uuid \<Rightarrow> database \<Rightarrow> audit_row list" where
  "session_audit sid db = filter (\<lambda>a. au_session_id a = sid) (db_audit db)"

definition command_tag :: "nat \<Rightarrow> string" where
  "command_tag n = ''UPDATE '' @ str_of_nat n"

definition pg_update_sessions :: "env \<Rightarrow> (int \<Rightarrow> session_row \<Rightarrow> bool) \<Rightarrow> (int \<Rightarrow> session_row \<Rightarrow> session_row) \<Rightarrow> string act" where
  "pg_update_sessions env p f = pg_cmd env (\<lambda>i t db.
     case update_sessions (p t) (f t) db of (n, db') \<Rightarrow> Inr (command_tag n, db'))"

section \<open>Accounts\<close>

definition register :: "env \<Rightarrow> register_request \<Rightarrow> register_response http act" where
  "register env body =
     abind (get_pool env) (\<lambda>_.
     abind (pg_query env (user_by_email (rr_email body))) (\<lambda>existing.
     case existing of
       Some u \<Rightarrow> aret (HttpError 409 ''Email already registered'')
     | None \<Rightarrow>
         abind (hash_password env (rr_password body)) (\<lambda>pw_hash.
         abind (pg_cmd env (\<lambda>i t. insert_user i t (rr_email body) pw_hash)) (\<lambda>uid.
         abind (create_access_token env (uuid_str uid)) (\<lambda>token.
         aret (Reply 201 \<lparr>rg_user_id = uid, rg_email = rr_email body, rg_access_token = token,
                          rg_token_type = ''bearer''\<rparr>))))))"

definition login :: "env \<Rightarrow> string \<Rightarrow> string \<Rightarrow> login_response http act" where
  "login env email password =
     abind (get_pool env) (\<lambda>_.
     abind (pg_query env (user_by_email email)) (\<lambda>row.
     case row of
       None \<Rightarrow> aret (HttpError 401 ''Invalid credentials'')
     | Some u \<Rightarrow>
         if \<not> us_is_active u then aret (HttpError 401 ''Invalid credentials'')
         else abind (verify_password env password (us_password_hash u)) (\<lambda>ok.
              if \<not> ok then aret (HttpError 401 ''Invalid credentials'')
              else abind (pg_cmd env (\<lambda>i t db. Inr ((), touch_login (us_id u) t db))) (\<lambda>_.
                   abind (create_access_token env (uuid_str (us_id u))) (\<lambda>token.
                   aret (Reply 200 \<lparr>lg_access_token = token, lg_token_type = ''bearer'', lg_expires_in = 3600\<rparr>))))))"

definition me :: "current_user \<Rightarrow> user_profile http act" where
  "me user = aret (Reply 200 \<lparr>up_user_id = cu_id user, up_email = cu_email user, up_created_at = cu_created_at user\<rparr>)"

section \<open>Sessions\<close>

definition create_session :: "env \<Rightarrow> string \<Rightarrow> current_user \<Rightarrow> create_session_response http act" where
  "create_session env goal user =
     abind (get_pool env) (\<lambda>_.
     abind (pg_cmd env (\<lambda>i t. insert_session i t (cu_id user) goal)) (\<lambda>row.
     aret (Reply 201 \<lparr>cs_session_id = se_id row, cs_status = se_status row, cs_created_at = se_created_at row\<rparr>)))"

definition list_item :: "session_row \<Rightarrow> session_list_item" where
  "list_item r = \<lparr>li_session_id = se_id r, li_goal = se_goal r, li_status = se_status r,
     li_final_quality = se_final_quality r, li_created_at = se_created_at r\<rparr>"

definition list_sessions :: "env \<Rightarrow> nat \<Rightarrow> nat \<Rightarrow> current_user \<Rightarrow> session_list http act" where
  "list_sessions env limit offset user =
     abind (get_pool env) (\<lambda>_.
     abind (pg_page env newest_first limit offset (own_sessions (cu_id user))) (\<lambda>rows.
     abind (pg_query env (\<lambda>db. length (own_sessions (cu_id user) db))) (\<lambda>total.
     aret (Reply 200 \<lparr>sl_items = map list_item rows, sl_total = total, sl_limit = limit, sl_offset = offset\<rparr>))))"

text \<open>
  Validation of the response. The driver returns a JSON column as its text unless a codec is
  registered, and the pool registers none; the response type wants an object.
\<close>

definition detail_output :: "string option \<Rightarrow> json dict option result" where
  "detail_output column = (case column of
       None \<Rightarrow> Inr None
     | Some text \<Rightarrow> Inl (Exn ValueError ''1 validation error for SessionDetail''))"

definition get_session :: "env \<Rightarrow> uuid \<Rightarrow> current_user \<Rightarrow> session_detail http act" where
  "get_session env sid user =
     abind (get_pool env) (\<lambda>_.
     abind (pg_query env (own_session sid (cu_id user))) (\<lambda>row.
     case row of
       None \<Rightarrow> aret (HttpError 404 ''Session not found'')
     | Some s \<Rightarrow>
         abind (alift (detail_output (se_final_output s))) (\<lambda>out.
         aret (Reply 200 \<lparr>sd_session_id = se_id s, sd_goal = se_goal s, sd_status = se_status s,
           sd_iteration_count = se_iteration_count s, sd_final_quality = se_final_quality s, sd_final_output = out,
           sd_created_at = se_created_at s, sd_completed_at = se_completed_at s\<rparr>))))"

definition delete_session :: "env \<Rightarrow> uuid \<Rightarrow> current_user \<Rightarrow> unit http act" where
  "delete_session env sid user =
     abind (get_pool env) (\<lambda>_.
     abind (pg_update_sessions env (\<lambda>t s. se_id s = sid \<and> se_user_id s = cu_id user) (\<lambda>t. set_status ''aborted'')) (\<lambda>result.
     if result = ''UPDATE 0'' then aret (HttpError 404 ''Session not found'') else aret (Reply 204 ())))"

definition abort_session :: "env \<Rightarrow> uuid \<Rightarrow> current_user \<Rightarrow> string dict http act" where
  "abort_session env sid user =
     abind (get_pool env) (\<lambda>_.
     abind (pg_query env (\<lambda>db. map_option se_status (own_session sid (cu_id user) db))) (\<lambda>row.
     case row of
       None \<Rightarrow> aret (HttpError 404 ''Session not found'')
     | Some st \<Rightarrow>
         if st \<notin> {''pending'', ''running''} then aret (HttpError 409 (''Session is already '' @ st))
         else abind (pg_update_sessions env (\<lambda>t s. se_id s = sid) (\<lambda>t. set_status ''aborted'')) (\<lambda>_.
              aret (Reply 202 [(''detail'', ''abort requested'')]))))"

definition event_of :: "audit_row \<Rightarrow> event_record" where
  "event_of r = \<lparr>er_id = au_id r, er_agent_name = au_agent_name r, er_iteration = au_iteration r,
     er_model_used = au_model_used r, er_tokens_in = au_tokens_in r, er_tokens_out = au_tokens_out r,
     er_latency_ms = au_latency_ms r, er_error = au_error r, er_created_at = au_created_at r\<rparr>"

definition session_events :: "env \<Rightarrow> uuid \<Rightarrow> nat \<Rightarrow> nat \<Rightarrow> current_user \<Rightarrow> event_list http act" where
  "session_events env sid limit offset user =
     abind (get_pool env) (\<lambda>_.
     abind (pg_query env (own_session sid (cu_id user))) (\<lambda>owned.
     case owned of
       None \<Rightarrow> aret (HttpError 404 ''Session not found'')
     | Some s \<Rightarrow>
         abind (pg_page env (sort_key au_created_at) limit offset (session_audit sid)) (\<lambda>rows.
         abind (pg_query env (\<lambda>db. length (session_audit sid db))) (\<lambda>total.
         aret (Reply 200 \<lparr>el_items = map event_of rows, el_total = total, el_limit = limit, el_offset = offset\<rparr>)))))"

section \<open>Statements in a database that answers\<close>

definition pg_up :: "env \<Rightarrow> bool" where
  "pg_up env \<longleftrightarrow> (\<forall>n. e_pg_error env n = None)"

lemma get_pool_Inr: "get_pool env w = (Inr x, w') \<Longrightarrow> w_db w' = w_db w"
  using db_keptD [OF kept_get_pool] by blast

lemma pg_query_Inr: "pg_query env q w = (Inr x, w') \<longleftrightarrow> e_pg_error env (w_tick w) = None \<and> x = q (w_db w) \<and> w' = tick w"
  by (auto simp: pg_query_def pg_cmd_def split: option.splits)

lemma pg_query_ok: "e_pg_error env (w_tick w) = None \<Longrightarrow> pg_query env q w = (Inr (q (w_db w)), tick w)"
  by (simp add: pg_query_Inr)

lemma pg_cmd_Inr: "pg_cmd env f w = (Inr x, w') \<longleftrightarrow> e_pg_error env (w_tick w) = None
    \<and> (\<exists>db. f (e_new_uuid env (w_tick w)) (now env w) (w_db w) = Inr (x, db) \<and> w' = tick (w\<lparr>w_db := db\<rparr>))"
  by (auto simp: pg_cmd_def split: option.splits sum.splits)

lemma up_pool: "pg_up env \<Longrightarrow> \<exists>w1. get_pool env w = (Inr (), w1) \<and> w_db w1 = w_db w"
  by (auto simp: get_pool_def pg_up_def)

lemma up_query: "pg_up env \<Longrightarrow> pg_query env q w = (Inr (q (w_db w)), tick w)"
  by (simp add: pg_query_Inr pg_up_def)

lemma kept_page: "act_keeps db_kept (pg_page env order limit offset q)"
  using kept_query by (auto simp: act_keeps_def pg_page_def)

lemma up_page:
  "pg_up env \<Longrightarrow> pg_page env order limit offset q w
     = (Inr (page limit offset (order (scanned env (w_tick w) (q (w_db w))))), tick w)"
  by (simp add: pg_page_def up_query)

lemma mset_scanned: "scan_law env \<Longrightarrow> mset (scanned env n rows) = mset rows"
  unfolding scanned_def scan_law_def mset_map by (metis map_nth mset_map)

lemma str_of_nat_zero: "str_of_nat n = ''0'' \<longleftrightarrow> n = 0"
proof (cases "n < 10")
  case True
  then have "n \<in> set [0..<10]" by simp
  moreover have "\<forall>k \<in> set [0..<10]. (str_of_nat k = ''0'') = (k = 0)" by code_simp
  ultimately show ?thesis by blast
next
  case False
  then have "str_of_nat n = str_of_digits (int n div 10) @ [digit_char (nat (int n mod 10))]"
    by (simp add: str_of_nat_def str_of_int_def str_of_digits.simps [of "int n"])
  with False show ?thesis by (auto simp: append_eq_Cons_conv)
qed

lemma command_tag_zero [simp]: "command_tag n = ''UPDATE 0'' \<longleftrightarrow> n = 0"
  using str_of_nat_zero [of n] by (simp add: command_tag_def)

lemma own_session_iff:
  assumes "distinct (map se_id (db_sessions db))"
  shows "own_session sid uid db = (case find_session db sid of
           Some s \<Rightarrow> if se_user_id s = uid then Some s else None | None \<Rightarrow> None)"
proof (cases "own_session sid uid db")
  case None
  then have n: "\<forall>s \<in> set (db_sessions db). \<not> (se_id s = sid \<and> se_user_id s = uid)"
    by (simp add: own_session_def find_None_iff)
  show ?thesis
  proof (cases "find_session db sid")
    case (Some s)
    with find_session_Some [OF Some] n None show ?thesis by auto
  qed (simp add: None)
next
  case (Some s)
  then have "s \<in> set (db_sessions db)" "se_id s = sid" "se_user_id s = uid"
    by (auto simp: own_session_def find_Some_iff)
  with find_session_unique [OF assms] Some show ?thesis by auto
qed

section \<open>Constraints are kept\<close>

text \<open>Every statement keeps the constraints of the schema, and none adds to the audit log.\<close>

definition schema_kept :: "world \<Rightarrow> world \<Rightarrow> bool" where
  "schema_kept w w' \<longleftrightarrow> (db_ok (w_db w) \<longrightarrow> db_ok (w_db w')) \<and> db_audit (w_db w') = db_audit (w_db w)"

interpretation schema: world_order schema_kept
  by unfold_locales (auto simp: schema_kept_def)

lemma schema_of_frame: "act_keeps db_kept m \<Longrightarrow> act_keeps schema_kept m"
  by (auto simp: act_keeps_def db_kept_def schema_kept_def)

lemma schema_cmd:
  assumes "\<And>i t db x db'. f i t db = Inr (x, db') \<Longrightarrow> (db_ok db \<longrightarrow> db_ok db') \<and> db_audit db' = db_audit db"
  shows "act_keeps schema_kept (pg_cmd env f)"
  using assms by (fastforce simp: act_keeps_def schema_kept_def pg_cmd_def split: option.splits sum.splits)

lemma schema_update_status:
  assumes "st \<in> set session_statuses"
  shows "act_keeps schema_kept (pg_update_sessions env p (\<lambda>t. set_status st))"
  unfolding pg_update_sessions_def
proof (rule schema_cmd)
  fix i t and db db' :: database and x
  assume "(case update_sessions (p t) (set_status st) db of (n, db') \<Rightarrow> Inr (command_tag n, db')) = Inr (x, db')"
  then have db': "db' = snd (update_sessions (p t) (set_status st) db)" by (auto split: prod.splits)
  with update_sessions_ok [of db "p t" "set_status st"] assms
  show "(db_ok db \<longrightarrow> db_ok db') \<and> db_audit db' = db_audit db" by (simp add: update_sessions_def)
qed

lemma schema_insert_user: "act_keeps schema_kept (pg_cmd env (\<lambda>i t. insert_user i t email h))"
  by (rule schema_cmd) (auto simp: insert_user_def db_ok_def split: if_splits)

lemma schema_insert_session: "act_keeps schema_kept (pg_cmd env (\<lambda>i t. insert_session i t uid goal))"
  by (rule schema_cmd) (auto simp: insert_session_def db_ok_def session_statuses_def Let_def split: if_splits)

lemma touch_login_ids: "map us_id (db_users (touch_login i t db)) = map us_id (db_users db)"
  "map us_email (db_users (touch_login i t db)) = map us_email (db_users db)"
  by (simp_all add: touch_login_def)

lemma schema_touch: "act_keeps schema_kept (pg_cmd env (\<lambda>i t db. Inr ((), touch_login uid t db)))"
proof (rule schema_cmd)
  fix i t and db db' :: database and x
  assume "Inr ((), touch_login uid t db) = (Inr (x, db') :: (unit \<times> database) result)"
  then have db': "db' = touch_login uid t db" by simp
  have "us_id ` set (db_users db') = us_id ` set (db_users db)"
    unfolding db' by (metis list.set_map touch_login_ids(1))
  moreover have "db_sessions db' = db_sessions db" "db_audit db' = db_audit db" by (simp_all add: db' touch_login_def)
  ultimately show "(db_ok db \<longrightarrow> db_ok db') \<and> db_audit db' = db_audit db"
    using touch_login_ids [of uid t db] by (simp add: db_ok_def db')
qed

lemmas schema_intros = schema.keeps_abind schema.keeps_alift schema.keeps_aret
  schema_of_frame [OF kept_get_pool] schema_of_frame [OF kept_query] schema_of_frame [OF kept_page] schema_of_frame [OF kept_user]
  kept_token [THEN schema_of_frame]

lemma schema_endpoints:
  "act_keeps schema_kept (register env body)"
  "act_keeps schema_kept (login env email password)"
  "act_keeps schema_kept (create_session env goal user)"
  "act_keeps schema_kept (list_sessions env limit offset user)"
  "act_keeps schema_kept (get_session env sid user)"
  "act_keeps schema_kept (delete_session env sid user)"
  "act_keeps schema_kept (abort_session env sid user)"
  "act_keeps schema_kept (session_events env sid limit offset user)"
proof -
  have a: "''aborted'' \<in> set session_statuses" by (simp add: session_statuses_def)
  show "act_keeps schema_kept (register env body)" unfolding register_def
    by (intro schema_intros keeps_branch schema_insert_user)
  show "act_keeps schema_kept (login env email password)" unfolding login_def
    by (intro schema_intros keeps_branch schema_touch)
  show "act_keeps schema_kept (create_session env goal user)" unfolding create_session_def
    by (intro schema_intros schema_insert_session)
  show "act_keeps schema_kept (list_sessions env limit offset user)" unfolding list_sessions_def
    by (intro schema_intros)
  show "act_keeps schema_kept (get_session env sid user)" unfolding get_session_def
    by (intro schema_intros keeps_branch)
  show "act_keeps schema_kept (delete_session env sid user)" unfolding delete_session_def
    by (intro schema_intros keeps_branch schema_update_status a)
  show "act_keeps schema_kept (abort_session env sid user)" unfolding abort_session_def
    by (intro schema_intros keeps_branch schema_update_status a)
  show "act_keeps schema_kept (session_events env sid limit offset user)" unfolding session_events_def
    by (intro schema_intros keeps_branch)
qed

lemma schema_with_user: "(\<And>u. act_keeps schema_kept (h u)) \<Longrightarrow> act_keeps schema_kept (with_user env token h)"
  unfolding with_user_def by (intro schema_intros keeps_branch)

section \<open>Properties\<close>

text \<open>What a token is worth: until it expires it stands for the active user it was made for, afterwards for nobody.\<close>

lemma token_authenticates:
  assumes "jwt_law env" "pg_up env" "find_user (w_db w) uid = Some u" "us_is_active u" "uid < 2 ^ 128"
  shows "fst (get_current_user env (e_jwt_encode env (uuid_str uid) until since
             (jwt_secret (e_settings env)) (jwt_algorithm (e_settings env))) w)
     = Inr (if now env w < until then Reply 200 (user_columns u) else HttpError 401 ''Invalid or expired token'')"
proof (cases "now env w < until")
  case True
  have ne: "uuid_str uid \<noteq> []" by (simp add: uuid_str_def Let_def)
  from up_pool [OF assms(2), of "tick w"] obtain w1 where p: "get_pool env (tick w) = (Inr (), w1)" "w_db w1 = w_db w" by auto
  from True assms(1) have d: "decode_token env (e_jwt_encode env (uuid_str uid) until since
      (jwt_secret (e_settings env)) (jwt_algorithm (e_settings env))) w
      = (Inr [(''sub'', JStr (uuid_str uid)), (''exp'', JInt until), (''iat'', JInt since)], tick w)"
    by (simp add: decode_token_def jwt_law_def)
  with True ne p show ?thesis using assms(3,4)
    by (simp add: get_current_user_def dget_or_def abind_def uuid_of_json_def uuid_of_str [OF assms(5)]
        up_query [OF assms(2)] user_columns_def)
next
  case False
  with assms(1) show ?thesis by (simp add: get_current_user_def decode_token_def jwt_law_def)
qed

lemma find_snoc: "find P xs = None \<Longrightarrow> P x \<Longrightarrow> find P (xs @ [x]) = Some x"
  by (induction xs) (auto split: if_splits)

lemma login_ok:
  assumes "bcrypt_law env" "pg_up env" "user_by_email email (w_db w) = Some u" "us_is_active u"
    and "e_bcrypt_hash env n password = Inr (us_password_hash u)"
  shows "\<exists>token w'. login env email password w = (Inr (Reply 200 \<lparr>lg_access_token = token, lg_token_type = ''bearer'',
      lg_expires_in = 3600\<rparr>), w') \<and> (\<exists>t1 t2. token = e_jwt_encode env (uuid_str (us_id u)) (t1 + jwt_expiry_seconds (e_settings env)) t2
      (jwt_secret (e_settings env)) (jwt_algorithm (e_settings env)))"
proof -
  from up_pool [OF assms(2), of w] obtain w1 where p: "get_pool env w = (Inr (), w1)" "w_db w1 = w_db w" by blast
  have v: "verify_password env password (us_password_hash u) w2 = (Inr True, w2)" for w2
    using assms(1,5) by (auto simp: verify_password_def bcrypt_law_def)
  from p assms(3,4) show ?thesis
    by (simp add: login_def abind_def up_query [OF assms(2)] v pg_cmd_def pg_up_def [THEN iffD1, OF assms(2)]
        create_access_token_def Let_def) blast
qed

lemma register_Reply:
  assumes "pg_up env" "register env body w = (Inr (Reply 201 resp), w')"
  obtains u t t2 n where "find_user (w_db w') (rg_user_id resp) = Some u" "user_by_email (rr_email body) (w_db w') = Some u"
    "us_id u = rg_user_id resp" "us_email u = rr_email body" "us_is_active u"
    "e_bcrypt_hash env n (rr_password body) = Inr (us_password_hash u)"
    "rg_access_token resp = e_jwt_encode env (uuid_str (rg_user_id resp)) (t + jwt_expiry_seconds (e_settings env)) t2
      (jwt_secret (e_settings env)) (jwt_algorithm (e_settings env))" "\<exists>k. t = e_time env k \<and> w_tick w \<le> k \<and> k < w_tick w'" "\<exists>k. rg_user_id resp = e_new_uuid env k"
proof -
  from up_pool [OF assms(1), of w] obtain w1 where p: "get_pool env w = (Inr (), w1)" "w_db w1 = w_db w" by blast
  have none: "user_by_email (rr_email body) (w_db w) = None"
    using assms(2) by (cases "user_by_email (rr_email body) (w_db w)")
      (auto simp: register_def abind_def p up_query [OF assms(1)])
  with assms(2) obtain h where h: "e_bcrypt_hash env (w_tick (tick w1)) (rr_password body) = Inr h"
    by (cases "e_bcrypt_hash env (w_tick (tick w1)) (rr_password body)")
       (auto simp: register_def abind_def p up_query [OF assms(1)] hash_password_def)
  let ?w3 = "tick (tick w1)"
  let ?i = "e_new_uuid env (w_tick ?w3)"
  let ?u = "\<lparr>us_id = ?i, us_email = rr_email body, us_password_hash = h, us_created_at = now env ?w3,
      us_last_login_at = None, us_is_active = True\<rparr>"
  let ?db = "(w_db w)\<lparr>db_users := db_users (w_db w) @ [?u]\<rparr>"
  have emails: "rr_email body \<notin> us_email ` set (db_users (w_db w))"
    using none by (auto simp: user_by_email_def find_None_iff)
  with assms(2) h none have ids: "?i \<notin> us_id ` set (db_users (w_db w))"
    by (auto simp: register_def abind_def p up_query [OF assms(1)] hash_password_def pg_cmd_def insert_user_def
        pg_up_def [THEN iffD1, OF assms(1)] split: if_splits)
  let ?w4 = "tick (?w3\<lparr>w_db := ?db\<rparr>)"
  have ins: "pg_cmd env (\<lambda>i t. insert_user i t (rr_email body) h) ?w3 = (Inr ?i, ?w4)"
    using emails ids by (simp add: pg_cmd_def insert_user_def pg_up_def [THEN iffD1, OF assms(1)] p(2))
  let ?token = "e_jwt_encode env (uuid_str ?i) (now env ?w4 + jwt_expiry_seconds (e_settings env)) (now env (tick ?w4))
      (jwt_secret (e_settings env)) (jwt_algorithm (e_settings env))"
  have "register env body w = (Inr (Reply 201 \<lparr>rg_user_id = ?i, rg_email = rr_email body, rg_access_token = ?token,
      rg_token_type = ''bearer''\<rparr>), tick (tick ?w4))"
    using p none h ins by (simp add: register_def abind_def up_query [OF assms(1)] hash_password_def
        create_access_token_def Let_def)
  with assms(2) have resp: "rg_user_id resp = ?i" "rg_access_token resp = ?token" and w': "w' = tick (tick ?w4)" by auto
  have fu: "find_user ?db ?i = Some ?u"
    unfolding find_user_def using ids by (simp del: find.simps) (rule find_snoc, auto simp: find_None_iff image_iff)
  have fe: "user_by_email (rr_email body) ?db = Some ?u"
    unfolding user_by_email_def using emails by (simp del: find.simps) (rule find_snoc, auto simp: find_None_iff image_iff)
  have "w_tick w \<le> w_tick w1" using p(1) by (auto simp: get_pool_def split: if_splits option.splits)
  then have "\<exists>k. now env ?w4 = e_time env k \<and> w_tick w \<le> k \<and> k < w_tick w'"
    unfolding w' now_def by (intro exI [of _ "w_tick ?w4"]) simp
  with fu fe h show ?thesis
    by (intro that [of ?u "w_tick (tick w1)" "now env ?w4" "now env (tick ?w4)"]) (auto simp: resp w')
qed

text \<open>An account as it was made, but for the time of its last login.\<close>

definition same_account :: "user_row \<Rightarrow> user_row \<Rightarrow> bool" where
  "same_account u v \<longleftrightarrow> v\<lparr>us_last_login_at := None\<rparr> = u\<lparr>us_last_login_at := None\<rparr>"

lemma same_accountD:
  assumes "same_account u v"
  shows "us_id v = us_id u" "us_is_active v = us_is_active u" "us_password_hash v = us_password_hash u"
    "user_columns v = user_columns u"
  using assms by (cases u; cases v; simp add: same_account_def user_columns_def)+

text \<open>C19: A registered account works. The answer to a successful registration carries a token that stands
  for the new user, with the address given, until the configured lifetime after the time of
  the registration is over, and for nobody afterwards; and logging in with the same address and
  password succeeds, with a token that names that user. Both hold in every later state in which
  the account is as it was made but for its last login, whatever else has changed.\<close>

theorem registered_account_works:
  assumes "jwt_law env" "bcrypt_law env" "pg_up env" "\<And>n. e_new_uuid env n < 2 ^ 128"
    and reg: "register env body w = (Inr (Reply 201 resp), w')"
  shows "\<exists>u t. find_user (w_db w') (rg_user_id resp) = Some u \<and> user_by_email (rr_email body) (w_db w') = Some u
    \<and> us_email u = rr_email body \<and> us_is_active u
    \<and> (\<exists>k. t = e_time env k \<and> w_tick w \<le> k \<and> k < w_tick w')
    \<and> (\<forall>w2 v. find_user (w_db w2) (rg_user_id resp) = Some v \<longrightarrow> same_account u v \<longrightarrow>
          fst (get_current_user env (rg_access_token resp) w2)
            = Inr (if now env w2 < t + jwt_expiry_seconds (e_settings env) then Reply 200 (user_columns u)
                   else HttpError 401 ''Invalid or expired token''))
    \<and> (\<forall>w2 v. user_by_email (rr_email body) (w_db w2) = Some v \<longrightarrow> same_account u v \<longrightarrow> (\<exists>token w3 t1 t2.
          login env (rr_email body) (rr_password body) w2
            = (Inr (Reply 200 \<lparr>lg_access_token = token, lg_token_type = ''bearer'', lg_expires_in = 3600\<rparr>), w3)
          \<and> token = e_jwt_encode env (uuid_str (rg_user_id resp)) (t1 + jwt_expiry_seconds (e_settings env)) t2
                (jwt_secret (e_settings env)) (jwt_algorithm (e_settings env))))"
proof -
  from register_Reply [OF assms(3) reg] obtain u t t2 n where u: "find_user (w_db w') (rg_user_id resp) = Some u"
    "user_by_email (rr_email body) (w_db w') = Some u" "us_id u = rg_user_id resp" "us_email u = rr_email body" "us_is_active u"
    "e_bcrypt_hash env n (rr_password body) = Inr (us_password_hash u)"
    and t: "rg_access_token resp = e_jwt_encode env (uuid_str (rg_user_id resp)) (t + jwt_expiry_seconds (e_settings env)) t2
      (jwt_secret (e_settings env)) (jwt_algorithm (e_settings env))" "\<exists>k. t = e_time env k \<and> w_tick w \<le> k \<and> k < w_tick w'" "\<exists>k. rg_user_id resp = e_new_uuid env k" .
  have id: "rg_user_id resp < 2 ^ 128" using t(3) assms(4) by metis
  have token: "fst (get_current_user env (rg_access_token resp) w2)
       = Inr (if now env w2 < t + jwt_expiry_seconds (e_settings env) then Reply 200 (user_columns u)
              else HttpError 401 ''Invalid or expired token'')"
    if "find_user (w_db w2) (rg_user_id resp) = Some v" "same_account u v" for w2 v
    using token_authenticates [OF assms(1,3) that(1) _ id] same_accountD [OF that(2)] u(5) t(1) by simp
  have login: "\<exists>token w3 t1 t2. login env (rr_email body) (rr_password body) w2
            = (Inr (Reply 200 \<lparr>lg_access_token = token, lg_token_type = ''bearer'', lg_expires_in = 3600\<rparr>), w3)
          \<and> token = e_jwt_encode env (uuid_str (rg_user_id resp)) (t1 + jwt_expiry_seconds (e_settings env)) t2
                (jwt_secret (e_settings env)) (jwt_algorithm (e_settings env))"
    if "user_by_email (rr_email body) (w_db w2) = Some v" "same_account u v" for w2 v
    using login_ok [OF assms(2,3) that(1), of n "rr_password body"] same_accountD [OF that(2)] u(3,5,6) by metis
  show ?thesis using u t(2) token login by blast
qed

definition replied :: "nat \<Rightarrow> 'a http result \<Rightarrow> bool" where
  "replied n r = (case r of Inr (Reply m x) \<Rightarrow> m = n | _ \<Rightarrow> False)"

lemma replied_run: "replied n (fst m) \<Longrightarrow> \<exists>x w'. m = (Inr (Reply n x), w')"
  by (cases m) (auto simp: replied_def split: sum.splits http.splits)

definition one_id_env :: env where
  "one_id_env = (calm_env (\<lambda>n p. Inr JNull))\<lparr>e_new_uuid := (\<lambda>n. 7)\<rparr>"

theorem registered_account_works_witness:
  "\<exists>resp w'. register one_id_env \<lparr>rr_email = ''a@b.c'', rr_password = ''correct horse''\<rparr> fresh_world
       = (Inr (Reply 201 resp), w')
     \<and> (\<exists>u. find_user (w_db w') (rg_user_id resp) = Some u \<and> us_email u = ''a@b.c'')"
proof -
  let ?m = "register one_id_env \<lparr>rr_email = ''a@b.c'', rr_password = ''correct horse''\<rparr> fresh_world"
  have up: "pg_up one_id_env" and ids: "\<And>n. e_new_uuid one_id_env n < 2 ^ 128"
    by (simp_all add: pg_up_def one_id_env_def calm_env_def)
  have laws: "jwt_law one_id_env" "bcrypt_law one_id_env"
    using calm_laws by (simp_all add: jwt_law_def bcrypt_law_def one_id_env_def)
  have "replied 201 (fst ?m)"
    by (simp add: register_def abind_def get_pool_def pg_query_def pg_cmd_def one_id_env_def calm_env_def fresh_world_def
        empty_db_def insert_user_def user_by_email_def hash_password_def create_access_token_def Let_def replied_def)
  then obtain resp w' where m: "?m = (Inr (Reply 201 resp), w')" using replied_run by blast
  from registered_account_works [OF laws up ids m] m show ?thesis by (elim exE conjE) auto
qed

text \<open>How an endpoint refuses: nothing is written, and the answer is 404 or the request fails.\<close>

definition refused :: "'a http result \<times> world \<Rightarrow> world \<Rightarrow> bool" where
  "refused out w \<longleftrightarrow> w_db (snd out) = w_db w
     \<and> (case fst out of Inr r \<Rightarrow> r = HttpError 404 ''Session not found'' | Inl e \<Rightarrow> True)"

lemma update_none:
  assumes "\<forall>s \<in> set (db_sessions db). \<not> p s"
  shows "update_sessions p f db = (0, db)"
proof -
  have "filter p (db_sessions db) = []" using assms by (simp add: filter_empty_conv)
  moreover have "map (\<lambda>s. if p s then f s else s) (db_sessions db) = db_sessions db"
    using assms by (intro map_idI) auto
  ultimately show ?thesis by (simp add: update_sessions_def)
qed

text \<open>C20: A session is out of reach for anybody but its owner. Reading, deleting or aborting a session
  the caller does not own, or listing its events, is answered as if the session did not
  exist, and leaves the database as it was.\<close>

theorem foreign_session_hidden:
  assumes "\<forall>s \<in> set (db_sessions (w_db w)). se_id s = sid \<longrightarrow> se_user_id s \<noteq> cu_id user"
  shows "refused (get_session env sid user w) w \<and> refused (delete_session env sid user w) w
    \<and> refused (abort_session env sid user w) w \<and> refused (session_events env sid limit offset user w) w"
proof (cases "get_pool env w")
  case (Pair r w1)
  then have db: "w_db w1 = w_db w" using db_keptD [OF kept_get_pool] by blast
  have none: "own_session sid (cu_id user) (w_db w) = None" using assms by (auto simp: own_session_def find_None_iff)
  have upd: "update_sessions (\<lambda>s. se_id s = sid \<and> se_user_id s = cu_id user) f (w_db w) = (0, w_db w)" for f
    using assms by (intro update_none) blast
  show ?thesis
  proof (cases r)
    case (Inl e)
    with Pair db show ?thesis
      by (simp add: refused_def get_session_def delete_session_def abort_session_def session_events_def)
  next
    case (Inr x)
    with Pair db none upd show ?thesis
      by (auto simp: refused_def get_session_def delete_session_def abort_session_def session_events_def
          abind_def pg_page_def pg_query_def pg_cmd_def pg_update_sessions_def split: option.splits)
  qed
qed

definition one_session :: "string \<Rightarrow> string option \<Rightarrow> database" where
  "one_session st out = \<lparr>db_users = [\<lparr>us_id = 1, us_email = ''a@b.c'', us_password_hash = ''#p'', us_created_at = 0,
       us_last_login_at = None, us_is_active = True\<rparr>],
     db_sessions = [\<lparr>se_id = 7, se_user_id = 1, se_goal = ''g'', se_status = st, se_final_output = out,
       se_final_quality = None, se_iteration_count = 0, se_created_at = 5, se_completed_at = None\<rparr>],
     db_audit = []\<rparr>"

definition caller :: "uuid \<Rightarrow> current_user" where
  "caller i = \<lparr>cu_id = i, cu_email = ''a@b.c'', cu_created_at = 0, cu_is_active = True\<rparr>"

theorem foreign_session_hidden_witness:
  "refused (delete_session (calm_env (\<lambda>n p. Inr JNull)) 7 (caller 2) (fresh_world\<lparr>w_db := one_session ''running'' None\<rparr>))
     (fresh_world\<lparr>w_db := one_session ''running'' None\<rparr>)"
  using foreign_session_hidden [of "fresh_world\<lparr>w_db := one_session ''running'' None\<rparr>" 7 "caller 2" "calm_env (\<lambda>n p. Inr JNull)"]
  by (simp add: one_session_def caller_def)

text \<open>The steps of an abort that reached the database, and the statement that marks the session.\<close>

lemma abort_session_step:
  assumes "abort_session env sid user w = (Inr r, w')"
  shows "\<exists>w1. w_db w1 = w_db w \<and> (Inr r, w') = (case own_session sid (cu_id user) (w_db w) of
       None \<Rightarrow> (Inr (HttpError 404 ''Session not found''), tick w1)
     | Some s \<Rightarrow> if se_status s \<noteq> ''pending'' \<and> se_status s \<noteq> ''running''
                then (Inr (HttpError 409 (''Session is already '' @ se_status s)), tick w1)
                else abind (pg_update_sessions env (\<lambda>t s. se_id s = sid) (\<lambda>t. set_status ''aborted'')) (\<lambda>_.
                     aret (Reply 202 [(''detail'', ''abort requested'')])) (tick w1))"
proof -
  from assms obtain w1 where p: "get_pool env w = (Inr (), w1)"
    and q: "e_pg_error env (w_tick w1) = None" by (auto simp: abort_session_def abind_Inr pg_query_Inr)
  have db: "w_db w1 = w_db w" using p by (rule get_pool_Inr)
  with p have "abort_session env sid user w = (case own_session sid (cu_id user) (w_db w) of
       None \<Rightarrow> (Inr (HttpError 404 ''Session not found''), tick w1)
     | Some s \<Rightarrow> if se_status s \<noteq> ''pending'' \<and> se_status s \<noteq> ''running''
                then (Inr (HttpError 409 (''Session is already '' @ se_status s)), tick w1)
                else abind (pg_update_sessions env (\<lambda>t s. se_id s = sid) (\<lambda>t. set_status ''aborted'')) (\<lambda>_.
                     aret (Reply 202 [(''detail'', ''abort requested'')])) (tick w1))"
    by (simp add: abort_session_def pg_query_ok [OF q] split: option.split)
  from db this [unfolded assms] show ?thesis by (intro exI [of _ w1] conjI)
qed

lemma mark_aborted:
  assumes "pg_update_sessions env (\<lambda>t s. se_id s = sid) (\<lambda>t. set_status ''aborted'') w = (Inr x, w')"
  shows "db_users (w_db w') = db_users (w_db w)
    \<and> find_session (w_db w') i = (if i = sid then map_option (set_status ''aborted'') (find_session (w_db w) i) else find_session (w_db w) i)"
proof -
  have w': "w_db w' = snd (update_sessions (\<lambda>s. se_id s = sid) (set_status ''aborted'') (w_db w))"
    using assms by (auto simp: pg_update_sessions_def pg_cmd_Inr split: prod.splits)
  show ?thesis unfolding w' find_session_update [OF set_status_fields(1)]
    by (cases "find_session (w_db w) i") (auto simp: update_sessions_def dest: find_session_Some)
qed

text \<open>C21: Aborting. On a database that keeps its constraints, an abort that is answered is answered in one of
  three ways: an owned session that is pending or running becomes aborted and nothing else
  changes; an owned session in any other status is reported as already in it; and a session
  that is not owned is reported as missing. In the last two cases nothing is written.\<close>

theorem abort_session_outcomes:
  assumes "db_ok (w_db w)" "abort_session env sid user w = (Inr r, w')"
  shows "case find_session (w_db w) sid of
      Some s \<Rightarrow>
        if se_user_id s \<noteq> cu_id user then r = HttpError 404 ''Session not found'' \<and> w_db w' = w_db w
        else if se_status s = ''pending'' \<or> se_status s = ''running''
        then r = Reply 202 [(''detail'', ''abort requested'')] \<and> db_users (w_db w') = db_users (w_db w)
          \<and> find_session (w_db w') sid = Some (set_status ''aborted'' s)
          \<and> (\<forall>i. i \<noteq> sid \<longrightarrow> find_session (w_db w') i = find_session (w_db w) i)
        else r = HttpError 409 (''Session is already '' @ se_status s) \<and> w_db w' = w_db w
    | None \<Rightarrow> r = HttpError 404 ''Session not found'' \<and> w_db w' = w_db w"
proof -
  from abort_session_step [OF assms(2)] obtain w1 where db: "w_db w1 = w_db w"
    and step: "(Inr r, w') = (case own_session sid (cu_id user) (w_db w) of
       None \<Rightarrow> (Inr (HttpError 404 ''Session not found''), tick w1)
     | Some s \<Rightarrow> if se_status s \<noteq> ''pending'' \<and> se_status s \<noteq> ''running''
                then (Inr (HttpError 409 (''Session is already '' @ se_status s)), tick w1)
                else abind (pg_update_sessions env (\<lambda>t s. se_id s = sid) (\<lambda>t. set_status ''aborted'')) (\<lambda>_.
                     aret (Reply 202 [(''detail'', ''abort requested'')])) (tick w1))" by blast
  have own: "own_session sid (cu_id user) (w_db w) = (case find_session (w_db w) sid of
           Some s \<Rightarrow> if se_user_id s = cu_id user then Some s else None | None \<Rightarrow> None)"
    using assms(1) by (intro own_session_iff) (simp add: db_ok_def)
  show ?thesis
  proof (cases "find_session (w_db w) sid")
    case None
    with step own db show ?thesis by auto
  next
    case (Some s)
    show ?thesis
    proof (cases "se_user_id s = cu_id user \<and> (se_status s = ''pending'' \<or> se_status s = ''running'')")
      case True
      with step own Some obtain x where "pg_update_sessions env (\<lambda>t s. se_id s = sid) (\<lambda>t. set_status ''aborted'') (tick w1) = (Inr x, w')"
        and r: "r = Reply 202 [(''detail'', ''abort requested'')]" by (auto simp: abind_Inr dest!: sym [of "(Inr r, w')"])
      from mark_aborted [OF this(1)] True Some r show ?thesis by (simp add: db)
    next
      case False
      with step own Some db show ?thesis by (auto split: if_splits)
    qed
  qed
qed

theorem abort_session_outcomes_witness:
  "\<exists>w'. abort_session (calm_env (\<lambda>n p. Inr JNull)) 7 (caller 1) (fresh_world\<lparr>w_db := one_session ''running'' None\<rparr>)
       = (Inr (Reply 202 [(''detail'', ''abort requested'')]), w')
     \<and> map_option se_status (find_session (w_db w') 7) = Some ''aborted''"
proof -
  let ?w = "fresh_world\<lparr>w_db := one_session ''running'' None\<rparr>"
  let ?m = "abort_session (calm_env (\<lambda>n p. Inr JNull)) 7 (caller 1) ?w"
  have ok: "db_ok (w_db ?w)" by (simp add: one_session_def db_ok_def session_statuses_def)
  have "replied 202 (fst ?m)" by code_simp
  then obtain r w' where m: "?m = (Inr (Reply 202 r), w')" using replied_run by blast
  have s: "find_session (w_db ?w) 7 = Some \<lparr>se_id = 7, se_user_id = 1, se_goal = ''g'', se_status = ''running'',
      se_final_output = None, se_final_quality = None, se_iteration_count = 0, se_created_at = 5, se_completed_at = None\<rparr>"
    by (simp add: find_session_def one_session_def)
  from abort_session_outcomes [OF ok m, unfolded s] m show ?thesis by (simp add: caller_def)
qed

text \<open>The items of an answered page.\<close>

definition page_items :: "session_list http result \<Rightarrow> session_list_item list" where
  "page_items r = (case r of Inr (Reply n l) \<Rightarrow> sl_items l | _ \<Rightarrow> [])"

lemma singleton_list: "distinct xs \<Longrightarrow> set xs = {a} \<Longrightarrow> xs = [a]"
  by (cases xs) (auto simp: subset_singleton_iff insert_eq_iff split: if_splits)

lemma concat_pages: "concat (map (\<lambda>k. page l (k * l) xs) [0..<n]) = take (n * l) xs"
proof (induction n)
  case (Suc n)
  have "take (Suc n * l) xs = take (n * l) xs @ take l (drop (n * l) xs)"
    by (metis add.commute mult_Suc take_add)
  with Suc show ?case by (simp add: page_def)
qed simp

lemma list_sessions_run:
  assumes "pg_up env" "scan_law env"
  obtains rows w' where "mset rows = mset (own_sessions (cu_id user) (w_db w))"
    "list_sessions env limit offset user w = (Inr (Reply 200
     \<lparr>sl_items = map list_item (page limit offset (newest_first rows)),
      sl_total = length (own_sessions (cu_id user) (w_db w)), sl_limit = limit, sl_offset = offset\<rparr>), w')"
proof -
  from up_pool [OF assms(1), of w] obtain w1 where p: "get_pool env w = (Inr (), w1)" "w_db w1 = w_db w" by blast
  show thesis
    by (rule that [OF mset_scanned [OF assms(2)], of "w_tick w1"])
       (simp add: list_sessions_def p up_query [OF assms(1)] up_page [OF assms(1)])
qed

lemma newest_first_unique:
  assumes "mset rows = mset own" "distinct (map se_created_at own)"
  shows "newest_first rows = newest_first own"
proof -
  have "inj_on (\<lambda>s. - se_created_at s) (set rows)"
    using assms mset_eq_setD [OF assms(1)] by (auto simp: distinct_map inj_on_def)
  then show ?thesis unfolding newest_first_def using assms(1) by (intro sort_key_inj_key_eq) simp_all
qed

text \<open>C22: Paging. Each page is in order, newest first, holds sessions of the caller only, and reports the total.
  Walking through the pages at a fixed limit, one request after the other, while the caller's
  sessions stay as they are, yields every session of the caller exactly once and nobody else's,
  newest first, provided no two of them were made at the same time: among those the order
  of one request need not be that of the next.\<close>

theorem list_sessions_pages:
  assumes "pg_up env" "scan_law env" "distinct (map se_id own)" "length own \<le> n * limit"
    and "\<And>k. own_sessions (cu_id user) (w_db (ws k)) = own"
  defines "pages \<equiv> \<lambda>k. page_items (fst (list_sessions env limit (k * limit) user (ws k)))"
  defines "items \<equiv> concat (map pages [0..<n])"
  shows "(\<forall>k. (\<exists>l w'. list_sessions env limit (k * limit) user (ws k) = (Inr (Reply 200 l), w') \<and> sl_total l = length own)
      \<and> set (pages k) \<subseteq> list_item ` set own \<and> sorted_wrt (\<lambda>a b. li_created_at b \<le> li_created_at a) (pages k))
    \<and> (distinct (map se_created_at own) \<longrightarrow>
        distinct (map li_session_id items) \<and> set items = list_item ` set own \<and> length items = length own
        \<and> sorted_wrt (\<lambda>a b. li_created_at b \<le> li_created_at a) items)"
proof -
  have sorted: "sorted_wrt (\<lambda>a b. li_created_at b \<le> li_created_at a) (map list_item (newest_first rows))" for rows
  proof -
    have "sorted (map (\<lambda>s. - se_created_at s) (newest_first rows))" by (simp add: newest_first_def)
    then show ?thesis by (simp add: sorted_wrt_map list_item_def)
  qed
  have "\<exists>rows w'. mset rows = mset own \<and> pages k = map list_item (page limit (k * limit) (newest_first rows))
      \<and> list_sessions env limit (k * limit) user (ws k) = (Inr (Reply 200 \<lparr>sl_items = pages k, sl_total = length own,
          sl_limit = limit, sl_offset = k * limit\<rparr>), w')" for k
    by (rule list_sessions_run [OF assms(1,2), of user "ws k" limit "k * limit"])
       (auto simp: assms(5) pages_def page_items_def)
  then obtain rows w' where rows: "\<And>k. mset (rows k) = mset own"
    "\<And>k. pages k = map list_item (page limit (k * limit) (newest_first (rows k)))"
    "\<And>k. list_sessions env limit (k * limit) user (ws k) = (Inr (Reply 200 \<lparr>sl_items = pages k, sl_total = length own,
          sl_limit = limit, sl_offset = k * limit\<rparr>), w' k)" by metis
  have one: "set (pages k) \<subseteq> list_item ` set own" "sorted_wrt (\<lambda>a b. li_created_at b \<le> li_created_at a) (pages k)" for k
    using sorted [of "rows k"] mset_eq_setD [OF rows(1) [of k]]
    by (auto simp: rows(2) page_def newest_first_def take_map [symmetric] drop_map [symmetric] sorted_wrt_take sorted_wrt_drop
        dest!: in_set_takeD in_set_dropD)
  have all: "distinct (map li_session_id items) \<and> set items = list_item ` set own \<and> length items = length own
        \<and> sorted_wrt (\<lambda>a b. li_created_at b \<le> li_created_at a) items" if "distinct (map se_created_at own)"
  proof -
    have "pages = (\<lambda>k. map list_item (page limit (k * limit) (newest_first own)))"
      using newest_first_unique [OF rows(1) that] rows(2) by (simp add: fun_eq_iff)
    then have "items = map list_item (concat (map (\<lambda>k. page limit (k * limit) (newest_first own)) [0..<n]))"
      by (simp add: items_def map_concat comp_def)
    also have "\<dots> = map list_item (newest_first own)"
      unfolding concat_pages using assms(4) by (simp add: newest_first_def)
    finally have items: "items = map list_item (newest_first own)" .
    have "distinct (map se_id (newest_first own))" using assms(3) unfolding newest_first_def by (simp add: distinct_map)
    moreover have "map li_session_id items = map se_id (newest_first own)" by (simp add: items list_item_def)
    moreover have "set (newest_first own) = set own" "length (newest_first own) = length own" by (simp_all add: newest_first_def)
    ultimately show ?thesis using sorted [of own] by (simp only: items set_map length_map simp_thms)
  qed
  have each: "\<exists>l w'. list_sessions env limit (k * limit) user (ws k) = (Inr (Reply 200 l), w') \<and> sl_total l = length own" for k
    by (intro exI conjI) (rule rows(3), simp)
  show ?thesis by (intro conjI allI impI each one all [THEN conjunct1] all [THEN conjunct2, THEN conjunct1]
      all [THEN conjunct2, THEN conjunct2, THEN conjunct1] all [THEN conjunct2, THEN conjunct2, THEN conjunct2])
qed

theorem list_sessions_pages_witness:
  "map li_session_id (page_items (fst (list_sessions (calm_env (\<lambda>n p. Inr JNull)) 20 0 (caller 1)
      (fresh_world\<lparr>w_db := one_session ''running'' None\<rparr>)))) = [7]"
proof -
  let ?env = "calm_env (\<lambda>n p. Inr JNull)" and ?w = "fresh_world\<lparr>w_db := one_session ''running'' None\<rparr>"
  let ?own = "db_sessions (w_db ?w)"
  have up: "pg_up ?env" "scan_law ?env" by (simp_all add: pg_up_def scan_law_def calm_env_def)
  have own: "distinct (map se_id ?own)" "length ?own \<le> 1 * 20" "own_sessions (cu_id (caller 1)) (w_db ?w) = ?own"
    "distinct (map se_created_at ?own)"
    by (simp_all add: own_sessions_def one_session_def caller_def)
  have "distinct (map li_session_id (page_items (fst (list_sessions ?env 20 0 (caller 1) ?w))))
    \<and> set (page_items (fst (list_sessions ?env 20 0 (caller 1) ?w))) = list_item ` set ?own"
    using list_sessions_pages [OF up own(1,2), of "caller 1" "\<lambda>k. ?w", OF own(3)] own(4) by (simp del: One_nat_def add: upt_rec)
  then have "set (map li_session_id (page_items (fst (list_sessions ?env 20 0 (caller 1) ?w)))) = {7}"
    "distinct (map li_session_id (page_items (fst (list_sessions ?env 20 0 (caller 1) ?w))))"
    by (simp_all add: one_session_def list_item_def)
  then show ?thesis using singleton_list by metis
qed

text \<open>A session that has an output cannot be read. The stored output reaches the response as text, not as
  an object, so for its owner the request fails, where before completion it succeeds.\<close>

theorem get_session_with_output_fails:
  assumes "db_ok (w_db w)" "pg_up env" "find_session (w_db w) sid = Some s" "se_user_id s = cu_id user"
  shows "case fst (get_session env sid user w) of
      Inl e \<Rightarrow> se_final_output s \<noteq> None \<and> exn_class e = ValueError
    | Inr r \<Rightarrow> se_final_output s = None \<and> (\<exists>d. r = Reply 200 d \<and> sd_session_id d = sid \<and> sd_status d = se_status s)"
proof -
  from up_pool [OF assms(2), of w] obtain w1 where p: "get_pool env w = (Inr (), w1)" "w_db w1 = w_db w" by blast
  have "own_session sid (cu_id user) (w_db w) = Some s"
    using own_session_iff [of "w_db w" sid "cu_id user"] assms by (simp add: db_ok_def)
  with p find_session_Some [OF assms(3)] show ?thesis
    by (cases "se_final_output s") (simp_all add: get_session_def up_query [OF assms(2)] detail_output_def)
qed

theorem get_session_with_output_fails_witness:
  "\<exists>e. fst (get_session (calm_env (\<lambda>n p. Inr JNull)) 7 (caller 1) (fresh_world\<lparr>w_db := one_session ''completed'' (Some ''{}'')\<rparr>)) = Inl e
     \<and> exn_class e = ValueError"
proof -
  let ?w = "fresh_world\<lparr>w_db := one_session ''completed'' (Some ''{}'')\<rparr>"
  have ok: "db_ok (w_db ?w)" by (simp add: one_session_def db_ok_def session_statuses_def)
  have up: "pg_up (calm_env (\<lambda>n p. Inr JNull))" by (simp add: pg_up_def calm_env_def)
  obtain s where s: "find_session (w_db ?w) 7 = Some s" "se_user_id s = cu_id (caller 1)" "se_final_output s \<noteq> None"
    by (simp add: find_session_def one_session_def caller_def)
  from get_session_with_output_fails [OF ok up s(1,2)] s(3) show ?thesis by (auto split: sum.splits)
qed

end
