(* ===== verification/Memory.thy ===== *)
theory Memory
  imports Tools
begin

text \<open>
  Memory across sessions (\<open>backend/core/memory.py\<close>): a finished session's output is written to
  the vector index when its quality is high enough, in the namespace of its user, and past
  sessions are recalled from that namespace. The index's ranking is a parameter of the model.
\<close>

section \<open>Classification\<close>

definition quality_write_threshold :: pyfloat where "quality_write_threshold = mk_float (70 / 100)"
definition embed_cache_ttl :: int where "embed_cache_ttl = 7 * 24 * 3600"

definition output_keywords :: "string list dict" where
  "output_keywords =
     [(''code'', [''def '', ''class '', ''import '', fence @ ''python'', fence @ ''js'']),
      (''research'', [''according to'', ''study'', ''research'', ''found that'', ''evidence'']),
      (''analysis'', [''analysis'', ''breakdown'', ''compare'', ''contrast'', ''evaluate'']),
      (''writing'', [''introduction'', ''conclusion'', ''paragraph'', ''essay'', ''draft''])]"

definition classify_output_type :: "string \<Rightarrow> string" where
  "classify_output_type output =
     (let lowered = lower output in
      case find (\<lambda>(t, kws). list_ex (\<lambda>kw. contains kw lowered) kws) output_keywords of
        Some (t, kws) \<Rightarrow> t
      | None \<Rightarrow> ''mixed'')"

section \<open>Embedding\<close>

definition memory_fetch :: "env \<Rightarrow> string \<Rightarrow> json act" where
  "memory_fetch env text =
     abind (embedding_call env text) (\<lambda>vector.
     abind (acatch (redis_set env (embed_key env text) (dumps default_opts vector) (Some embed_cache_ttl)) (\<lambda>e. aret ())) (\<lambda>_.
     aret vector))"

definition memory_embed :: "env \<Rightarrow> string \<Rightarrow> json act" where
  "memory_embed env text =
     abind (acatch
       (abind (redis_get env (embed_key env text)) (\<lambda>cached.
        case cached of
          Some (c # cs) \<Rightarrow> abind (alift (loads (c # cs))) (\<lambda>v. aret (Some v))
        | _ \<Rightarrow> aret None))
       (\<lambda>e. aret None)) (\<lambda>hit.
     case hit of Some v \<Rightarrow> aret v | None \<Rightarrow> memory_fetch env text)"

section \<open>Storing\<close>

text \<open>The keys read from the final state, each of which may be missing.\<close>

record final_state =
  fs_quality_score :: "pyfloat option"
  fs_session_id :: "string option"
  fs_user_id :: "string option"
  fs_user_goal :: "string option"
  fs_execution_output :: "string dict option"
  fs_iteration_count :: "int option"
  fs_disclaimer :: "string option"

definition whole_state :: "nexus_state \<Rightarrow> final_state" where
  "whole_state st = \<lparr>fs_quality_score = Some (quality_score st), fs_session_id = Some (session_id st),
     fs_user_id = Some (user_id st), fs_user_goal = Some (user_goal st),
     fs_execution_output = Some (execution_output st), fs_iteration_count = Some (iteration_count st),
     fs_disclaimer = disclaimer st\<rparr>"

text \<open>\<open>index.upsert\<close>: the vector with this id in this namespace is replaced, or added.\<close>

definition same_vector :: "vector_row \<Rightarrow> vector_row \<Rightarrow> bool" where
  "same_vector r r' \<longleftrightarrow> ve_namespace r = ve_namespace r' \<and> ve_id r = ve_id r'"

definition upsert :: "env \<Rightarrow> vector_row \<Rightarrow> unit act" where
  "upsert env row = (\<lambda>w. case e_upsert_error env (w_tick w) of
       Some e \<Rightarrow> (Inl e, tick w)
     | None \<Rightarrow> (Inr (), tick (w\<lparr>w_vectors := filter (\<lambda>r. \<not> same_vector row r) (w_vectors w) @ [row]\<rparr>)))"

definition memory_metadata :: "string \<Rightarrow> string \<Rightarrow> int \<Rightarrow> string \<Rightarrow> string \<Rightarrow> pyfloat \<Rightarrow> string \<Rightarrow> json dict" where
  "memory_metadata sid uid created_at goal output_type quality preview =
     [(''session_id'', JStr sid), (''user_id'', JStr uid), (''created_at'', JInt created_at), (''goal'', JStr goal),
      (''output_type'', JStr output_type), (''quality_score'', JFloat quality), (''content_preview'', JStr preview)]"

definition store_if_good :: "env \<Rightarrow> final_state \<Rightarrow> string \<Rightarrow> unit act" where
  "store_if_good env st output =
     (let quality = or_else (fs_quality_score st) (Fin 0);
          sid = or_else (fs_session_id st) [];
          uid = or_else (fs_user_id st) [];
          goal = take 500 (or_else (fs_user_goal st) [])
      in if flt_less quality quality_write_threshold then aret ()
         else abind (acatch (abind (memory_embed env (goal @ nl @ nl @ take 2000 output)) (\<lambda>v. aret (Some v)))
                (\<lambda>e. aret None)) (\<lambda>embedded.
              case embedded of
                None \<Rightarrow> aret ()
              | Some vector \<Rightarrow> (\<lambda>w.
                  let row = \<lparr>ve_namespace = uid, ve_id = sid, ve_values = vector,
                     ve_metadata = memory_metadata sid uid (now env w) goal (classify_output_type output) quality
                       (take 300 output)\<rparr>
                  in acatch (upsert env row) (\<lambda>e. aret ()) (tick w))))"

section \<open>Recalling\<close>

text \<open>\<open>meta.get(key, default)\<close> of a field the program writes as a string; any other value stands as its text.\<close>

definition meta_text :: "json \<Rightarrow> string \<Rightarrow> string \<Rightarrow> string result" where
  "meta_text meta k dflt = rbind (json_get meta k (JStr dflt)) (\<lambda>v. Inr (py_str v))"

text \<open>\<open>v or {}\<close>\<close>

definition or_empty :: "json \<Rightarrow> json \<Rightarrow> json" where
  "or_empty v dflt = (if truthy v then v else dflt)"

definition memory_of_match :: "json \<Rightarrow> memory_item result" where
  "memory_of_match match =
     rbind (json_get match ''metadata'' JNull) (\<lambda>m.
     let meta = or_empty m (JObj []) in
     rbind (meta_text meta ''session_id'' []) (\<lambda>sid.
     rbind (meta_text meta ''goal'' []) (\<lambda>goal.
     rbind (json_get meta ''quality_score'' (JFloat (Fin 0))) (\<lambda>q.
     rbind (py_float q) (\<lambda>quality.
     rbind (meta_text meta ''content_preview'' []) (\<lambda>preview.
     rbind (meta_text meta ''output_type'' ''mixed'') (\<lambda>output_type.
     Inr \<lparr>mi_session_id = sid, mi_goal = goal, mi_quality_score = quality, mi_content_preview = preview,
          mi_output_type = output_type\<rparr>)))))))"

definition recall_for_user :: "env \<Rightarrow> string \<Rightarrow> string \<Rightarrow> int \<Rightarrow> memory_item list act" where
  "recall_for_user env uid goal top_k =
     abind (acatch
       (abind (memory_embed env goal) (\<lambda>vector.
        abind (vector_query env vector top_k uid quality_write_threshold) (\<lambda>results. aret (Some results))))
       (\<lambda>e. aret None)) (\<lambda>found.
     case found of
       None \<Rightarrow> aret []
     | Some results \<Rightarrow>
         abind (alift (json_get results ''matches'' JNull)) (\<lambda>ms.
         abind (alift (py_iter (or_empty ms (JArr [])))) (\<lambda>matches.
         alift (rmap memory_of_match matches))))"

section \<open>What the index promises\<close>

text \<open>Documented behaviour of a query: at most \<open>k\<close> matches, each with the metadata of a stored vector of
  the namespace that passes the filter on the quality score.\<close>

definition index_law :: "env \<Rightarrow> bool" where
  "index_law env \<longleftrightarrow> (\<forall>n rows v k ns q j. e_vector_query env n rows v k ns q = Inr j \<longrightarrow>
     (\<exists>d ms. j = JObj d \<and> dget d ''matches'' = Some (JArr (map JObj ms)) \<and> length ms \<le> nat k
        \<and> (\<forall>m \<in> set ms. \<exists>row \<in> set rows. \<exists>x. ve_namespace row = ns
             \<and> dget m ''metadata'' = Some (JObj (ve_metadata row))
             \<and> dget (ve_metadata row) ''quality_score'' = Some (JFloat x) \<and> flt_le q x)))"

text \<open>The shape of every vector this program writes.\<close>

definition row_ok :: "vector_row \<Rightarrow> bool" where
  "row_ok row \<longleftrightarrow> (\<exists>t g ty q p. ve_metadata row = memory_metadata (ve_id row) (ve_namespace row) t g ty q p
     \<and> length g \<le> 500 \<and> length p \<le> 300 \<and> \<not> flt_less q quality_write_threshold)"

definition vectors_ok :: "vector_row list \<Rightarrow> bool" where
  "vectors_ok rows \<longleftrightarrow> (\<forall>row \<in> set rows. row_ok row)
     \<and> distinct (map (\<lambda>r. (ve_namespace r, ve_id r)) rows)"

definition vectors_kept :: "world \<Rightarrow> world \<Rightarrow> bool" where
  "vectors_kept w w' \<longleftrightarrow> w_vectors w' = w_vectors w"

interpretation vec_frame: world_order vectors_kept
  by unfold_locales (simp_all add: vectors_kept_def)

lemma vectors_keptD: "act_keeps vectors_kept m \<Longrightarrow> m w = (r, w') \<Longrightarrow> w_vectors w' = w_vectors w"
  by (metis act_keeps_def vectors_kept_def snd_conv)

lemma vectors_redis: "act_keeps vectors_kept (redis_get env k)" "act_keeps vectors_kept (redis_set env k s ttl)"
  by (auto simp: act_keeps_def vectors_kept_def redis_get_def redis_set_def redis_cmd_def split: option.splits sum.splits)

lemma vectors_oracle: "act_keeps vectors_kept (embedding_call env t)" "act_keeps vectors_kept (vector_query env v k ns q)"
  by (simp_all add: act_keeps_def vectors_kept_def embedding_call_def vector_query_def)

lemma vectors_fetch: "act_keeps vectors_kept (memory_fetch env t)"
  unfolding memory_fetch_def
  by (intro vec_frame.keeps_abind vec_frame.keeps_acatch vec_frame.keeps_aret vectors_redis vectors_oracle)

lemma vectors_embed: "act_keeps vectors_kept (memory_embed env t)"
proof -
  have "act_keeps vectors_kept (abind (redis_get env (embed_key env t)) (\<lambda>cached.
        case cached of
          Some (c # cs) \<Rightarrow> abind (alift (loads (c # cs))) (\<lambda>v. aret (Some v))
        | _ \<Rightarrow> aret None))"
    by (intro vec_frame.keeps_abind vectors_redis) (auto split: option.split list.split)
  moreover have "act_keeps vectors_kept (case hit of Some v \<Rightarrow> aret v | None \<Rightarrow> memory_fetch env t)" for hit
    by (cases hit) (auto intro: vectors_fetch)
  ultimately show ?thesis unfolding memory_embed_def
    by (intro vec_frame.keeps_abind [OF vec_frame.keeps_acatch]) auto
qed

lemma store_cases:
  assumes "store_if_good env st output w = (r, w')"
  shows "r = Inr () \<and> (w_vectors w' = w_vectors w \<or>
    (\<exists>v t. let row = \<lparr>ve_namespace = or_else (fs_user_id st) [], ve_id = or_else (fs_session_id st) [], ve_values = v,
         ve_metadata = memory_metadata (or_else (fs_session_id st) []) (or_else (fs_user_id st) []) t
           (take 500 (or_else (fs_user_goal st) [])) (classify_output_type output)
           (or_else (fs_quality_score st) (Fin 0)) (take 300 output)\<rparr>
       in w_vectors w' = filter (\<lambda>r. \<not> same_vector row r) (w_vectors w) @ [row]
          \<and> \<not> flt_less (or_else (fs_quality_score st) (Fin 0)) quality_write_threshold))"
proof (cases "flt_less (or_else (fs_quality_score st) (Fin 0)) quality_write_threshold")
  case True
  with assms show ?thesis by (simp add: store_if_good_def Let_def)
next
  case False
  let ?text = "take 500 (or_else (fs_user_goal st) []) @ nl @ nl @ take 2000 output"
  obtain e w1 where emb: "memory_embed env ?text w = (e, w1)" by (cases "memory_embed env ?text w")
  have vec: "w_vectors w1 = w_vectors w" using vectors_keptD [OF vectors_embed emb] .
  show ?thesis
  proof (cases e)
    case (Inl x)
    with False assms emb vec show ?thesis by (simp add: store_if_good_def Let_def)
  next
    case (Inr v)
    with False assms emb vec show ?thesis
      by (auto simp: store_if_good_def Let_def upsert_def acatch_def split: option.splits)
  qed
qed

lemma store_keeps_ok:
  assumes "vectors_ok (w_vectors w)" "store_if_good env st output w = (r, w')"
  shows "vectors_ok (w_vectors w')"
proof -
  let ?q = "or_else (fs_quality_score st) (Fin 0)"
  let ?row = "\<lambda>v t. \<lparr>ve_namespace = or_else (fs_user_id st) [], ve_id = or_else (fs_session_id st) [], ve_values = v,
         ve_metadata = memory_metadata (or_else (fs_session_id st) []) (or_else (fs_user_id st) []) t
           (take 500 (or_else (fs_user_goal st) [])) (classify_output_type output) ?q (take 300 output)\<rparr>"
  have ok: "row_ok (?row v t)" if "\<not> flt_less ?q quality_write_threshold" for v t
    unfolding row_ok_def
    by (intro exI [of _ t] exI [of _ "take 500 (or_else (fs_user_goal st) [])"] exI [of _ "classify_output_type output"]
        exI [of _ ?q] exI [of _ "take 300 output"]) (simp add: that)
  from store_cases [OF assms(2)] show ?thesis
  proof (elim conjE disjE exE)
    assume "w_vectors w' = w_vectors w"
    with assms(1) show ?thesis by simp
  next
    fix v t
    assume "let row = ?row v t in w_vectors w' = filter (\<lambda>r. \<not> same_vector row r) (w_vectors w) @ [row]
        \<and> \<not> flt_less ?q quality_write_threshold"
    then have w': "w_vectors w' = filter (\<lambda>r. \<not> same_vector (?row v t) r) (w_vectors w) @ [?row v t]"
      and q: "\<not> flt_less ?q quality_write_threshold" by (simp_all add: Let_def)
    have "distinct (map (\<lambda>r. (ve_namespace r, ve_id r)) (w_vectors w'))"
      using assms(1) unfolding w' by (auto simp: vectors_ok_def same_vector_def distinct_map_filter)
    with assms(1) ok [OF q] show ?thesis unfolding vectors_ok_def w' by auto
  qed
qed

text \<open>What a match with a row's metadata becomes.\<close>

lemma match_of_row:
  assumes "row_ok row" "dget m ''metadata'' = Some (JObj (ve_metadata row))"
    "dget (ve_metadata row) ''quality_score'' = Some (JFloat x)" "memory_of_match (JObj m) = Inr item"
  shows "mi_session_id item = ve_id row \<and> mi_quality_score item = x \<and> length (mi_goal item) \<le> 500
    \<and> length (mi_content_preview item) \<le> 300"
proof -
  from assms(1) obtain t g ty q p where meta: "ve_metadata row = memory_metadata (ve_id row) (ve_namespace row) t g ty q p"
    "length g \<le> 500" "length p \<le> 300" by (auto simp: row_ok_def)
  with assms(3) have q: "q = x" by (simp add: memory_metadata_def)
  have "truthy (JObj (ve_metadata row))" by (simp add: meta(1) memory_metadata_def)
  with assms(2,4) meta(1) have "item = \<lparr>mi_session_id = ve_id row, mi_goal = g, mi_quality_score = q,
      mi_content_preview = p, mi_output_type = ty\<rparr>"
    by (simp add: memory_of_match_def json_get_def dget_or_def or_empty_def meta_text_def memory_metadata_def)
  with meta(2,3) q show ?thesis by simp
qed

section \<open>The cache of embeddings\<close>

text \<open>A cached vector is read back by both modules that embed texts, since what \<open>dumps\<close> wrote \<open>loads\<close> reads.\<close>

lemma dumps_nonempty: "storable j \<Longrightarrow> \<exists>c s. dumps default_opts j = c # s"
  using storable_reads_back [OF default_opts_ok, of j] by (auto simp: reads_back_def)

lemma embed_hit:
  assumes "e_redis_error env (w_tick w) = None" "storable v"
    "db_get (now env w) (embed_key env text) (w_redis w) = Inr (Some (dumps default_opts v))"
  shows "memory_embed env text w = (Inr v, tick w)" "embed env text w = (Inr v, tick w)"
proof -
  from dumps_nonempty [OF assms(2)] obtain c s where d: "dumps default_opts v = c # s" by blast
  have l: "loads (c # s) = Inr v" using loads_dumps [OF default_opts_ok assms(2)] by (simp add: d)
  have g: "redis_get env (embed_key env text) w = (Inr (Some (c # s)), tick w)"
    using assms by (simp add: redis_get_def redis_cmd_def d)
  show "memory_embed env text w = (Inr v, tick w)" by (simp add: memory_embed_def acatch_def g l)
  show "embed env text w = (Inr v, tick w)" by (simp add: embed_def Let_def g l)
qed

lemma embed_miss:
  assumes "\<forall>n. e_redis_error env n = None" "db_get (now env w) (embed_key env text) (w_redis w) = Inr None"
  shows "memory_embed env text w = memory_fetch env text (tick w)"
    "embed env text w = abind (embedding_call env (take 8000 text)) (\<lambda>vector.
       abind (redis_set env (embed_key env text) (dumps default_opts vector) (Some embed_ttl)) (\<lambda>_. aret vector)) (tick w)"
proof -
  have g: "redis_get env (embed_key env text) w = (Inr None, tick w)"
    using assms by (simp add: redis_get_def redis_cmd_def)
  show "memory_embed env text w = memory_fetch env text (tick w)" by (simp add: memory_embed_def acatch_def g)
  show "embed env text w = abind (embedding_call env (take 8000 text)) (\<lambda>vector.
       abind (redis_set env (embed_key env text) (dumps default_opts vector) (Some embed_ttl)) (\<lambda>_. aret vector)) (tick w)"
    unfolding embed_def Let_def by (subst abind_step(1) [where m = "redis_get env (embed_key env text)", OF g]) simp
qed

lemma embed_ttls: "embed_cache_ttl = 604800" "embed_ttl = 604800"
  by (simp_all add: embed_cache_ttl_def embed_ttl_def)

text \<open>What was fetched stays in the cache under the time of the write.\<close>

lemma fetched_stored:
  assumes up: "\<forall>n. e_redis_error env n = None" and asked: "asked \<in> {memory_embed env text, embed env text}"
    and miss: "db_get (now env w) (embed_key env text) (w_redis w) = Inr None" and run: "asked w = (Inr v, w1)"
  shows "w_redis w1 = db_set (e_time env (Suc (Suc (w_tick w)))) (embed_key env text) (dumps default_opts v) (Some 604800) (w_redis w)"
proof -
  have set: "redis_set env k s ttl w = (Inr (), tick (w\<lparr>w_redis := db_set (now env w) k s ttl (w_redis w)\<rparr>))" for k s ttl w
    using up by (simp add: redis_set_def redis_cmd_def)
  from asked show ?thesis
    using run embed_miss [OF up miss]
    by (auto simp: memory_fetch_def embedding_call_def abind_Inr set acatch_def embed_ttls now_def split: sum.splits)
qed

section \<open>Properties\<close>

text \<open>C23: Storing never raises, and writes only what it should. The index is left alone unless the final
  quality is at least 0.70; then at most one vector is written, with the session's id in the
  user's namespace, replacing an older one of the same session; the stored goal is cut to 500
  characters and the preview to 300. The invariant of the index is kept.\<close>

theorem store_if_good_outcome:
  assumes "store_if_good env st output w = (r, w')"
  shows "r = Inr () \<and> (vectors_ok (w_vectors w) \<longrightarrow> vectors_ok (w_vectors w'))
    \<and> (flt_less (or_else (fs_quality_score st) (Fin 0)) quality_write_threshold \<longrightarrow> w_vectors w' = w_vectors w)
    \<and> (\<forall>row. (ve_namespace row, ve_id row) \<noteq> (or_else (fs_user_id st) [], or_else (fs_session_id st) []) \<longrightarrow>
         row \<in> set (w_vectors w') \<longleftrightarrow> row \<in> set (w_vectors w))"
  using store_cases [OF assms] store_keeps_ok [OF _ assms]
  by (auto simp: Let_def same_vector_def)

definition good_state :: final_state where
  "good_state = \<lparr>fs_quality_score = Some (Fin 1), fs_session_id = Some ''s'', fs_user_id = Some ''u'', fs_user_goal = Some ''g'',
     fs_execution_output = Some [], fs_iteration_count = Some 1, fs_disclaimer = None\<rparr>"

theorem store_if_good_outcome_witness:
  "fst (store_if_good (calm_env (\<lambda>n p. Inr JNull)) good_state ''out'' fresh_world) = Inr ()
   \<and> vectors_ok (w_vectors (snd (store_if_good (calm_env (\<lambda>n p. Inr JNull)) good_state ''out'' fresh_world)))"
proof -
  obtain r w' where m: "store_if_good (calm_env (\<lambda>n p. Inr JNull)) good_state ''out'' fresh_world = (r, w')" by fastforce
  have "vectors_ok (w_vectors fresh_world)" by (simp add: vectors_ok_def fresh_world_def)
  with store_if_good_outcome [OF m] m show ?thesis by simp
qed

text \<open>C24: Recall stays within the user. On an index this program has written, every item recalled for a user
  is a session stored in that user's namespace with a quality of at least 0.70, its goal is at
  most 500 characters long and its preview at most 300, and there are no more items than asked
  for.\<close>

theorem recall_within_user:
  assumes "index_law env" "vectors_ok (w_vectors w)" "recall_for_user env uid goal top_k w = (Inr items, w')"
  shows "length items \<le> nat top_k \<and> (\<forall>item \<in> set items. \<exists>row \<in> set (w_vectors w). ve_namespace row = uid
    \<and> mi_session_id item = ve_id row \<and> flt_le quality_write_threshold (mi_quality_score item)
    \<and> length (mi_goal item) \<le> 500 \<and> length (mi_content_preview item) \<le> 300)"
proof -
  obtain e w1 where emb: "memory_embed env goal w = (e, w1)" by (cases "memory_embed env goal w")
  have vec: "w_vectors w1 = w_vectors w" using vectors_keptD [OF vectors_embed emb] .
  show ?thesis
  proof (cases e)
    case (Inl x)
    with emb assms(3) show ?thesis by (simp add: recall_for_user_def)
  next
    case (Inr v)
    show ?thesis
    proof (cases "e_vector_query env (w_tick w1) (w_vectors w) v top_k uid quality_write_threshold")
      case (Inl x)
      with Inr emb vec assms(3) show ?thesis
        by (simp add: recall_for_user_def vector_query_def acatch_def abind_def)
    next
      case j: (Inr j)
      from assms(1) [unfolded index_law_def, rule_format, OF j] obtain d ms where
        d: "j = JObj d" "dget d ''matches'' = Some (JArr (map JObj ms))" "length ms \<le> nat top_k"
        and ms: "\<And>m. m \<in> set ms \<Longrightarrow> \<exists>row \<in> set (w_vectors w). \<exists>x. ve_namespace row = uid
             \<and> dget m ''metadata'' = Some (JObj (ve_metadata row))
             \<and> dget (ve_metadata row) ''quality_score'' = Some (JFloat x) \<and> flt_le quality_write_threshold x" by blast
      have it: "py_iter (or_empty (JArr (map JObj ms)) (JArr [])) = Inr (map JObj ms)"
        by (simp add: or_empty_def)
      with Inr j d emb vec assms(3) have items: "rmap memory_of_match (map JObj ms) = Inr items"
        by (simp add: recall_for_user_def vector_query_def acatch_def abind_def json_get_def dget_or_def)
      then have rel: "list_all2 (\<lambda>x y. memory_of_match x = Inr y) (map JObj ms) items" by (simp add: rmap_eq_Inr)
      have "\<exists>row \<in> set (w_vectors w). ve_namespace row = uid
          \<and> mi_session_id item = ve_id row \<and> flt_le quality_write_threshold (mi_quality_score item)
          \<and> length (mi_goal item) \<le> 500 \<and> length (mi_content_preview item) \<le> 300" if "item \<in> set items" for item
      proof -
        from that obtain i where i: "i < length items" "item = items ! i" by (auto simp: in_set_conv_nth)
        with rel have "i < length ms" "memory_of_match (JObj (ms ! i)) = Inr item"
          by (auto simp: list_all2_conv_all_nth)
        then obtain m where m: "m \<in> set ms" "memory_of_match (JObj m) = Inr item" by (metis nth_mem)
        from ms [OF m(1)] assms(2) match_of_row [OF _ _ _ m(2)] show ?thesis by (fastforce simp: vectors_ok_def)
      qed
      with rel d(3) show ?thesis by (auto dest: list_all2_lengthD)
    qed
  qed
qed

text \<open>The binary64 number nearest to 0.70.\<close>

lemma quality_write_threshold_value: "quality_write_threshold = Fin (6305039478318694 / 9007199254740992)"
proof -
  have "expo 2 (7 / 10) = -1" by (rule expo_eq) (simp_all add: power_int_minus)
  then have q: "qexp (7 / 10) = -53" by (simp add: qexp_def)
  have f: "\<lfloor>31525197391593472 / 5 :: rat\<rfloor> = 6305039478318694" by (simp add: floor_eq_iff)
  have "rhe ((7 / 10) / 2 powi (-53)) = 6305039478318694"
    by (simp add: rhe_def power_int_minus Let_def f)
  then have "fl (7 / 10) = 6305039478318694 / 9007199254740992"
    unfolding fl_def fl_pos_def q by (simp add: power_int_minus)
  then show ?thesis by (simp add: quality_write_threshold_def mk_float_def)
qed

text \<open>An index that returns the newest vectors of the namespace that pass the filter.\<close>

definition passes :: "pyfloat \<Rightarrow> vector_row \<Rightarrow> bool" where
  "passes q r = (case dget (ve_metadata r) ''quality_score'' of Some (JFloat x) \<Rightarrow> flt_le q x | _ \<Rightarrow> False)"

definition plain_index :: "nat \<Rightarrow> vector_row list \<Rightarrow> json \<Rightarrow> int \<Rightarrow> string \<Rightarrow> pyfloat \<Rightarrow> json result" where
  "plain_index n rows v k ns q = Inr (JObj [(''matches'', JArr (map JObj (map (\<lambda>r. [(''metadata'', JObj (ve_metadata r))])
     (take (nat k) (filter (\<lambda>r. ve_namespace r = ns \<and> passes q r) rows)))))])"

definition index_env :: env where
  "index_env = (calm_env (\<lambda>n p. Inr JNull))\<lparr>e_vector_query := plain_index\<rparr>"

lemma index_env_law: "index_law index_env"
  unfolding index_law_def
proof (intro allI impI)
  fix n rows v k ns q j
  let ?rs = "take (nat k) (filter (\<lambda>r. ve_namespace r = ns \<and> passes q r) rows)"
  let ?ms = "map (\<lambda>r. [(''metadata'', JObj (ve_metadata r))]) ?rs"
  assume "e_vector_query index_env n rows v k ns q = Inr j"
  then have j: "j = JObj [(''matches'', JArr (map JObj ?ms))]" by (simp add: index_env_def plain_index_def)
  have "\<exists>row \<in> set rows. \<exists>x. ve_namespace row = ns \<and> dget m ''metadata'' = Some (JObj (ve_metadata row))
      \<and> dget (ve_metadata row) ''quality_score'' = Some (JFloat x) \<and> flt_le q x" if "m \<in> set ?ms" for m
  proof -
    from that obtain r where r: "r \<in> set ?rs" "m = [(''metadata'', JObj (ve_metadata r))]" by auto
    from in_set_takeD [OF r(1)] have "r \<in> set rows" "ve_namespace r = ns" "passes q r" by simp_all
    with r(2) show ?thesis by (auto simp: passes_def split: option.splits json.splits)
  qed
  then show "\<exists>d ms. j = JObj d \<and> dget d ''matches'' = Some (JArr (map JObj ms)) \<and> length ms \<le> nat k
        \<and> (\<forall>m \<in> set ms. \<exists>row \<in> set rows. \<exists>x. ve_namespace row = ns
             \<and> dget m ''metadata'' = Some (JObj (ve_metadata row))
             \<and> dget (ve_metadata row) ''quality_score'' = Some (JFloat x) \<and> flt_le q x)"
    by (intro exI [of _ "[(''matches'', JArr (map JObj ?ms))]"] exI [of _ ?ms]) (simp add: j)
qed

definition stored_row :: vector_row where
  "stored_row = \<lparr>ve_namespace = ''u'', ve_id = ''s'', ve_values = JArr [JInt 1],
     ve_metadata = memory_metadata ''s'' ''u'' 0 ''goal'' ''mixed'' (Fin 1) ''preview''\<rparr>"

theorem recall_within_user_witness:
  "\<exists>items w'. recall_for_user index_env ''u'' ''g'' 5 (fresh_world\<lparr>w_vectors := [stored_row]\<rparr>) = (Inr items, w')
     \<and> items \<noteq> [] \<and> (\<forall>item \<in> set items. mi_session_id item = ''s'')"
proof -
  let ?w = "fresh_world\<lparr>w_vectors := [stored_row]\<rparr>"
  let ?item = "\<lparr>mi_session_id = ''s'', mi_goal = ''goal'', mi_quality_score = Fin 1, mi_content_preview = ''preview'',
      mi_output_type = ''mixed''\<rparr>"
  have "fst (memory_embed index_env ''g'' ?w) = Inr (JArr [JInt 1])" by code_simp
  then obtain w1 where emb: "memory_embed index_env ''g'' ?w = (Inr (JArr [JInt 1]), w1)" by (metis prod.collapse)
  then have v: "w_vectors w1 = [stored_row]" using vectors_keptD [OF vectors_embed emb] by simp
  have "passes quality_write_threshold stored_row"
    by (simp add: passes_def stored_row_def memory_metadata_def quality_write_threshold_value)
  with emb v have r: "recall_for_user index_env ''u'' ''g'' 5 ?w = (Inr [?item], tick w1)"
    by (simp add: recall_for_user_def vector_query_def index_env_def plain_index_def acatch_def abind_def json_get_def
        dget_or_def or_empty_def stored_row_def memory_of_match_def meta_text_def memory_metadata_def)
  have "row_ok stored_row" unfolding row_ok_def
    by (intro exI [of _ 0] exI [of _ "''goal''"] exI [of _ "''mixed''"] exI [of _ "Fin 1"] exI [of _ "''preview''"])
       (simp add: stored_row_def quality_write_threshold_value)
  then have "vectors_ok (w_vectors ?w)" by (simp add: vectors_ok_def)
  from recall_within_user [OF index_env_law this r] r show ?thesis
    by (intro exI [of _ "[?item]"] exI [of _ "tick w1"] conjI ballI) (auto simp: stored_row_def)
qed

text \<open>C25: Embeddings are remembered exactly. While Redis answers, the vector fetched for a text by either
  module that embeds texts is, for a week from the write and while nothing else writes to the key,
  what both modules get for that text, in one command and without asking the service; after that
  week the service is asked again. The vector is the same to the last bit, although it went
  through decimal text.\<close>

theorem embedding_remembered:
  assumes "\<forall>n. e_redis_error env n = None" "asked \<in> {memory_embed env text, embed env text}"
    and "db_get (now env w) (embed_key env text) (w_redis w) = Inr None" "asked w = (Inr v, w1)" "storable v"
    and "w_redis w2 (embed_key env text) = w_redis w1 (embed_key env text)"
  defines "expiry \<equiv> e_time env (Suc (Suc (w_tick w))) + 7 * 24 * 3600"
  shows "(now env w2 < expiry \<longrightarrow> memory_embed env text w2 = (Inr v, tick w2) \<and> embed env text w2 = (Inr v, tick w2))
    \<and> (expiry \<le> now env w2 \<longrightarrow> fst (memory_embed env text w2) = e_embedding env (Suc (w_tick w2)) text)"
proof -
  let ?k = "embed_key env text"
  have "db_get t ?k (w_redis w2) = db_get t ?k (w_redis w1)" for t using assms(6) by (simp add: db_get_def)
  then have cached: "db_get t ?k (w_redis w2) = db_get t ?k (db_set (expiry - 604800) ?k (dumps default_opts v) (Some 604800) (w_redis w))" for t
    using fetched_stored [OF assms(1-4)] by (simp add: expiry_def)
  show ?thesis
  proof (intro conjI impI)
    assume "now env w2 < expiry"
    then have "db_get (now env w2) ?k (w_redis w2) = Inr (Some (dumps default_opts v))"
      unfolding cached by (intro redis.get_set_live) simp
    with assms(1,5) show "memory_embed env text w2 = (Inr v, tick w2)" "embed env text w2 = (Inr v, tick w2)"
      by (simp_all add: embed_hit)
  next
    assume "expiry \<le> now env w2"
    then have "db_get (now env w2) ?k (w_redis w2) = Inr None" unfolding cached by (intro redis.get_set_expired) simp
    with assms(1) show "fst (memory_embed env text w2) = e_embedding env (Suc (w_tick w2)) text"
      by (simp add: embed_miss memory_fetch_def embedding_call_def redis_set_def redis_cmd_def acatch_def abind_def split: sum.split)
  qed
qed

text \<open>A service that answers otherwise each time.\<close>

definition vector_env :: env where
  "vector_env = (calm_env (\<lambda>n p. Inr JNull))\<lparr>e_embedding := \<lambda>n t. Inr (JArr [JFloat (Fin (1 / 2 ^ n))])\<rparr>"

theorem embedding_remembered_witness:
  "\<exists>v w1. memory_embed vector_env ''t'' fresh_world = (Inr v, w1) \<and> embed vector_env ''t'' w1 = (Inr v, tick w1)
     \<and> fst (embedding_call vector_env ''t'' w1) \<noteq> Inr v"
proof -
  let ?v = "JArr [JFloat (Fin (1 / 2))]"
  have up: "\<forall>n. e_redis_error vector_env n = None" by (simp add: vector_env_def)
  have miss: "db_get (now vector_env fresh_world) (embed_key vector_env ''t'') (w_redis fresh_world) = Inr None"
    by (simp add: db_get_def fresh_world_def)
  obtain r w1 where run: "memory_embed vector_env ''t'' fresh_world = (r, w1)" by fastforce
  have "r = Inr ?v \<and> w_tick w1 = 3"
    using run [unfolded embed_miss(1) [OF up miss]]
    by (auto simp: memory_fetch_def embedding_call_def redis_set_def redis_cmd_def acatch_def abind_def vector_env_def fresh_world_def)
  then have r: "memory_embed vector_env ''t'' fresh_world = (Inr ?v, w1)" "w_tick w1 = 3" using run by simp_all
  have "fl (1 / 2) = 1 / 2" by (rule fl_exact [of _ 1 "-1"]) simp_all
  then have v: "storable ?v" by simp
  have "now vector_env w1 < e_time vector_env (Suc (Suc (w_tick fresh_world))) + 7 * 24 * 3600"
    using r(2) by (simp add: now_def vector_env_def calm_env_def fresh_world_def)
  with embedding_remembered [of vector_env "memory_embed vector_env ''t''" "''t''" fresh_world ?v w1 w1, OF up _ miss r(1) v refl] have "embed vector_env ''t'' w1 = (Inr ?v, tick w1)" by simp
  moreover have "fst (embedding_call vector_env ''t'' w1) \<noteq> Inr ?v" by (simp add: embedding_call_def vector_env_def r(2))
  ultimately show ?thesis using r(1) by blast
qed

end
