(* ===== verification/WsRun.thy ===== *)
theory WsRun
  imports Graph Sessions Memory
begin

text \<open>
  The web socket that runs a session (\<open>backend/api/ws/run.py\<close>): the handshake, the loop over the
  client's frames, and the tasks it starts, which run the graph beside it. A task is a small-step
  machine: one step begins the run, runs one node with its frames, or ends the run. Such a step
  spans several awaits of the code but makes at most one statement on the database, and what
  else it awaits leaves the database alone, so the steps are coarser than the code's only in
  where a frame of the loop falls among the task's. The loop and the tasks interleave as a step
  relation. Frames handed to the socket are recorded in order; a failed send changes nothing,
  as the code suppresses it.
\<close>

section \<open>Frames\<close>

definition agent_nodes :: "node list" where
  "agent_nodes = [PlannerN, ResearcherN, ExecutorN, VerifierN, ReflectorN]"

fun node_name :: "node \<Rightarrow> string" where
  "node_name PlannerN = ''planner''"
| "node_name ResearcherN = ''researcher''"
| "node_name ExecutorN = ''executor''"
| "node_name VerifierN = ''verifier''"
| "node_name ReflectorN = ''reflector''"
| "node_name OutputN = ''output''"

definition send_frame :: "json dict \<Rightarrow> unit act" where
  "send_frame frame = (\<lambda>w. (Inr (), w\<lparr>w_frames := w_frames w @ [frame]\<rparr>))"

definition now_iso :: "env \<Rightarrow> string act" where
  "now_iso env = (\<lambda>w. (Inr (e_isoformat env (now env w)), tick w))"

definition error_frame :: "string \<Rightarrow> string \<Rightarrow> json dict" where
  "error_frame err_code message =
     [(''type'', JStr ''error''), (''code'', JStr err_code), (''message'', JStr message), (''agent'', JNull)]"

text \<open>What the stream reports when a node starts and when it ends.\<close>

definition on_node_start :: "env \<Rightarrow> node \<Rightarrow> int \<Rightarrow> unit act" where
  "on_node_start env n iter =
     (if n \<in> set agent_nodes
      then abind (now_iso env) (\<lambda>ts.
           send_frame [(''type'', JStr ''agent_start''), (''agent'', JStr (node_name n)), (''iteration'', JInt iter),
             (''ts'', JStr ts)])
      else aret ())"

text \<open>The reflector's update has no dimension scores and the planner's no feedback, so the breakdown is
  empty and so is the feedback.\<close>

definition on_node_end :: "env \<Rightarrow> node \<Rightarrow> state_update \<Rightarrow> int \<Rightarrow> unit act" where
  "on_node_end env n output iter =
     (if n \<in> set agent_nodes
      then abind
        (if n = ReflectorN
         then send_frame [(''type'', JStr ''quality_score''),
                (''score'', JFloat (or_else (u_quality_score output) (Fin 0))),
                (''iteration'', JInt iter), (''breakdown'', JObj [])]
         else if n = PlannerN \<and> 1 < iter
         then send_frame [(''type'', JStr ''replan''), (''iteration'', JInt iter),
                (''feedback'', JStr (take 200 (or_else (u_reflection_feedback output) [])))]
         else aret ()) (\<lambda>_.
        abind (now_iso env) (\<lambda>ts.
        send_frame [(''type'', JStr ''agent_complete''), (''agent'', JStr (node_name n)),
          (''output_preview'', JStr []), (''ts'', JStr ts)]))
      else aret ())"

section \<open>The task that runs the graph\<close>

datatype task =
    Spawned json
  | AtNode nat node nexus_state int
  | Finalising state_update
  | FailedWith pyexn
  | Ended

text \<open>The runtime's error when its limit on super-steps is reached.\<close>

definition recursion_error :: pyexn where
  "recursion_error = Exn RuntimeError
     ''Recursion limit of 25 reached without hitting a stop condition.''"

definition pg_set_status :: "env \<Rightarrow> uuid \<Rightarrow> string \<Rightarrow> string act" where
  "pg_set_status env sid st = pg_update_sessions env (\<lambda>t s. se_id s = sid) (\<lambda>t. set_status st)"

text \<open>
  A start frame may name a goal that is not a string. Its text then stands in every message, but
  recalling memory for it fails where the text is hashed, as only strings can be encoded.
\<close>

definition recall_goal :: "env \<Rightarrow> string \<Rightarrow> json \<Rightarrow> memory_item list act" where
  "recall_goal env uid goal = (case goal of
       JStr query \<Rightarrow> recall_for_user env uid query 5
     | v \<Rightarrow> aret [])"

definition begin_run :: "env \<Rightarrow> string \<Rightarrow> string \<Rightarrow> json \<Rightarrow> task act" where
  "begin_run env sid uid goal =
     abind (get_pool env) (\<lambda>_.
     abind (alift (uuid_of sid)) (\<lambda>i.
     abind (pg_set_status env i ''running'') (\<lambda>_.
     abind (acatch (recall_goal env uid goal) (\<lambda>e. aret [])) (\<lambda>mem.
     aret (AtNode recursion_limit PlannerN (initial_state (py_str goal) sid uid mem) 0)))))"

definition iter_at :: "node \<Rightarrow> int \<Rightarrow> int" where
  "iter_at n iter = (if n = PlannerN then iter + 1 else iter)"

definition node_step :: "env \<Rightarrow> nat \<Rightarrow> node \<Rightarrow> nexus_state \<Rightarrow> int \<Rightarrow> task act" where
  "node_step env left n st iter =
     (let iter1 = iter_at n iter in
      abind (on_node_start env n iter1) (\<lambda>_. \<lambda>w.
      case run_node (nexus_agents env) n st w of
        (Inl e, w1) \<Rightarrow> (Inr (FailedWith e), w1)
      | (Inr u, w1) \<Rightarrow>
          abind (on_node_end env n u iter1) (\<lambda>_.
          let st1 = merge_update st u in
          case next_node n st1 of
            None \<Rightarrow> aret (Finalising u)
          | Some n1 \<Rightarrow> aret (AtNode left n1 st1 iter1)) w1))"

definition fail_run :: "env \<Rightarrow> string \<Rightarrow> pyexn \<Rightarrow> task act" where
  "fail_run env sid e =
     abind (send_frame (error_frame ''graph_error'' (take 300 (exn_str e)))) (\<lambda>_.
     abind (alift (uuid_of sid)) (\<lambda>i.
     abind (pg_set_status env i ''failed'') (\<lambda>_.
     aret Ended)))"

text \<open>The final state is what the output node returned: the keys it does not set are missing.\<close>

definition final_of_update :: "state_update \<Rightarrow> final_state" where
  "final_of_update u = \<lparr>fs_quality_score = u_quality_score u, fs_session_id = None, fs_user_id = None,
     fs_user_goal = None, fs_execution_output = u_execution_output u, fs_iteration_count = u_iteration_count u,
     fs_disclaimer = u_disclaimer u\<rparr>"

definition disclaimer_json :: "string option \<Rightarrow> json" where
  "disclaimer_json d = (case d of None \<Rightarrow> JNull | Some s \<Rightarrow> JStr s)"

definition output_json :: "final_state \<Rightarrow> json" where
  "output_json fs = JObj (map (\<lambda>(k, v). (k, JStr v)) (or_else (fs_execution_output fs) []))"

definition complete_row :: "pyfloat \<Rightarrow> string \<Rightarrow> int \<Rightarrow> int \<Rightarrow> session_row \<Rightarrow> session_row" where
  "complete_row quality output iters t s = s\<lparr>se_status := ''completed'', se_final_quality := Some quality,
     se_final_output := Some output, se_iteration_count := iters, se_completed_at := Some t\<rparr>"

definition finish_run :: "env \<Rightarrow> string \<Rightarrow> state_update \<Rightarrow> task act" where
  "finish_run env sid u =
     (let fs = final_of_update u;
          quality = or_else (fs_quality_score fs) (Fin 0);
          disc = disclaimer_json (fs_disclaimer fs);
          iter_count = or_else (fs_iteration_count fs) 0
      in abind (alift (uuid_of sid)) (\<lambda>i.
         abind (pg_update_sessions env (\<lambda>t s. se_id s = i)
                  (\<lambda>t. complete_row quality (dumps default_opts (JObj [(''disclaimer'', disc)])) iter_count t)) (\<lambda>_.
         abind (acatch (if u \<noteq> no_update then store_if_good env fs (dumps default_opts (output_json fs)) else aret ())
                  (\<lambda>e. aret ())) (\<lambda>_.
         abind (send_frame [(''type'', JStr ''done''), (''output'', output_json fs), (''citations'', JArr []),
                  (''final_score'', JFloat quality), (''disclaimer'', disc)]) (\<lambda>_.
         aret Ended)))))"

definition task_step :: "env \<Rightarrow> string \<Rightarrow> string \<Rightarrow> task \<Rightarrow> task act" where
  "task_step env sid uid t = (case t of
       Spawned goal \<Rightarrow> begin_run env sid uid goal
     | AtNode 0 n st iter \<Rightarrow> aret (FailedWith recursion_error)
     | AtNode (Suc left) n st iter \<Rightarrow> node_step env left n st iter
     | Finalising u \<Rightarrow> finish_run env sid u
     | FailedWith e \<Rightarrow> fail_run env sid e
     | Ended \<Rightarrow> aret Ended)"

text \<open>The task alone, for a number of steps.\<close>

fun run_task :: "env \<Rightarrow> string \<Rightarrow> string \<Rightarrow> nat \<Rightarrow> task \<Rightarrow> task act" where
  "run_task env sid uid 0 t = aret t"
| "run_task env sid uid (Suc k) t = abind (task_step env sid uid t) (run_task env sid uid k)"

section \<open>The handshake and the client's frames\<close>

record connection =
  cn_session_id :: string
  cn_user_id :: string
  cn_goal :: json
  cn_started :: bool
  cn_open :: bool

text \<open>\<open>payload["sub"]\<close> may be missing; a refused handshake closes the socket with code 1008.\<close>

definition ws_connect :: "env \<Rightarrow> string \<Rightarrow> string \<Rightarrow> connection option act" where
  "ws_connect env sid token = (\<lambda>w. case decode_token env token w of
       (Inl e, w1) \<Rightarrow> if exn_class e = JWTError then (Inr None, w1) else (Inl e, w1)
     | (Inr payload, w1) \<Rightarrow> (case dget payload ''sub'' of
           None \<Rightarrow> (Inr None, w1)
         | Some uid \<Rightarrow>
             abind (get_pool env) (\<lambda>_.
             abind (alift (uuid_of sid)) (\<lambda>i.
             abind (pg_query env (\<lambda>db. find_session db i)) (\<lambda>row. case row of
               None \<Rightarrow> aret None
             | Some s \<Rightarrow>
                 if JStr (uuid_str (se_user_id s)) \<noteq> uid then aret None
                 else if se_status s \<noteq> ''pending'' then aret None
                 else abind (send_frame [(''type'', JStr ''connected''), (''session_id'', JStr sid)]) (\<lambda>_.
                      aret (Some \<lparr>cn_session_id = sid, cn_user_id = uuid_str (se_user_id s), cn_goal = JStr (se_goal s),
                                  cn_started = False, cn_open = True\<rparr>))))) w1))"

datatype client_event = Received string | Idle | Disconnected

text \<open>A true goal in the frame replaces the stored one.\<close>

definition start_goal :: "json dict \<Rightarrow> json \<Rightarrow> json" where
  "start_goal frame goal = (let g = dget_or frame ''goal'' JNull in if truthy g then g else goal)"

text \<open>What the loop does with a frame; beside the connection it holds the tasks started so far.\<close>

definition handle_frame :: "env \<Rightarrow> connection \<Rightarrow> task list \<Rightarrow> json dict \<Rightarrow> (connection \<times> task list) act" where
  "handle_frame env c ts frame =
     (let frame_type = dget_or frame ''type'' JNull in
      if frame_type = JStr ''ping''
      then abind (send_frame [(''type'', JStr ''pong'')]) (\<lambda>_. aret (c, ts))
      else if frame_type = JStr ''start''
      then (if cn_started c
            then abind (send_frame (error_frame ''already_started'' ''Session already running'')) (\<lambda>_. aret (c, ts))
            else let goal = start_goal frame (cn_goal c)
                 in aret (c\<lparr>cn_started := True, cn_goal := goal\<rparr>, ts @ [Spawned goal]))
      else if frame_type = JStr ''abort''
      then abind (alift (uuid_of (cn_session_id c))) (\<lambda>i.
           abind (pg_set_status env i ''aborted'') (\<lambda>_.
           aret (c\<lparr>cn_open := False\<rparr>, ts)))
      else aret (c, ts))"

text \<open>One turn of the loop: an idle or vanished client and any error end it; the socket is closed.\<close>

definition ws_receive :: "env \<Rightarrow> connection \<Rightarrow> task list \<Rightarrow> client_event \<Rightarrow> (connection \<times> task list) act" where
  "ws_receive env c ts ev = (case ev of
       Idle \<Rightarrow> aret (c\<lparr>cn_open := False\<rparr>, ts)
     | Disconnected \<Rightarrow> aret (c\<lparr>cn_open := False\<rparr>, ts)
     | Received raw \<Rightarrow>
         acatch (abind (alift (loads raw)) (\<lambda>frame. case frame of
                   JObj d \<Rightarrow> handle_frame env c ts d
                 | v \<Rightarrow> alift (Inl (no_attribute v ''get''))))
           (\<lambda>e. aret (c\<lparr>cn_open := False\<rparr>, ts)))"

text \<open>The loop and the tasks interleave; a task whose step raises is over.\<close>

inductive ws_step :: "env \<Rightarrow> connection \<times> task list \<times> world \<Rightarrow> connection \<times> task list \<times> world \<Rightarrow> bool" for env where
  receive: "cn_open c \<Longrightarrow> ws_receive env c ts ev w = (Inr (c', ts'), w') \<Longrightarrow> ws_step env (c, ts, w) (c', ts', w')"
| task: "k < length ts \<Longrightarrow> ts ! k = t \<Longrightarrow> t \<noteq> Ended \<Longrightarrow>
    task_step env (cn_session_id c) (cn_user_id c) t w = (Inr t', w') \<Longrightarrow> ws_step env (c, ts, w) (c, ts[k := t'], w')"
| task_raises: "k < length ts \<Longrightarrow> ts ! k = t \<Longrightarrow> t \<noteq> Ended \<Longrightarrow>
    task_step env (cn_session_id c) (cn_user_id c) t w = (Inl e, w') \<Longrightarrow> ws_step env (c, ts, w) (c, ts[k := Ended], w')"

inductive_cases ws_stepE: "ws_step env (c, ts, w) (c', ts', w')"

section \<open>What the steps leave alone\<close>

text \<open>Only the row of the session with this id may change, and of it neither owner, goal nor the time it was
  made; its status stays one of the five. The audit log and the accounts are as they were.\<close>

definition same_session :: "session_row \<Rightarrow> session_row \<Rightarrow> bool" where
  "same_session s s' \<longleftrightarrow> se_id s' = se_id s \<and> se_user_id s' = se_user_id s \<and> se_goal s' = se_goal s
     \<and> se_created_at s' = se_created_at s \<and> (se_status s' = se_status s \<or> se_status s' \<in> set session_statuses)"

definition only_session :: "uuid \<Rightarrow> world \<Rightarrow> world \<Rightarrow> bool" where
  "only_session i w w' \<longleftrightarrow> db_users (w_db w') = db_users (w_db w) \<and> db_audit (w_db w') = db_audit (w_db w)
     \<and> (\<exists>f. (\<forall>s. same_session s (f s))
          \<and> db_sessions (w_db w') = map (\<lambda>s. if se_id s = i then f s else s) (db_sessions (w_db w)))"

lemma same_session_refl: "same_session s s"
  by (simp add: same_session_def)

lemma same_session_trans: "same_session s s' \<Longrightarrow> same_session s' s'' \<Longrightarrow> same_session s s''"
  by (auto simp: same_session_def)

lemma only_same: "w_db w' = w_db w \<Longrightarrow> only_session i w w'"
  unfolding only_session_def by (intro conjI exI [of _ "\<lambda>s. s"]) (simp_all add: same_session_refl)

lemma only_of_frame: "act_keeps db_kept m \<Longrightarrow> act_keeps (only_session i) m"
  by (simp add: act_keeps_def db_kept_def only_same)

interpretation only: world_order "only_session i" for i
proof
  fix w :: world
  show "only_session i w w" by (simp add: only_same)
next
  fix w w' w'' :: world
  assume "only_session i w w'" "only_session i w' w''"
  then obtain f g where f: "\<forall>s. same_session s (f s)" "db_sessions (w_db w') = map (\<lambda>s. if se_id s = i then f s else s) (db_sessions (w_db w))"
    and g: "\<forall>s. same_session s (g s)" "db_sessions (w_db w'') = map (\<lambda>s. if se_id s = i then g s else s) (db_sessions (w_db w'))"
    and rest: "db_users (w_db w'') = db_users (w_db w)" "db_audit (w_db w'') = db_audit (w_db w)"
    by (auto simp: only_session_def)
  have id: "se_id (f s) = se_id s" for s using f(1) by (simp add: same_session_def)
  have "\<forall>s. same_session s (g (f s))" using f(1) g(1) same_session_trans by blast
  moreover have "db_sessions (w_db w'') = map (\<lambda>s. if se_id s = i then g (f s) else s) (db_sessions (w_db w))"
    by (simp add: f(2) g(2) id)
  ultimately show "only_session i w w''" using rest unfolding only_session_def by (intro conjI exI [of _ "\<lambda>s. g (f s)"]) auto
qed

lemma only_sessionD:
  assumes "only_session i w w'"
  shows "db_ok (w_db w) \<Longrightarrow> db_ok (w_db w')" "j \<noteq> i \<Longrightarrow> find_session (w_db w') j = find_session (w_db w) j"
    "db_users (w_db w') = db_users (w_db w)" "db_audit (w_db w') = db_audit (w_db w)"
    "find_session (w_db w) i = Some s \<Longrightarrow> \<exists>s'. find_session (w_db w') i = Some s' \<and> same_session s s'"
proof -
  from assms obtain f where f: "\<And>s. same_session s (f s)"
    "db_sessions (w_db w') = map (\<lambda>s. if se_id s = i then f s else s) (db_sessions (w_db w))"
    and rest: "db_users (w_db w') = db_users (w_db w)" "db_audit (w_db w') = db_audit (w_db w)"
    by (auto simp: only_session_def)
  have id: "se_id (f s) = se_id s" for s using f(1) by (simp add: same_session_def)
  have w': "w_db w' = snd (update_sessions (\<lambda>s. se_id s = i) f (w_db w))"
    using f(2) rest by (simp add: update_sessions_def)
  have find: "find_session (w_db w') j = map_option (\<lambda>s. if se_id s = i then f s else s) (find_session (w_db w) j)" for j
    unfolding w' by (rule find_session_update) (simp add: id)
  show "j \<noteq> i \<Longrightarrow> find_session (w_db w') j = find_session (w_db w) j"
    unfolding find by (cases "find_session (w_db w) j") (auto dest: find_session_Some)
  show "find_session (w_db w) i = Some s \<Longrightarrow> \<exists>s'. find_session (w_db w') i = Some s' \<and> same_session s s'"
    unfolding find using f(1) find_session_Some by auto
  show "db_users (w_db w') = db_users (w_db w)" "db_audit (w_db w') = db_audit (w_db w)" by (rule rest)+
  assume ok: "db_ok (w_db w)"
  have ids: "map se_id (db_sessions (w_db w')) = map se_id (db_sessions (w_db w))" unfolding f(2) by (simp add: id)
  moreover from this have "se_id ` set (db_sessions (w_db w')) = se_id ` set (db_sessions (w_db w))" by (metis list.set_map)
  moreover have "se_status s' \<in> set session_statuses \<and> se_user_id s' \<in> us_id ` set (db_users (w_db w))"
    if "s' \<in> set (db_sessions (w_db w'))" for s'
  proof -
    from that obtain s where s: "s \<in> set (db_sessions (w_db w))" "s' = s \<or> s' = f s" unfolding f(2) by (auto split: if_splits)
    with ok have "se_status s \<in> set session_statuses \<and> se_user_id s \<in> us_id ` set (db_users (w_db w))" by (simp add: db_ok_def)
    with s(2) f(1) [of s] show ?thesis by (auto simp: same_session_def)
  qed
  ultimately show "db_ok (w_db w')" using ok by (simp add: db_ok_def rest)
qed

lemma frame_of_le: "act_keeps world_le m \<Longrightarrow> act_keeps db_kept m"
  by (auto simp: act_keeps_def db_kept_def world_le_def)

lemma only_update:
  assumes "\<And>t s. same_session s (f t s)"
  shows "act_keeps (only_session i) (pg_update_sessions env (\<lambda>t s. se_id s = i) f)"
proof -
  have "only_session i w (tick (w\<lparr>w_db := snd (update_sessions (\<lambda>s. se_id s = i) (f t) (w_db w))\<rparr>))" for t w
    using assms by (auto simp: only_session_def update_sessions_def intro!: exI [of _ "f t"])
  moreover have "only_session i w (tick w)" for w
    by (simp add: only_same)
  ultimately show ?thesis
    by (auto simp: act_keeps_def pg_update_sessions_def pg_cmd_def split: option.split prod.split)
       (metis snd_conv)+
qed

lemma only_set_status: "st \<in> set session_statuses \<Longrightarrow> act_keeps (only_session i) (pg_set_status env i st)"
  unfolding pg_set_status_def by (rule only_update) (simp add: same_session_def set_status_def)

lemma kept_send: "act_keeps db_kept (send_frame f)"
  by (simp add: act_keeps_def db_kept_def send_frame_def)

lemma kept_now: "act_keeps db_kept (now_iso env)"
  by (simp add: act_keeps_def db_kept_def now_iso_def)

lemma kept_node_frames: "act_keeps db_kept (on_node_start env n k)" "act_keeps db_kept (on_node_end env n u k)"
  unfolding on_node_start_def on_node_end_def
  by (intro keeps_if db_frame.keeps_abind db_frame.keeps_aret kept_send kept_now)+

lemma le_memory: "act_keeps world_le (memory_embed env t)" "act_keeps world_le (recall_for_user env uid goal k)"
proof -
  have f: "act_keeps world_le (memory_fetch env t)" for t unfolding memory_fetch_def
    by (intro grow.keeps_abind grow.keeps_acatch grow.keeps_aret keeps_redis_ops keeps_oracle)
  have "act_keeps world_le (abind (redis_get env (embed_key env t)) (\<lambda>cached.
        case cached of Some (c # cs) \<Rightarrow> abind (alift (loads (c # cs))) (\<lambda>v. aret (Some v)) | _ \<Rightarrow> aret None))" for t
    by (intro grow.keeps_abind keeps_redis_ops) (auto split: option.split list.split)
  moreover have "act_keeps world_le (case hit of Some v \<Rightarrow> aret v | None \<Rightarrow> memory_fetch env t)" for hit t
    by (cases hit) (auto intro: f)
  ultimately have e: "act_keeps world_le (memory_embed env t)" for t unfolding memory_embed_def
    by (intro grow.keeps_abind [OF grow.keeps_acatch]) auto
  then show "act_keeps world_le (memory_embed env t)" .
  show "act_keeps world_le (recall_for_user env uid goal k)" unfolding recall_for_user_def
    by (intro grow.keeps_abind grow.keeps_acatch keeps_option grow.keeps_alift grow.keeps_aret keeps_oracle e)
qed

lemma le_recall: "act_keeps world_le (recall_goal env uid goal)"
  unfolding recall_goal_def by (cases goal) (auto intro: le_memory)

lemma kept_store: "act_keeps db_kept (store_if_good env st output)"
proof -
  have "act_keeps db_kept (acatch (abind (memory_embed env t) (\<lambda>v. aret (Some v))) (\<lambda>e. aret None))" for t
    by (intro db_frame.keeps_acatch db_frame.keeps_abind frame_of_le le_memory db_frame.keeps_aret)
  moreover have "act_keeps db_kept (\<lambda>w. acatch (upsert env (row (now env w))) (\<lambda>e. aret ()) (tick w))" for row
    by (auto simp: act_keeps_def db_kept_def acatch_def upsert_def split: option.split)
  ultimately show ?thesis unfolding store_if_good_def Let_def
    by (intro keeps_if db_frame.keeps_aret db_frame.keeps_abind keeps_option)
qed

lemma statuses [simp]: "''running'' \<in> set session_statuses" "''failed'' \<in> set session_statuses"
  "''completed'' \<in> set session_statuses" "''aborted'' \<in> set session_statuses"
  by (simp_all add: session_statuses_def)

lemma abind_lift: "abind (alift (Inr x)) f = f x"
  by (simp add: fun_eq_iff abind_def)

lemma kept_node_step: "act_keeps db_kept (node_step env left n st iter)"
proof -
  have "act_keeps db_kept (\<lambda>w. case run_node (nexus_agents env) n st w of
        (Inl e, w1) \<Rightarrow> (Inr (FailedWith e), w1)
      | (Inr u, w1) \<Rightarrow> abind (on_node_end env n u k) (\<lambda>_.
          let st1 = merge_update st u in
          case next_node n st1 of None \<Rightarrow> aret (Finalising u) | Some n1 \<Rightarrow> aret (AtNode left n1 st1 k)) w1)" for k
    unfolding act_keeps_def
  proof
    fix w
    obtain r w1 where r: "run_node (nexus_agents env) n st w = (r, w1)" by (cases "run_node (nexus_agents env) n st w")
    have 1: "db_kept w w1" using frame_of_le [OF keeps_nodes [of env n st]] r by (metis act_keeps_def snd_conv)
    have "act_keeps db_kept (abind (on_node_end env n u k) (\<lambda>_. let st1 = merge_update st u in
          case next_node n st1 of None \<Rightarrow> aret (Finalising u) | Some n1 \<Rightarrow> aret (AtNode left n1 st1 k)))" for u
      unfolding Let_def by (intro db_frame.keeps_abind kept_node_frames keeps_option db_frame.keeps_aret)
    then have 2: "db_kept w1 (snd (abind (on_node_end env n u k) (\<lambda>_. let st1 = merge_update st u in
          case next_node n st1 of None \<Rightarrow> aret (Finalising u) | Some n1 \<Rightarrow> aret (AtNode left n1 st1 k)) w1))" for u
      by (simp add: act_keeps_def)
    show "db_kept w (snd (case run_node (nexus_agents env) n st w of
        (Inl e, w1) \<Rightarrow> (Inr (FailedWith e), w1)
      | (Inr u, w1) \<Rightarrow> abind (on_node_end env n u k) (\<lambda>_.
          let st1 = merge_update st u in
          case next_node n st1 of None \<Rightarrow> aret (Finalising u) | Some n1 \<Rightarrow> aret (AtNode left n1 st1 k)) w1))"
      using 1 db_frame.trans [OF 1 2] by (cases r) (simp_all add: r)
  qed
  then show ?thesis unfolding node_step_def Let_def
    by (intro db_frame.keeps_abind kept_node_frames) simp
qed

lemma only_task_step:
  assumes "uuid_of sid = Inr i"
  shows "act_keeps (only_session i) (task_step env sid uid t)"
proof -
  note frame = only_of_frame [OF kept_get_pool] only_of_frame [OF frame_of_le [OF le_recall]] only_of_frame [OF kept_send]
    only_of_frame [OF kept_store]
  have "act_keeps (only_session i) (begin_run env sid uid goal)" for goal
    unfolding begin_run_def assms abind_lift by (intro only.keeps_abind frame only.keeps_alift only.keeps_acatch only.keeps_aret)
      (simp add: only_set_status)
  moreover have "act_keeps (only_session i) (fail_run env sid e)" for e
    unfolding fail_run_def assms abind_lift by (intro only.keeps_abind frame only.keeps_alift only.keeps_aret) (simp add: only_set_status)
  moreover have "act_keeps (only_session i) (finish_run env sid u)" for u
    unfolding finish_run_def assms abind_lift Let_def
    by (intro only.keeps_abind frame only.keeps_alift only.keeps_acatch keeps_if only.keeps_aret)
       (rule only_update, simp add: same_session_def complete_row_def)
  ultimately show ?thesis unfolding task_step_def
    by (cases t) (auto split: nat.split intro: only_of_frame [OF kept_node_step])
qed

lemma only_receive:
  assumes "uuid_of (cn_session_id c) = Inr i"
  shows "act_keeps (only_session i) (ws_receive env c ts ev)"
proof -
  have "act_keeps (only_session i) (handle_frame env c ts d)" for d
    unfolding handle_frame_def assms abind_lift Let_def
    by (intro only.keeps_abind only_of_frame [OF kept_send] only_set_status keeps_if only.keeps_aret statuses)
  then have "act_keeps (only_session i) (case frame of JObj d \<Rightarrow> handle_frame env c ts d | v \<Rightarrow> alift (Inl (no_attribute v ''get'')))"
    for frame by (cases frame) (auto simp: no_attribute_def)
  then show ?thesis unfolding ws_receive_def
    by (cases ev) (auto intro!: only.keeps_acatch only.keeps_abind)
qed

section \<open>Frames of a run\<close>

definition frame_type :: "json dict \<Rightarrow> string" where
  "frame_type f = (case dget f ''type'' of Some (JStr t) \<Rightarrow> t | _ \<Rightarrow> [])"

text \<open>
  The orchestration determines what a run reports. A visit is a node with the number of
  iterations begun before it runs; of each frame its type, agent and iteration count.
\<close>

type_synonym visit = "node \<times> int"
type_synonym label = "string \<times> json option \<times> json option"

definition label :: "json dict \<Rightarrow> label" where
  "label f = (frame_type f, dget f ''agent'', dget f ''iteration'')"

fun starts :: "visit \<Rightarrow> label list" where
  "starts (PlannerN, k) = [(''agent_start'', Some (JStr ''planner''), Some (JInt (k + 1)))]"
| "starts (OutputN, k) = []"
| "starts (n, k) = [(''agent_start'', Some (JStr (node_name n)), Some (JInt k))]"

fun completes :: "visit \<Rightarrow> label list" where
  "completes (PlannerN, k) = (if 0 < k then [(''replan'', None, Some (JInt (k + 1)))] else [])
     @ [(''agent_complete'', Some (JStr ''planner''), None)]"
| "completes (ReflectorN, k) = [(''quality_score'', None, Some (JInt k)), (''agent_complete'', Some (JStr ''reflector''), None)]"
| "completes (OutputN, k) = []"
| "completes (n, k) = [(''agent_complete'', Some (JStr (node_name n)), None)]"

text \<open>A way through the graph from a visit, with the frames it shows: to its end, or to an agent that raises.\<close>

definition reported :: "visit \<Rightarrow> visit list \<Rightarrow> bool \<Rightarrow> label list \<Rightarrow> bool" where
  "reported v vs ok ls \<longleftrightarrow> vs \<noteq> [] \<and> hd vs = v \<and> successively (spec_step 3) vs
     \<and> (if ok then fst (last vs) = OutputN \<and> ls = concat (map (\<lambda>v. starts v @ completes v) vs)
        else fst (last vs) \<noteq> OutputN \<and> ls = concat (map (\<lambda>v. starts v @ completes v) (butlast vs)) @ starts (last vs))"

lemma reported_last:
  "reported (OutputN, k) [(OutputN, k)] True []" "n \<noteq> OutputN \<Longrightarrow> reported (n, k) [(n, k)] False (starts (n, k))"
  by (simp_all add: reported_def)

lemma reported_Cons:
  "reported v1 vs ok ls \<Longrightarrow> spec_step 3 v v1 \<Longrightarrow> reported v (v # vs) ok (starts v @ completes v @ ls)"
  by (cases vs) (auto simp: reported_def)

lemma reported_types:
  assumes "reported v vs ok ls" "l \<in> set ls"
  shows "fst l \<in> {''agent_start'', ''replan'', ''quality_score'', ''agent_complete''}"
proof -
  have 1: "fst l \<in> {''agent_start'', ''replan'', ''quality_score'', ''agent_complete''}"
    if "l \<in> set (starts v) \<union> set (completes v)" for v
    using that by (cases v; cases "fst v") (auto split: if_splits)
  from assms have "\<exists>v. l \<in> set (starts v) \<union> set (completes v)"
    by (auto simp: reported_def simp del: split_paired_Ex split: if_splits)
  then show ?thesis using 1 by blast
qed

lemma on_node_start_frames:
  "\<exists>fs w'. on_node_start env n (iter_at n k) w = (Inr (), w') \<and> w_frames w' = w_frames w @ fs
     \<and> map label fs = starts (n, k)"
  by (cases n) (simp_all add: on_node_start_def now_iso_def send_frame_def abind_def frame_type_def label_def agent_nodes_def iter_at_def)

definition scores :: "state_update \<Rightarrow> json dict list \<Rightarrow> bool" where
  "scores u fs \<longleftrightarrow> (\<forall>f \<in> set fs. frame_type f = ''quality_score'' \<longrightarrow>
     dget f ''score'' = Some (JFloat (or_else (u_quality_score u) (Fin 0))))"

lemma on_node_end_frames:
  "\<exists>fs w'. on_node_end env n u (iter_at n k) w = (Inr (), w') \<and> w_frames w' = w_frames w @ fs
     \<and> map label fs = completes (n, k) \<and> scores u fs"
  by (cases n) (simp_all add: on_node_end_def now_iso_def send_frame_def abind_def frame_type_def label_def agent_nodes_def
      iter_at_def scores_def)

text \<open>One node's step: what it sends, and what it goes on with.\<close>

lemma node_step_cases:
  obtains (failed) w1 fs e w2 where "run_node (nexus_agents env) n st w1 = (Inl e, w2)"
      "node_step env left n st k w = (Inr (FailedWith e), w2)" "w_frames w2 = w_frames w @ fs"
      "map label fs = starts (n, k)"
  | (ran) w1 fs u w2 w3 where "run_node (nexus_agents env) n st w1 = (Inr u, w2)"
      "node_step env left n st k w = (Inr (case next_node n (merge_update st u) of
          None \<Rightarrow> Finalising u | Some n1 \<Rightarrow> AtNode left n1 (merge_update st u) (iter_at n k)), w3)" "w_frames w3 = w_frames w @ fs"
      "map label fs = starts (n, k) @ completes (n, k)" "scores u fs"
proof -
  obtain w1 fs1 where 1: "on_node_start env n (iter_at n k) w = (Inr (), w1)" "w_frames w1 = w_frames w @ fs1"
    "map label fs1 = starts (n, k)"
    using on_node_start_frames by blast
  obtain r w2 where 2: "run_node (nexus_agents env) n st w1 = (r, w2)" by (cases "run_node (nexus_agents env) n st w1")
  have f2: "w_frames w2 = w_frames w1" using keeps_nodes [of env n st] 2 by (metis act_keeps_def world_le_def snd_conv)
  show thesis
  proof (cases r)
    case (Inl e)
    with 1 2 f2 show thesis by (intro failed [of w1 e w2 fs1]) (simp_all add: node_step_def Let_def)
  next
    case (Inr u)
    obtain w3 fs3 where 3: "on_node_end env n u (iter_at n k) w2 = (Inr (), w3)" "w_frames w3 = w_frames w2 @ fs3"
      "map label fs3 = completes (n, k)" "scores u fs3"
      using on_node_end_frames by blast
    have "node_step env left n st k w = (Inr (case next_node n (merge_update st u) of
          None \<Rightarrow> Finalising u | Some n1 \<Rightarrow> AtNode left n1 (merge_update st u) (iter_at n k)), w3)"
      using 1 2 3 Inr by (simp add: node_step_def Let_def split: option.split)
    moreover have "scores u fs1"
    proof -
      have "set (map label fs1) \<subseteq> {l. fst l = ''agent_start''}" unfolding 1(3) by (cases n) simp_all
      then show ?thesis by (auto simp: scores_def label_def)
    qed
    ultimately show thesis using 1 2 3 Inr f2 by (intro ran [of w1 u w2 w3 "fs1 @ fs3"]) (auto simp: scores_def)
  qed
qed

text \<open>The socket's loop never raises, keeps the identity of the session, and starts a task at most once.\<close>

lemma ws_receive_run:
  assumes "ws_receive env c ts ev w = (Inr (c', ts'), w')"
  shows "cn_session_id c' = cn_session_id c \<and> cn_user_id c' = cn_user_id c
    \<and> (ts' = ts \<and> cn_started c' = cn_started c \<or> \<not> cn_started c \<and> cn_started c' \<and> ts' = ts @ [Spawned (cn_goal c')])"
  using assms
  by (auto simp: ws_receive_def handle_frame_def send_frame_def abind_def acatch_def Let_def
      split: client_event.splits sum.splits prod.splits json.splits if_splits)

text \<open>A connection starts no task or one, as its flag says.\<close>

definition one_task :: "connection \<Rightarrow> task list \<Rightarrow> bool" where
  "one_task c ts \<longleftrightarrow> length ts \<le> 1 \<and> (cn_started c \<longleftrightarrow> ts \<noteq> [])"

text \<open>One step: it touches only the connection's session, and the connection keeps its identity.\<close>

lemma ws_step_only:
  assumes "ws_step env (c, ts, w) (c', ts', w')" "uuid_of (cn_session_id c) = Inr i" "one_task c ts"
  shows "only_session i w w' \<and> cn_session_id c' = cn_session_id c \<and> cn_user_id c' = cn_user_id c \<and> one_task c' ts'"
proof -
  from assms(1) consider (receive) ev where "ws_receive env c ts ev w = (Inr (c', ts'), w')"
    | (task) k t r t' where "task_step env (cn_session_id c) (cn_user_id c) t w = (r, w')" "c' = c" "ts' = ts[k := t']"
    by (elim ws_stepE) blast+
  then show ?thesis
  proof cases
    case receive
    have "only_session i w w'" using only_receive [OF assms(2)] receive by (metis act_keeps_def snd_conv)
    with ws_receive_run [OF receive] assms(3) show ?thesis by (auto simp: one_task_def)
  next
    case task
    have "only_session i w w'" using only_task_step [OF assms(2)] task(1) by (metis act_keeps_def snd_conv)
    with task assms(3) show ?thesis by (simp add: one_task_def)
  qed
qed

text \<open>What a task holds wherever it is: the orchestration's invariant, and enough super-steps left.\<close>

fun task_ok :: "task \<Rightarrow> bool" where
  "task_ok (AtNode left n st iter) \<longleftrightarrow> run_inv 3 n st \<and> iter = iteration_count st \<and> steps_left 3 n iter \<le> int (min left 16)"
| "task_ok (Finalising u) \<longleftrightarrow> (\<exists>st. u = output_node st)"
| "task_ok t \<longleftrightarrow> True"

lemma task_ok_step:
  assumes "task_step env sid uid t w = (Inr t', w')" "task_ok t"
  shows "task_ok t'"
proof -
  have node: "task_ok t'" if t: "t = AtNode (Suc left) n st k" and run: "node_step env left n st k w = (Inr t', w')" for left n st k
  proof (cases rule: node_step_cases [of env n st left k w])
    case (failed w1 fs e w2)
    with run have "t' = FailedWith e" by simp
    then show ?thesis by simp
  next
    case (ran w1 fs u w2 w3)
    from assms(2) have inv: "run_inv 3 n st" "k = iteration_count st" "steps_left 3 n k \<le> int (Suc left)" "steps_left 3 n k \<le> 16"
      by (auto simp: t)
    show ?thesis
    proof (cases "next_node n (merge_update st u)")
      case None
      then have "n = OutputN" by (cases n) simp_all
      with ran(1,2) None run show ?thesis by auto
    next
      case (Some n1)
      let ?st1 = "merge_update st u"
      from nexus.node_step(2) [OF _ inv(1) ran(1) refl Some]
      have i: "run_inv 3 n1 ?st1" and sp: "spec_step 3 (n, k) (n1, iteration_count ?st1)" by (auto simp: inv(2))
      have it: "iteration_count ?st1 = iter_at n k" using sp by (auto simp: spec_step_simps iter_at_def)
      have "k \<le> 3" using inv(1,2) by (simp add: run_inv_def)
      from spec_step_steps [OF sp this] inv(3,4) have "steps_left 3 n1 (iteration_count ?st1) \<le> int (min left 16)" by simp
      with ran(2) run Some i it show ?thesis by simp
    qed
  qed
  have init: "iteration_count (initial_state g sid uid mem) = 0" for g mem by (simp add: initial_state_def)
  show ?thesis
  proof (cases t)
    case (Spawned goal)
    with assms(1) show ?thesis
      by (auto simp: task_step_def begin_run_def abind_Inr initial_inv init recursion_limit_def)
  next
    case (AtNode left n st k)
    with assms(1) node show ?thesis by (cases left) (auto simp: task_step_def)
  qed (use assms(1) in \<open>auto simp: task_step_def finish_run_def fail_run_def abind_Inr Let_def\<close>)
qed

definition ws_inv :: "uuid \<Rightarrow> connection \<Rightarrow> world \<Rightarrow> connection \<times> task list \<times> world \<Rightarrow> bool" where
  "ws_inv i c0 w0 s \<longleftrightarrow> (case s of (c, ts, w) \<Rightarrow>
     cn_session_id c = cn_session_id c0 \<and> cn_user_id c = cn_user_id c0
     \<and> one_task c ts \<and> (\<forall>t \<in> set ts. task_ok t) \<and> only_session i w0 w)"

lemma ws_step_ok:
  assumes "ws_step env (c, ts, w) (c', ts', w')" "\<forall>t \<in> set ts. task_ok t"
  shows "\<forall>t \<in> set ts'. task_ok t"
proof -
  from assms(1) consider (receive) ev where "ws_receive env c ts ev w = (Inr (c', ts'), w')"
    | (task) k t t' where "k < length ts" "ts ! k = t" "task_step env (cn_session_id c) (cn_user_id c) t w = (Inr t', w')"
        "ts' = ts[k := t']"
    | (raises) k where "ts' = ts[k := Ended]"
    by (elim ws_stepE) blast+
  then show ?thesis
  proof cases
    case receive
    with ws_receive_run [OF receive] assms(2) show ?thesis by auto
  next
    case task
    with assms(2) have "task_ok t'" using task_ok_step by (metis nth_mem)
    with task assms(2) show ?thesis by (auto dest!: subsetD [OF set_update_subset_insert])
  next
    case raises
    with assms(2) show ?thesis by (auto dest!: subsetD [OF set_update_subset_insert])
  qed
qed

lemma ws_inv_step:
  assumes "uuid_of (cn_session_id c0) = Inr i" "ws_inv i c0 w0 s" "ws_step env s s'"
  shows "ws_inv i c0 w0 s'"
proof -
  obtain c ts w c' ts' w' where s: "s = (c, ts, w)" "s' = (c', ts', w')" by (metis prod.exhaust)
  with assms have inv: "only_session i w0 w" "uuid_of (cn_session_id c) = Inr i" "one_task c ts" "\<forall>t \<in> set ts. task_ok t"
    by (auto simp: ws_inv_def)
  note step = assms(3) [unfolded s]
  from ws_step_only [OF step inv(2,3)] ws_step_ok [OF step inv(4)] only.trans [OF inv(1)] assms(2) show ?thesis
    by (auto simp: ws_inv_def s)
qed

lemma ws_reach:
  assumes "uuid_of (cn_session_id c0) = Inr i" "\<not> cn_started c0" "(ws_step env)\<^sup>*\<^sup>* (c0, [], w0) s"
  shows "ws_inv i c0 w0 s"
  using assms(3)
proof (induction rule: rtranclp_induct)
  case base
  then show ?case using assms(2) only.refl by (simp add: ws_inv_def one_task_def)
qed (rule ws_inv_step [OF assms(1)])

section \<open>A task left alone\<close>

lemma run_task_add: "run_task env sid uid (j + k) t = abind (run_task env sid uid j t) (run_task env sid uid k)"
proof (induction j arbitrary: t)
  case (Suc j)
  then show ?case by (auto simp: fun_eq_iff abind_def split: prod.split sum.split)
qed (simp add: fun_eq_iff abind_def)

lemma run_task_ended: "run_task env sid uid k Ended w = (Inr Ended, w)"
  by (induction k) (simp_all add: task_step_def)

lemma node_kept: "node_step env left n st k w = (r, w') \<Longrightarrow> w_db w' = w_db w"
  using db_keptD [OF kept_node_step] by blast

text \<open>Scores a run reports are in the unit interval.\<close>

definition unit_scores :: "json dict list \<Rightarrow> bool" where
  "unit_scores fs \<longleftrightarrow> (\<forall>f \<in> set fs. frame_type f = ''quality_score'' \<longrightarrow>
     (\<exists>q. dget f ''score'' = Some (JFloat q) \<and> unit_quality q))"

lemma no_scores: "''quality_score'' \<notin> fst ` set (map label fs) \<Longrightarrow> unit_scores fs"
  by (force simp: unit_scores_def label_def)

lemma node_scores:
  assumes "run_node (nexus_agents env) n st w1 = (Inr u, w2)" "scores u fs" "map label fs = starts (n, k) @ completes (n, k)"
  shows "unit_scores fs"
proof (cases "n = ReflectorN")
  case True
  with assms(1) have "ag_reflector (nexus_agents env) st w1 = (Inr u, w2)" by simp
  from nexus.reflector_law [OF this] obtain q where "u_quality_score u = Some q" "unit_quality q" by auto
  with assms(2) show ?thesis by (auto simp: unit_scores_def scores_def)
next
  case False
  have "''quality_score'' \<notin> fst ` set (starts (n, k) @ completes (n, k))"
    using False by (cases n) auto
  then show ?thesis unfolding assms(3) [symmetric] by (rule no_scores)
qed

text \<open>From a node on, within the steps the orchestration has left, the task reaches its end or fails.\<close>

lemma nodes_run:
  assumes "task_ok (AtNode left n st k)" "steps_left 3 n k \<le> int m"
  shows "\<exists>j t' w' fs vs ok. j \<le> m \<and> run_task env sid uid j (AtNode left n st k) w = (Inr t', w')
    \<and> w_db w' = w_db w \<and> w_frames w' = w_frames w @ fs \<and> reported (n, k) vs ok (map label fs) \<and> unit_scores fs
    \<and> (if ok then \<exists>st'. t' = Finalising (output_node st') else \<exists>e. t' = FailedWith e)"
  using assms
proof (induction m arbitrary: left n st k w)
  case 0
  then show ?case by (cases n) (auto simp: run_inv_def)
next
  case (Suc m)
  from Suc.prems(1) have pos: "0 < steps_left 3 n k" "k \<le> 3" by (cases n; auto simp: run_inv_def)+
  with Suc.prems(1) obtain left' where l: "left = Suc left'" by (cases left) auto
  show ?case
  proof (cases rule: node_step_cases [of env n st left' k w])
    case (failed w1 fs e w2)
    from node_kept [OF failed(2)] have db: "w_db w2 = w_db w" .
    have run: "run_task env sid uid 1 (AtNode left n st k) w = (Inr (FailedWith e), w2)"
      using failed(2) by (simp add: l task_step_def)
    from failed(1) have n: "n \<noteq> OutputN" by auto
    have "''quality_score'' \<notin> fst ` set (starts (n, k))" by (cases n) simp_all
    then have "unit_scores fs" unfolding failed(4) [symmetric] by (rule no_scores)
    with run db failed(3,4) reported_last(2) [OF n, of k] show ?thesis
      by (intro exI [of _ 1] exI [of _ "FailedWith e"] exI [of _ w2] exI [of _ fs] exI [of _ "[(n, k)]"] exI [of _ False]) simp
  next
    case (ran w1 fs u w2 w3)
    from node_kept [OF ran(2)] have db: "w_db w3 = w_db w" .
    note sc = node_scores [OF ran(1,5,4)]
    show ?thesis
    proof (cases "next_node n (merge_update st u)")
      case None
      then have n: "n = OutputN" by (cases n) simp_all
      with ran(1) have u: "u = output_node st" by simp
      have "run_task env sid uid 1 (AtNode left n st k) w = (Inr (Finalising u), w3)"
        using ran(2) None by (simp add: l task_step_def)
      with ran(3,4) db u sc n reported_last(1) [of k] show ?thesis
        by (intro exI [of _ 1] exI [of _ "Finalising u"] exI [of _ w3] exI [of _ fs] exI [of _ "[(n, k)]"] exI [of _ True]) auto
    next
      case (Some n1)
      let ?st1 = "merge_update st u"
      from ran(2) Some have step: "task_step env sid uid (AtNode left n st k) w = (Inr (AtNode left' n1 ?st1 (iter_at n k)), w3)"
        by (simp add: l task_step_def)
      from task_ok_step [OF step Suc.prems(1)] have ok1: "task_ok (AtNode left' n1 ?st1 (iter_at n k))" .
      from Suc.prems(1) nexus.node_step(2) [OF _ _ ran(1) refl Some]
      have sp: "spec_step 3 (n, k) (n1, iter_at n k)" using ok1 by (simp add: l)
      from spec_step_steps [OF sp pos(2)] Suc.prems(2) have "steps_left 3 n1 (iter_at n k) \<le> int m" by linarith
      from Suc.IH [OF ok1 this, of w3] obtain j t' w' fs1 vs ok where j: "j \<le> m"
        and r: "run_task env sid uid j (AtNode left' n1 ?st1 (iter_at n k)) w3 = (Inr t', w')"
        and rest: "w_db w' = w_db w3" "w_frames w' = w_frames w3 @ fs1" "reported (n1, iter_at n k) vs ok (map label fs1)"
          "unit_scores fs1" "if ok then \<exists>st'. t' = Finalising (output_node st') else \<exists>e. t' = FailedWith e" by blast
      have "run_task env sid uid (Suc j) (AtNode left n st k) w = (Inr t', w')"
        using step r by simp
      moreover have "reported (n, k) ((n, k) # vs) ok (map label (fs @ fs1))"
        using reported_Cons [OF rest(3) sp] ran(4) by simp
      moreover have "unit_scores (fs @ fs1)" using sc rest(4) by (auto simp: unit_scores_def)
      ultimately show ?thesis using j rest(1,2,5) ran(3) db
        by (intro exI [of _ "Suc j"] exI [of _ t'] exI [of _ w'] exI [of _ "fs @ fs1"] exI [of _ "(n, k) # vs"] exI [of _ ok]) simp
    qed
  qed
qed

lemma up_update:
  assumes "pg_up env"
  shows "\<exists>tag. pg_update_sessions env p f w
      = (Inr tag, tick (w\<lparr>w_db := snd (update_sessions (p (now env w)) (f (now env w)) (w_db w))\<rparr>))"
  using assms by (auto simp: pg_update_sessions_def pg_cmd_def pg_up_def split: prod.split)

definition row_update :: "uuid \<Rightarrow> (session_row \<Rightarrow> session_row) \<Rightarrow> database \<Rightarrow> database" where
  "row_update i f db = snd (update_sessions (\<lambda>s. se_id s = i) f db)"

lemma find_row_update:
  assumes "\<And>s. se_id (f s) = se_id s"
  shows "find_session (row_update i f db) j = (if j = i then map_option f (find_session db j) else find_session db j)"
proof -
  have "find_session (row_update i f db) j = map_option (\<lambda>s. if se_id s = i then f s else s) (find_session db j)"
    unfolding row_update_def using assms by (intro find_session_update)
  then show ?thesis by (cases "find_session db j") (auto dest: find_session_Some)
qed

lemma begin_run_up:
  assumes "pg_up env" "uuid_of sid = Inr i"
  shows "\<exists>w' mem. begin_run env sid uid goal w = (Inr (AtNode recursion_limit PlannerN (initial_state (py_str goal) sid uid mem) 0), w')
    \<and> w_frames w' = w_frames w \<and> w_db w' = row_update i (set_status ''running'') (w_db w)"
proof -
  from up_pool [OF assms(1), of w] obtain w1 where p: "get_pool env w = (Inr (), w1)" "w_db w1 = w_db w" by blast
  have f1: "w_frames w1 = w_frames w" using p(1) by (auto simp: get_pool_def split: if_splits option.splits)
  let ?w2 = "tick (w1\<lparr>w_db := row_update i (set_status ''running'') (w_db w)\<rparr>)"
  obtain tag where u: "pg_set_status env i ''running'' w1 = (Inr tag, ?w2)"
    using up_update [OF assms(1)] p(2) unfolding pg_set_status_def row_update_def by metis
  obtain r w3 where m: "acatch (recall_goal env uid goal) (\<lambda>e. aret []) ?w2 = (r, w3)"
    by (cases "acatch (recall_goal env uid goal) (\<lambda>e. aret []) ?w2")
  have "act_keeps world_le (acatch (recall_goal env uid goal) (\<lambda>e. aret []))"
    by (intro grow.keeps_acatch le_recall grow.keeps_aret)
  with m have k: "world_le ?w2 w3" by (metis act_keeps_def snd_conv)
  from m obtain mem where "r = Inr mem" by (auto simp: acatch_def split: prod.splits sum.splits)
  with p(1) u m k f1 show ?thesis
    by (intro exI [of _ w3] exI [of _ mem]) (simp add: begin_run_def assms(2) abind_lift world_le_def)
qed

lemma fail_run_up:
  assumes "pg_up env" "uuid_of sid = Inr i"
  shows "\<exists>w'. fail_run env sid e w = (Inr Ended, w')
    \<and> w_frames w' = w_frames w @ [error_frame ''graph_error'' (take 300 (exn_str e))]
    \<and> w_db w' = row_update i (set_status ''failed'') (w_db w)"
proof -
  let ?w1 = "w\<lparr>w_frames := w_frames w @ [error_frame ''graph_error'' (take 300 (exn_str e))]\<rparr>"
  have s: "send_frame (error_frame ''graph_error'' (take 300 (exn_str e))) w = (Inr (), ?w1)" by (simp add: send_frame_def)
  let ?w2 = "tick (?w1\<lparr>w_db := row_update i (set_status ''failed'') (w_db ?w1)\<rparr>)"
  from up_update [OF assms(1), of "\<lambda>t s. se_id s = i" "\<lambda>t. set_status ''failed''" ?w1]
  obtain tag where u: "pg_set_status env i ''failed'' ?w1 = (Inr tag, ?w2)"
    unfolding pg_set_status_def row_update_def by blast
  have "fail_run env sid e w = (Inr Ended, ?w2)"
    unfolding fail_run_def assms(2) abind_lift
    by (subst abind_step(1), rule s, subst abind_step(1), rule u, rule aret_apply)
  then show ?thesis by (intro exI [of _ ?w2]) simp
qed

definition done_frame :: "json dict \<Rightarrow> bool" where
  "done_frame f \<longleftrightarrow> dget f ''type'' = Some (JStr ''done'') \<and> dget f ''output'' = Some (JObj [])
     \<and> dget f ''final_score'' = Some (JFloat (Fin 0))"

lemma finish_run_up:
  assumes "pg_up env" "uuid_of sid = Inr i"
  shows "\<exists>w' text t f. finish_run env sid (output_node st) w = (Inr Ended, w')
    \<and> w_frames w' = w_frames w @ [f] \<and> done_frame f \<and> w_vectors w' = w_vectors w
    \<and> w_db w' = row_update i (complete_row (Fin 0) text 0 t) (w_db w)"
proof -
  let ?u = "output_node st"
  let ?fs = "final_of_update ?u"
  have u: "u_quality_score ?u = None" "u_execution_output ?u = None" "u_iteration_count ?u = None"
    by (simp_all add: output_node_def)
  then have fs: "fs_quality_score ?fs = None" "fs_execution_output ?fs = None" "fs_iteration_count ?fs = None"
    "fs_disclaimer ?fs = u_disclaimer ?u" by (simp_all add: final_of_update_def)
  let ?text = "dumps default_opts (JObj [(''disclaimer'', disclaimer_json (u_disclaimer ?u))])"
  let ?w1 = "tick (w\<lparr>w_db := row_update i (complete_row (Fin 0) ?text 0 (now env w)) (w_db w)\<rparr>)"
  obtain tag where up: "pg_update_sessions env (\<lambda>t s. se_id s = i) (complete_row (Fin 0) ?text 0) w = (Inr tag, ?w1)"
    using up_update [OF assms(1)] unfolding row_update_def by metis
  have "flt_less (Fin 0) quality_write_threshold" by (simp add: quality_write_threshold_value)
  then have st: "acatch (if ?u \<noteq> no_update then store_if_good env ?fs (dumps default_opts (output_json ?fs)) else aret ())
      (\<lambda>e. aret ()) ?w1 = (Inr (), ?w1)"
    using fs(1) by (simp add: store_if_good_def Let_def acatch_def)
  let ?f = "[(''type'', JStr ''done''), (''output'', JObj []), (''citations'', JArr []),
      (''final_score'', JFloat (Fin 0)), (''disclaimer'', disclaimer_json (u_disclaimer ?u))]"
  have oj: "output_json ?fs = JObj []" by (simp add: output_json_def fs(2))
  have "finish_run env sid ?u w = (Inr Ended, ?w1\<lparr>w_frames := w_frames ?w1 @ [?f]\<rparr>)"
    unfolding finish_run_def assms(2) abind_lift Let_def fs or_else_simps oj
    by (subst abind_step(1), rule up, subst abind_step(1), rule st [unfolded oj]) (simp add: send_frame_def abind_def)
  then show ?thesis
    by (intro exI [of _ "?w1\<lparr>w_frames := w_frames ?w1 @ [?f]\<rparr>"] exI [of _ ?text] exI [of _ "now env w"] exI [of _ ?f])
       (simp add: done_frame_def)
qed

text \<open>The last step of a task: the session's row and the last frame.\<close>

definition ended_as :: "bool \<Rightarrow> json dict \<Rightarrow> session_row \<Rightarrow> session_row \<Rightarrow> bool" where
  "ended_as ok f s s' \<longleftrightarrow> se_goal s' = se_goal s \<and>
     (if ok then se_status s' = ''completed'' \<and> done_frame f \<and> se_final_quality s' = Some (Fin 0)
        \<and> se_iteration_count s' = 0 \<and> se_final_output s' \<noteq> None
      else se_status s' = ''failed'' \<and> frame_type f = ''error'' \<and> se_final_output s' = se_final_output s)"

lemma last_step:
  assumes "pg_up env" "uuid_of sid = Inr i" "find_session (w_db w) i = Some s"
    and "if ok then \<exists>st. t = Finalising (output_node st) else \<exists>e. t = FailedWith e"
  shows "\<exists>w' f s'. task_step env sid uid t w = (Inr Ended, w') \<and> w_frames w' = w_frames w @ [f]
    \<and> find_session (w_db w') i = Some s' \<and> (\<forall>j. j \<noteq> i \<longrightarrow> find_session (w_db w') j = find_session (w_db w) j)
    \<and> ended_as ok f s s'"
proof (cases ok)
  case True
  with assms(4) obtain st where t: "t = Finalising (output_node st)" by auto
  obtain w' out c f where fin: "finish_run env sid (output_node st) w = (Inr Ended, w')" "w_frames w' = w_frames w @ [f]"
    "done_frame f" "w_db w' = row_update i (complete_row (Fin 0) out 0 c) (w_db w)"
    using finish_run_up [OF assms(1,2)] by blast
  have ids: "se_id (complete_row (Fin 0) out 0 c x) = se_id x" for x by (simp add: complete_row_def)
  from t fin assms(3) True show ?thesis
    by (intro exI [of _ w'] exI [of _ f] exI [of _ "complete_row (Fin 0) out 0 c s"])
       (simp add: task_step_def find_row_update ids complete_row_def ended_as_def)
next
  case False
  with assms(4) obtain e where t: "t = FailedWith e" by auto
  let ?f = "error_frame ''graph_error'' (take 300 (exn_str e))"
  obtain w' where fin: "fail_run env sid e w = (Inr Ended, w')" "w_frames w' = w_frames w @ [?f]"
    "w_db w' = row_update i (set_status ''failed'') (w_db w)"
    using fail_run_up [OF assms(1,2)] by blast
  have "frame_type ?f = ''error''" by (simp add: frame_type_def error_frame_def)
  with t fin assms(3) False show ?thesis
    by (intro exI [of _ w'] exI [of _ ?f] exI [of _ "set_status ''failed'' s"])
       (simp add: task_step_def find_row_update ended_as_def)
qed

lemma run_task_then:
  "run_task env sid uid j t w = (Inr t1, w1) \<Longrightarrow> run_task env sid uid k t1 w1 = r \<Longrightarrow> run_task env sid uid (j + k) t w = r"
  by (simp add: run_task_add abind_step(1))

text \<open>From a node on, and the whole task: begin, at most sixteen nodes, and the end or the report of the failure.\<close>

lemma node_alone:
  assumes "pg_up env" "uuid_of sid = Inr i" "find_session (w_db w) i = Some s" "task_ok (AtNode left n st k)"
  shows "\<exists>j w' fs f s' vs ok. j \<le> 17 \<and> run_task env sid uid j (AtNode left n st k) w = (Inr Ended, w')
    \<and> w_frames w' = w_frames w @ fs @ [f] \<and> reported (n, k) vs ok (map label fs) \<and> unit_scores fs
    \<and> find_session (w_db w') i = Some s' \<and> (\<forall>j. j \<noteq> i \<longrightarrow> find_session (w_db w') j = find_session (w_db w) j)
    \<and> ended_as ok f s s'"
proof -
  have "steps_left 3 n k \<le> int 16" using assms(4) by auto
  from nodes_run [OF assms(4) this, of env sid uid w] obtain j t w1 fs vs ok where j: "j \<le> 16"
    and r: "run_task env sid uid j (AtNode left n st k) w = (Inr t, w1)"
    and kept: "w_db w1 = w_db w" "w_frames w1 = w_frames w @ fs"
    and rep: "reported (n, k) vs ok (map label fs)" "unit_scores fs"
    and t: "if ok then \<exists>st'. t = Finalising (output_node st') else \<exists>e. t = FailedWith e" by blast
  have "find_session (w_db w1) i = Some s" using assms(3) kept(1) by simp
  from last_step [OF assms(1,2) this t] obtain w' f s' where last: "task_step env sid uid t w1 = (Inr Ended, w')"
    "w_frames w' = w_frames w1 @ [f]" "find_session (w_db w') i = Some s'"
    "\<forall>j. j \<noteq> i \<longrightarrow> find_session (w_db w') j = find_session (w_db w1) j" "ended_as ok f s s'" by blast
  have "run_task env sid uid 1 t w1 = (Inr Ended, w')" using last(1) by simp
  from run_task_then [OF r this] j have "j + 1 \<le> 17 \<and> run_task env sid uid (j + 1) (AtNode left n st k) w = (Inr Ended, w')" by simp
  with rep kept last show ?thesis
    by (intro exI [of _ "j + 1"] exI [of _ w'] exI [of _ fs] exI [of _ f] exI [of _ s'] exI [of _ vs] exI [of _ ok]) simp
qed

lemma run_task_padded: "run_task env sid uid j t w = (Inr Ended, w') \<Longrightarrow> j \<le> k \<Longrightarrow> run_task env sid uid k t w = (Inr Ended, w')"
  using run_task_then [of env sid uid j t w Ended w' "k - j"] by (simp add: run_task_ended)

lemma task_alone:
  assumes "pg_up env" "uuid_of sid = Inr i" "find_session (w_db w) i = Some s"
  shows "\<exists>w' fs f s' vs ok. run_task env sid uid 18 (Spawned goal) w = (Inr Ended, w') \<and> w_frames w' = w_frames w @ fs @ [f]
    \<and> reported (PlannerN, 0) vs ok (map label fs) \<and> unit_scores fs
    \<and> find_session (w_db w') i = Some s' \<and> (\<forall>j. j \<noteq> i \<longrightarrow> find_session (w_db w') j = find_session (w_db w) j)
    \<and> ended_as ok f s s'"
proof -
  obtain w1 mem where b: "begin_run env sid uid goal w = (Inr (AtNode recursion_limit PlannerN (initial_state (py_str goal) sid uid mem) 0), w1)"
    "w_frames w1 = w_frames w" "w_db w1 = row_update i (set_status ''running'') (w_db w)"
    using begin_run_up [OF assms(1,2)] by blast
  let ?t = "AtNode recursion_limit PlannerN (initial_state (py_str goal) sid uid mem) 0"
  have step: "task_step env sid uid (Spawned goal) w = (Inr ?t, w1)" using b(1) by (simp add: task_step_def)
  from task_ok_step [OF step] have ok: "task_ok ?t" by simp
  have s1: "find_session (w_db w1) j = (if j = i then Some (set_status ''running'' s) else find_session (w_db w) j)" for j
    using b(3) assms(3) by (simp add: find_row_update)
  then have "find_session (w_db w1) i = Some (set_status ''running'' s)" by simp
  from node_alone [OF assms(1,2) this ok, of uid] obtain j w' fs f s' vs ok where j: "j \<le> 17"
    and r: "run_task env sid uid j ?t w1 = (Inr Ended, w')"
    and rest: "w_frames w' = w_frames w1 @ fs @ [f]" "reported (PlannerN, 0) vs ok (map label fs)" "unit_scores fs"
      "find_session (w_db w') i = Some s'" "\<forall>j. j \<noteq> i \<longrightarrow> find_session (w_db w') j = find_session (w_db w1) j"
      "ended_as ok f (set_status ''running'' s) s'" by blast
  have "run_task env sid uid (Suc j) (Spawned goal) w = (Inr Ended, w')" using step r by simp
  from run_task_padded [OF this] j have "run_task env sid uid 18 (Spawned goal) w = (Inr Ended, w')" by simp
  moreover have "ended_as ok f s s'" using rest(6) by (simp add: ended_as_def)
  ultimately show ?thesis using rest(1-5) b(2) s1
    by (intro exI [of _ w'] exI [of _ fs] exI [of _ f] exI [of _ s'] exI [of _ vs] exI [of _ ok]) simp
qed

text \<open>From wherever it is, a task left alone ends, and says so in the session's row.\<close>

lemma task_finishes:
  assumes "pg_up env" "uuid_of sid = Inr i" "find_session (w_db w) i = Some s" "task_ok t" "t \<noteq> Ended"
  shows "\<exists>w' s' ok f. run_task env sid uid 18 t w = (Inr Ended, w') \<and> find_session (w_db w') i = Some s' \<and> ended_as ok f s s'
    \<and> (\<forall>u. t = Finalising u \<longrightarrow> ok) \<and> (\<forall>e. t = FailedWith e \<longrightarrow> \<not> ok)"
proof -
  have last: ?thesis if ok: "if ok then \<exists>st. t = Finalising (output_node st) else \<exists>e. t = FailedWith e" for ok
  proof -
    from last_step [OF assms(1-3) ok, of uid] obtain w' f s' where l: "task_step env sid uid t w = (Inr Ended, w')"
      "find_session (w_db w') i = Some s'" "ended_as ok f s s'" by blast
    then have "run_task env sid uid 1 t w = (Inr Ended, w')" by simp
    from run_task_padded [OF this] l ok show ?thesis
      by (intro exI [of _ w'] exI [of _ s'] exI [of _ ok] exI [of _ f]) (auto split: if_splits)
  qed
  show ?thesis
  proof (cases t)
    case (Spawned goal)
    with task_alone [OF assms(1-3), of uid goal] show ?thesis by auto
  next
    case (AtNode left n st k)
    with node_alone [OF assms(1-3), of left n st k uid] assms(4) obtain j w' f s' ok where
      "j \<le> 17" "run_task env sid uid j t w = (Inr Ended, w')" "find_session (w_db w') i = Some s'" "ended_as ok f s s'" by blast
    with run_task_padded [of env sid uid j t w w' 18] AtNode show ?thesis by auto
  next
    case (Finalising u)
    with assms(4) last [of True] show ?thesis by auto
  next
    case (FailedWith e)
    with last [of False] show ?thesis by auto
  qed (use assms(5) in simp)
qed

text \<open>A task that runs alone takes steps of the socket's system.\<close>

lemma run_task_steps:
  assumes "run_task env (cn_session_id c) (cn_user_id c) k t w = (Inr t', w')"
  shows "(ws_step env)\<^sup>*\<^sup>* (c, [t], w) (c, [t'], w')"
  using assms
proof (induction k arbitrary: t w)
  case (Suc k)
  then obtain t1 w1 where step: "task_step env (cn_session_id c) (cn_user_id c) t w = (Inr t1, w1)"
    "run_task env (cn_session_id c) (cn_user_id c) k t1 w1 = (Inr t', w')" by (auto simp: abind_Inr)
  from Suc.IH [OF step(2)] have rest: "(ws_step env)\<^sup>*\<^sup>* (c, [t1], w1) (c, [t'], w')" .
  show ?case
  proof (cases "t = Ended")
    case True
    with step(1) have "t1 = t" "w1 = w" by (auto simp: task_step_def)
    with rest show ?thesis by simp
  next
    case False
    from ws_step.task [of 0 "[t]", OF _ _ False step(1)] have "ws_step env (c, [t], w) (c, [t1], w1)" by simp
    with rest show ?thesis by (rule converse_rtranclp_into_rtranclp [rotated])
  qed
qed simp

text \<open>The handshake: whom it lets in, what it returns and what it reads.\<close>

definition entitled :: "env \<Rightarrow> string \<Rightarrow> string \<Rightarrow> world \<Rightarrow> session_row \<Rightarrow> bool" where
  "entitled env sid token w s \<longleftrightarrow> (\<exists>i payload. uuid_of sid = Inr i \<and> find_session (w_db w) i = Some s \<and> se_status s = ''pending''
     \<and> e_jwt_decode env (now env w) token (jwt_secret (e_settings env)) (jwt_algorithm (e_settings env)) = Some payload
     \<and> dget payload ''sub'' = Some (JStr (uuid_str (se_user_id s))))"

lemma ws_connect_decides:
  assumes "ws_connect env sid token w = (Inr r, w')"
  shows "w_db w' = w_db w \<and> (case r of
      None \<Rightarrow> (\<forall>s. \<not> entitled env sid token w s) \<and> w_frames w' = w_frames w
    | Some c \<Rightarrow> (\<exists>s. entitled env sid token w s \<and> c = \<lparr>cn_session_id = sid, cn_user_id = uuid_str (se_user_id s),
          cn_goal = JStr (se_goal s), cn_started = False, cn_open = True\<rparr>)
        \<and> w_frames w' = w_frames w @ [[(''type'', JStr ''connected''), (''session_id'', JStr sid)]])"
proof -
  let ?d = "e_jwt_decode env (now env w) token (jwt_secret (e_settings env)) (jwt_algorithm (e_settings env))"
  have pool: "get_pool env v = (Inr (), v') \<Longrightarrow> w_db v' = w_db v \<and> w_frames v' = w_frames v" for v v'
    by (auto simp: get_pool_def split: if_splits option.splits)
  show ?thesis
  proof (cases ?d)
    case None
    with assms show ?thesis by (auto simp: ws_connect_def decode_token_def entitled_def)
  next
    case (Some payload)
    show ?thesis
    proof (cases "dget payload ''sub''")
      case None
      with Some assms show ?thesis by (auto simp: ws_connect_def decode_token_def entitled_def)
    next
      case sub: (Some uid)
      from assms Some sub obtain w1 i where p: "get_pool env (tick w) = (Inr (), w1)" and i: "uuid_of sid = Inr i"
        by (auto simp: ws_connect_def decode_token_def abind_Inr)
      from pool [OF p] have k: "w_db w1 = w_db w" "w_frames w1 = w_frames w" by simp_all
      from assms Some sub p i k have q: "(case find_session (w_db w) i of
               None \<Rightarrow> aret None
             | Some s \<Rightarrow>
                 if JStr (uuid_str (se_user_id s)) \<noteq> uid then aret None
                 else if se_status s \<noteq> ''pending'' then aret None
                 else abind (send_frame [(''type'', JStr ''connected''), (''session_id'', JStr sid)]) (\<lambda>_.
                      aret (Some \<lparr>cn_session_id = sid, cn_user_id = uuid_str (se_user_id s), cn_goal = JStr (se_goal s),
                                  cn_started = False, cn_open = True\<rparr>))) (tick w1) = (Inr r, w')"
        by (auto simp: ws_connect_def decode_token_def abind_Inr pg_query_Inr)
      show ?thesis
      proof (cases "find_session (w_db w) i")
        case None
        with q k i show ?thesis by (auto simp: entitled_def)
      next
        case s: (Some s)
        have e: "entitled env sid token w x \<longleftrightarrow> x = s \<and> uid = JStr (uuid_str (se_user_id s)) \<and> se_status s = ''pending''" for x
          using s Some sub i by (auto simp: entitled_def)
        from q k s show ?thesis
          by (auto simp: send_frame_def abind_def e split: if_splits)
      qed
    qed
  qed
qed

lemma ws_connect_result:
  assumes "ws_connect env sid token w = (Inr (Some c), w')"
  obtains i s where "w_db w' = w_db w" "uuid_of sid = Inr i" "find_session (w_db w) i = Some s" "se_status s = ''pending''"
    "c = \<lparr>cn_session_id = sid, cn_user_id = uuid_str (se_user_id s), cn_goal = JStr (se_goal s), cn_started = False, cn_open = True\<rparr>"
  using ws_connect_decides [OF assms] that by (auto simp: entitled_def)

text \<open>With the database up and an identifier in the path, the handshake comes to a decision.\<close>

lemma ws_connect_returns:
  assumes "pg_up env" "uuid_of sid = Inr i"
  shows "\<exists>r w'. ws_connect env sid token w = (Inr r, w')"
proof (cases "e_jwt_decode env (now env w) token (jwt_secret (e_settings env)) (jwt_algorithm (e_settings env))")
  case (Some payload)
  obtain w1 where p: "get_pool env (tick w) = (Inr (), w1)" using up_pool [OF assms(1)] by blast
  from Some p assms(2) show ?thesis
    by (simp add: ws_connect_def decode_token_def abind_lift up_query [OF assms(1)] send_frame_def abind_def
        split: option.split)
qed (simp add: ws_connect_def decode_token_def)

lemma kept_connect: "act_keeps db_kept (ws_connect env sid token)"
proof -
  have "act_keeps db_kept (abind (get_pool env) (\<lambda>_.
             abind (alift (uuid_of sid)) (\<lambda>i.
             abind (pg_query env (\<lambda>db. find_session db i)) (\<lambda>row. case row of
               None \<Rightarrow> aret None
             | Some s \<Rightarrow>
                 if JStr (uuid_str (se_user_id s)) \<noteq> uid then aret None
                 else if se_status s \<noteq> ''pending'' then aret None
                 else abind (send_frame [(''type'', JStr ''connected''), (''session_id'', JStr sid)]) (\<lambda>_.
                      aret (Some \<lparr>cn_session_id = sid, cn_user_id = uuid_str (se_user_id s), cn_goal = JStr (se_goal s),
                                  cn_started = False, cn_open = True\<rparr>))))))" for uid
    by (intro db_frame.keeps_abind kept_get_pool kept_query kept_send keeps_option keeps_if db_frame.keeps_aret db_frame.keeps_alift)
  then show ?thesis
    unfolding act_keeps_def ws_connect_def
    by (auto simp: decode_token_def db_kept_def split: option.split)
qed

section \<open>Properties\<close>


definition seven :: string where "seven = uuid_str 7"

lemma seven_ok: "uuid_of seven = Inr 7"
  unfolding seven_def by (rule uuid_of_str) simp

definition ws_world :: "string \<Rightarrow> world" where
  "ws_world st = fresh_world\<lparr>w_db := one_session st None\<rparr>"

lemma ws_world_session: "\<exists>s. find_session (w_db (ws_world st)) 7 = Some s \<and> se_status s = st \<and> se_user_id s = 1"
  by (simp add: ws_world_def find_session_def one_session_def)

lemma idle_up: "pg_up idle_env"
  by (simp add: pg_up_def idle_env_def calm_env_def)

lemma owner_entitled:
  "\<exists>s. entitled idle_env seven (plain_encode (uuid_str 1) 100 0 [] []) (ws_world ''pending'') s \<and> se_user_id s = 1"
proof -
  let ?t = "plain_encode (uuid_str 1) 100 0 [] []"
  have enc: "e_jwt_encode idle_env = (\<lambda>sub u i k a. plain_encode sub u i [] [])"
    by (simp add: idle_env_def calm_env_def plain_encode_def fun_eq_iff)
  have tm: "now idle_env (ws_world st) = 0" for st
    by (simp add: now_def idle_env_def calm_env_def ws_world_def fresh_world_def)
  have "jwt_law idle_env" by (simp add: idle_env_def calm_laws)
  from this [unfolded jwt_law_def enc, rule_format, of 0 "uuid_str 1" 100 0]
  have dec: "e_jwt_decode idle_env (now idle_env (ws_world ''pending'')) ?t (jwt_secret (e_settings idle_env)) (jwt_algorithm (e_settings idle_env))
      = Some [(''sub'', JStr (uuid_str 1)), (''exp'', JInt 100), (''iat'', JInt 0)]" by (simp add: tm)
  obtain s where s: "find_session (w_db (ws_world ''pending'')) 7 = Some s" "se_status s = ''pending''" "se_user_id s = 1"
    using ws_world_session by blast
  from dec s show ?thesis by (intro exI [of _ s]) (simp add: entitled_def seven_ok)
qed

lemma owner_connects:
  "\<exists>c w'. ws_connect idle_env seven (plain_encode (uuid_str 1) 100 0 [] []) (ws_world ''pending'') = (Inr (Some c), w')"
proof -
  obtain r w' where m: "ws_connect idle_env seven (plain_encode (uuid_str 1) 100 0 [] []) (ws_world ''pending'') = (Inr r, w')"
    using ws_connect_returns [OF idle_up seven_ok] by blast
  from ws_connect_decides [OF m] owner_entitled m show ?thesis by (cases r) auto
qed




text \<open>C26: The results of a run are lost. The stream hands the task only what the output node returned, so a
  completed session is stored with quality zero and no iterations, whatever the reflector
  reported on the way, and the last frame carries an empty output and a score of zero.\<close>

theorem ws_results_lost:
  assumes "pg_up env" "uuid_of sid = Inr i" "find_session (w_db w) i = Some s" "se_final_output s = None"
    and "run_task env sid uid 18 (Spawned goal) w = (r, w')"
  shows "\<exists>s' f. find_session (w_db w') i = Some s' \<and> last (w_frames w') = f
    \<and> (se_status s' = ''completed'' \<longrightarrow> se_final_quality s' = Some (Fin 0) \<and> se_iteration_count s' = 0
         \<and> dget f ''output'' = Some (JObj []) \<and> dget f ''final_score'' = Some (JFloat (Fin 0)))
    \<and> (se_final_output s' \<noteq> None \<longleftrightarrow> se_status s' = ''completed'')"
proof -
  from task_alone [OF assms(1-3), of uid goal] assms(5) obtain fs f s' ok where
    a: "w_frames w' = w_frames w @ fs @ [f]" "find_session (w_db w') i = Some s'" and b: "ended_as ok f s s'" by auto
  from a(1) have "last (w_frames w') = f" by simp
  with a(2) b assms(4) show ?thesis
    by (intro exI [of _ s'] exI [of _ f]) (auto simp: done_frame_def ended_as_def split: if_splits)
qed

theorem ws_results_lost_witness:
  "\<exists>s'. find_session (w_db (snd (run_task idle_env seven (uuid_str 1) 18 (Spawned (JStr ''g'')) (ws_world ''pending'')))) 7 = Some s'
     \<and> (se_status s' = ''completed'' \<longrightarrow> se_final_quality s' = Some (Fin 0))"
proof -
  obtain s where s: "find_session (w_db (ws_world ''pending'')) 7 = Some s" "se_final_output s = None"
    by (simp add: ws_world_def find_session_def one_session_def)
  obtain r w' where m: "run_task idle_env seven (uuid_str 1) 18 (Spawned (JStr ''g'')) (ws_world ''pending'') = (r, w')" by fastforce
  from ws_results_lost [OF idle_up seven_ok s m] m show ?thesis by auto
qed

text \<open>C14: However the socket's loop and the tasks interleave, a connection starts at most one task, works for
  the session and user it was opened for, and touches that session only: other sessions,
  accounts and the audit log stay as they are, and the schema's constraints are kept.\<close>

theorem ws_system_confined:
  assumes "uuid_of (cn_session_id c0) = Inr i" "\<not> cn_started c0" "(ws_step env)\<^sup>*\<^sup>* (c0, [], w0) (c, ts, w)"
  shows "length ts \<le> 1 \<and> (cn_started c \<longleftrightarrow> ts \<noteq> [])
    \<and> cn_session_id c = cn_session_id c0 \<and> cn_user_id c = cn_user_id c0
    \<and> (db_ok (w_db w0) \<longrightarrow> db_ok (w_db w)) \<and> db_users (w_db w) = db_users (w_db w0) \<and> db_audit (w_db w) = db_audit (w_db w0)
    \<and> (\<forall>j. j \<noteq> i \<longrightarrow> find_session (w_db w) j = find_session (w_db w0) j)"
  using ws_reach [OF assms] only_sessionD [of i w0 w] by (auto simp: ws_inv_def one_task_def)

definition ws_conn :: connection where
  "ws_conn = \<lparr>cn_session_id = seven, cn_user_id = uuid_str 1, cn_goal = JStr ''g'', cn_started = False, cn_open = True\<rparr>"

lemma ws_conn_ok: "uuid_of (cn_session_id ws_conn) = Inr 7" "\<not> cn_started ws_conn" "cn_open ws_conn"
  by (simp_all add: ws_conn_def seven_ok)

definition ws_conn_on :: connection where
  "ws_conn_on = ws_conn\<lparr>cn_started := True\<rparr>"

lemma start_reads: "loads (dumps default_opts (JObj [(''type'', JStr ''start'')])) = Inr (JObj [(''type'', JStr ''start'')])"
  by code_simp

lemma ws_started:
  "(ws_step idle_env)\<^sup>*\<^sup>* (ws_conn, [], ws_world ''pending'') (ws_conn_on, [Spawned (JStr ''g'')], ws_world ''pending'')"
proof -
  have "ws_receive idle_env ws_conn [] (Received (dumps default_opts (JObj [(''type'', JStr ''start'')]))) (ws_world ''pending'')
      = (Inr (ws_conn_on, [Spawned (JStr ''g'')]), ws_world ''pending'')"
    by (simp add: ws_receive_def abind_lift start_reads handle_frame_def dget_or_def acatch_def Let_def start_goal_def
        ws_conn_on_def ws_conn_def del: dumps.simps)
  from ws_step.receive [OF ws_conn_ok(3) this] show ?thesis by (rule r_into_rtranclp)
qed

theorem ws_system_confined_witness:
  "\<exists>t w. (ws_step idle_env)\<^sup>*\<^sup>* (ws_conn, [], ws_world ''pending'') (ws_conn_on, [t], w)
     \<and> length [t] \<le> 1 \<and> db_users (w_db w) = db_users (w_db (ws_world ''pending''))"
  using ws_system_confined [OF ws_conn_ok(1,2) ws_started] ws_started
  by (intro exI [of _ "Spawned (JStr ''g'')"] exI [of _ "ws_world ''pending''"]) simp

text \<open>C27: An abort during a run does not last. Wherever the task of a connection is, an abort frame marks the
  session aborted and closes the socket, but leaves the task where it was; left alone, with the
  database up, it runs on to its end, and the session is then completed or failed, and not aborted:
  completed when the graph was over, and failed when an agent had raised.\<close>

theorem ws_abort_overwritten:
  assumes "pg_up env" "uuid_of (cn_session_id c0) = Inr i" "\<not> cn_started c0" "find_session (w_db w0) i = Some s0"
    and "(ws_step env)\<^sup>*\<^sup>* (c0, [], w0) (c, [t], w)" "cn_open c" "t \<noteq> Ended"
    and "loads raw = Inr (JObj d)" "dget d ''type'' = Some (JStr ''abort'')"
  shows "\<exists>w1 s1 w2 s2. ws_receive env c [t] (Received raw) w = (Inr (c\<lparr>cn_open := False\<rparr>, [t]), w1)
    \<and> find_session (w_db w1) i = Some s1 \<and> se_status s1 = ''aborted''
    \<and> run_task env (cn_session_id c) (cn_user_id c) 18 t w1 = (Inr Ended, w2)
    \<and> (ws_step env)\<^sup>*\<^sup>* (c\<lparr>cn_open := False\<rparr>, [t], w1) (c\<lparr>cn_open := False\<rparr>, [Ended], w2)
    \<and> find_session (w_db w2) i = Some s2 \<and> se_status s2 \<in> {''completed'', ''failed''}
    \<and> (\<forall>u. t = Finalising u \<longrightarrow> se_status s2 = ''completed'') \<and> (\<forall>e. t = FailedWith e \<longrightarrow> se_status s2 = ''failed'')"
proof -
  let ?c1 = "c\<lparr>cn_open := False\<rparr>" and ?w1 = "tick (w\<lparr>w_db := row_update i (set_status ''aborted'') (w_db w)\<rparr>)"
  from ws_reach [OF assms(2,3,5)] assms(2) have i: "uuid_of (cn_session_id c) = Inr i" and ok: "task_ok t" and o: "only_session i w0 w"
    by (auto simp: ws_inv_def)
  from only_sessionD(5) [OF o assms(4)] obtain s where s: "find_session (w_db w) i = Some s" by blast
  from up_update [OF assms(1), of "\<lambda>t s. se_id s = i" "\<lambda>t. set_status ''aborted''" w]
  obtain tag where u: "pg_set_status env i ''aborted'' w = (Inr tag, ?w1)"
    unfolding pg_set_status_def row_update_def by blast
  have "handle_frame env c [t] d w = (Inr (?c1, [t]), ?w1)"
    using u by (simp add: handle_frame_def dget_or_def i assms(9) abind_lift)
  then have r: "ws_receive env c [t] (Received raw) w = (Inr (?c1, [t]), ?w1)"
    by (simp add: ws_receive_def assms(8) abind_lift acatch_def)
  have s1: "find_session (w_db ?w1) i = Some (set_status ''aborted'' s)" using s by (simp add: find_row_update)
  from task_finishes [OF assms(1) i s1 ok assms(7), of "cn_user_id c"] obtain w2 s2 fin f where
    e: "run_task env (cn_session_id c) (cn_user_id c) 18 t ?w1 = (Inr Ended, w2)" "find_session (w_db w2) i = Some s2"
      "ended_as fin f (set_status ''aborted'' s) s2" "\<forall>u. t = Finalising u \<longrightarrow> fin" "\<forall>e. t = FailedWith e \<longrightarrow> \<not> fin" by blast
  from e(1) have "(ws_step env)\<^sup>*\<^sup>* (?c1, [t], ?w1) (?c1, [Ended], w2)" using run_task_steps [of env ?c1 18] by simp
  with r s1 e show ?thesis
    by (intro exI [of _ ?w1] exI [of _ "set_status ''aborted'' s"] exI [of _ w2] exI [of _ s2])
       (auto simp: ended_as_def split: if_splits)
qed

theorem ws_abort_overwritten_witness:
  "\<exists>w2 s2. (ws_step idle_env)\<^sup>*\<^sup>* (ws_conn, [], ws_world ''pending'') (ws_conn_on\<lparr>cn_open := False\<rparr>, [Ended], w2)
     \<and> find_session (w_db w2) 7 = Some s2 \<and> se_status s2 \<noteq> ''aborted''"
proof -
  obtain s where s: "find_session (w_db (ws_world ''pending'')) 7 = Some s" using ws_world_session by blast
  have l: "loads (dumps default_opts (JObj [(''type'', JStr ''abort'')])) = Inr (JObj [(''type'', JStr ''abort'')])" by code_simp
  have o: "cn_open ws_conn_on" by (simp add: ws_conn_on_def ws_conn_def)
  from ws_abort_overwritten [OF idle_up ws_conn_ok(1,2) s ws_started o _ l] obtain w1 w2 s2 where
    r: "ws_receive idle_env ws_conn_on [Spawned (JStr ''g'')] (Received (dumps default_opts (JObj [(''type'', JStr ''abort'')])))
      (ws_world ''pending'') = (Inr (ws_conn_on\<lparr>cn_open := False\<rparr>, [Spawned (JStr ''g'')]), w1)"
    and rest: "(ws_step idle_env)\<^sup>*\<^sup>* (ws_conn_on\<lparr>cn_open := False\<rparr>, [Spawned (JStr ''g'')], w1)
      (ws_conn_on\<lparr>cn_open := False\<rparr>, [Ended], w2)"
    "find_session (w_db w2) 7 = Some s2" "se_status s2 \<in> {''completed'', ''failed''}" by auto
  have "se_status s2 \<noteq> ''aborted''" using rest(3) by auto
  with ws_started ws_step.receive [OF o r] rest show ?thesis by (meson rtranclp.rtrancl_into_rtrancl rtranclp_trans)
qed

end
