(* ===== verification/Evaluation.thy ===== *)
theory Evaluation
  imports WsRun
begin

text \<open>
  The accuracy evaluation (\<open>scripts/eval_accuracy.py\<close>), a client of the service: it signs in, runs
  six goals over the web socket one after the other, reads the frames of each run, and reports
  which reach the threshold. The HTTP client and the socket are parameters; a socket that falls
  silent without closing makes the script wait for ever, which is \<open>None\<close>.
\<close>

section \<open>Cases and results\<close>

record eval_case =
  ec_name :: string
  ec_goal :: string
  ec_category :: string
  ec_expected_output_type :: string

record eval_result =
  vr_case :: eval_case
  vr_quality_score :: json
  vr_iterations :: json
  vr_elapsed_s :: rat
  vr_disclaimer :: json
  vr_error :: "string option"

definition pass_threshold :: pyfloat where "pass_threshold = mk_float (85 / 100)"
definition ws_timeout :: rat where "ws_timeout = 300"

definition eval_cases :: "eval_case list" where
  "eval_cases =
    [\<lparr>ec_name = ''research_llm_benchmarks'',
      ec_goal = ''Summarise the current state of LLM reasoning benchmarks (MMLU, MATH, HumanEval) and rank the top 5 models as of 2024.'',
      ec_category = ''research'', ec_expected_output_type = ''research''\<rparr>,
     \<lparr>ec_name = ''code_binary_search'',
      ec_goal = ''Write a well-tested Python implementation of binary search on a sorted list, including edge cases for empty lists and single elements.'',
      ec_category = ''code'', ec_expected_output_type = ''code''\<rparr>,
     \<lparr>ec_name = ''analysis_openai_vs_anthropic'',
      ec_goal = ''Compare OpenAI and Anthropic on safety approach, product strategy, and commercial traction. Provide a structured analysis with a recommendation.'',
      ec_category = ''analysis'', ec_expected_output_type = ''analysis''\<rparr>,
     \<lparr>ec_name = ''writing_cover_letter'',
      ec_goal = ''Write a professional cover letter for a Senior Software Engineer applying to a fintech startup that builds trading infrastructure.'',
      ec_category = ''writing'', ec_expected_output_type = ''writing''\<rparr>,
     \<lparr>ec_name = ''multi_step_data_pipeline'',
      ec_goal = ''Design and implement a Python data pipeline that reads a CSV of sales records, computes monthly revenue totals, and outputs a markdown report.'',
      ec_category = ''multi_step'', ec_expected_output_type = ''code''\<rparr>,
     \<lparr>ec_name = ''cross_session_memory'',
      ec_goal = ''Build a simple recommendation engine in Python that uses collaborative filtering on a user-item matrix.'',
      ec_category = ''cross_session_memory'', ec_expected_output_type = ''code''\<rparr>]"

text \<open>\<open>x >= 0.85\<close> for a decoded value; integers compare exactly.\<close>

fun at_least :: "json \<Rightarrow> pyfloat \<Rightarrow> bool result" where
  "at_least (JFloat x) y = Inr (flt_le y x)"
| "at_least (JInt i) y = Inr (flt_le y (Fin (of_int i)))"
| "at_least (JBool b) y = Inr (flt_le y (Fin (if b then 1 else 0)))"
| "at_least j y = Inl (Exn TypeError (py_repr ''>='' @ '' not supported between instances of '' @ py_repr (type_name j)
     @ '' and '' @ py_repr ''float''))"

definition passed :: "eval_result \<Rightarrow> bool result" where
  "passed r = (if vr_error r \<noteq> None then Inr False else at_least (vr_quality_score r) pass_threshold)"

definition has_error :: "eval_result \<Rightarrow> bool" where
  "has_error r = (case vr_error r of None \<Rightarrow> False | Some e \<Rightarrow> e \<noteq> [])"

definition status_word :: "eval_result \<Rightarrow> string result" where
  "status_word r = rbind (passed r) (\<lambda>p. Inr (if p then ''PASS'' else if has_error r then ''ERROR'' else ''FAIL''))"

section \<open>Reading the frames of a run\<close>

record ws_result =
  wr_quality_score :: json
  wr_iterations :: json
  wr_disclaimer :: json

definition no_result :: ws_result where
  "no_result = \<lparr>wr_quality_score = JFloat (Fin 0), wr_iterations = JInt 0, wr_disclaimer = JNull\<rparr>"

text \<open>One frame: whether it was the last, and the result so far; an error frame raises.\<close>

definition on_frame :: "ws_result \<Rightarrow> json dict \<Rightarrow> (bool \<times> ws_result) result" where
  "on_frame r frame =
     (let ftype = dget_or frame ''type'' (JStr []) in
      if ftype = JStr ''quality_score''
      then Inr (False, r\<lparr>wr_quality_score := dget_or frame ''score'' (JFloat (Fin 0))\<rparr>)
      else if ftype = JStr ''replan''
      then Inr (False, r\<lparr>wr_iterations := dget_or frame ''iteration'' (wr_iterations r)\<rparr>)
      else if ftype = JStr ''done''
      then Inr (True, r\<lparr>wr_iterations := dget_or frame ''iteration'' (wr_iterations r),
                        wr_disclaimer := dget_or frame ''disclaimer'' JNull\<rparr>)
      else if ftype = JStr ''error''
      then Inl (Exn RuntimeError (py_str (dget_or frame ''message'' (JStr ''unknown error''))))
      else Inr (False, r))"

definition on_raw :: "ws_result \<Rightarrow> string \<Rightarrow> (bool \<times> ws_result) result" where
  "on_raw r raw = rbind (loads raw) (\<lambda>frame. case frame of
       JObj d \<Rightarrow> on_frame r d
     | v \<Rightarrow> Inl (no_attribute v ''get''))"

text \<open>What comes over a socket: messages with the time each is taken up, and then its end.\<close>

datatype stream_end = ClosedNormally | ClosedWith pyexn | Silent

definition ws_timed_out :: pyexn where
  "ws_timed_out = Exn TimeoutError ''WebSocket timed out after 300s''"

fun read_frames :: "rat \<Rightarrow> (rat \<times> string) list \<Rightarrow> stream_end \<Rightarrow> ws_result \<Rightarrow> ws_result result option" where
  "read_frames deadline [] fin r = (case fin of
       ClosedNormally \<Rightarrow> Some (Inr r) | ClosedWith e \<Rightarrow> Some (Inl e) | Silent \<Rightarrow> None)"
| "read_frames deadline ((t, raw) # rest) fin r =
     (if deadline < t then Some (Inl ws_timed_out)
      else case on_raw r raw of
        Inl e \<Rightarrow> Some (Inl e)
      | Inr (final, r') \<Rightarrow> if final then Some (Inr r') else read_frames deadline rest fin r')"

section \<open>The script\<close>

text \<open>The HTTP client posts a body with headers and returns a status and the decoded answer; the
  socket takes the first message and streams; the clock is the monotonic one.\<close>

record eval_host =
  ev_post :: "nat \<Rightarrow> string \<Rightarrow> json \<Rightarrow> string dict \<Rightarrow> (int \<times> json result) result"
  ev_status_text :: "int \<Rightarrow> string \<Rightarrow> string"
  ev_socket :: "nat \<Rightarrow> string \<Rightarrow> string \<Rightarrow> ((rat \<times> string) list \<times> stream_end) result"
  ev_monotonic :: "nat \<Rightarrow> rat"

type_synonym 'a run = "nat \<Rightarrow> ('a result \<times> nat) option"

definition ev_ret :: "'a \<Rightarrow> 'a run" where "ev_ret x = (\<lambda>n. Some (Inr x, n))"
definition ev_lift :: "'a result \<Rightarrow> 'a run" where "ev_lift r = (\<lambda>n. Some (r, n))"

definition ev_bind :: "'a run \<Rightarrow> ('a \<Rightarrow> 'b run) \<Rightarrow> 'b run" where
  "ev_bind m f = (\<lambda>n. case m n of
       None \<Rightarrow> None | Some (Inl e, n1) \<Rightarrow> Some (Inl e, n1) | Some (Inr x, n1) \<Rightarrow> f x n1)"

definition ev_clock :: "eval_host \<Rightarrow> rat run" where
  "ev_clock h = (\<lambda>n. Some (Inr (ev_monotonic h n), Suc n))"

definition post :: "eval_host \<Rightarrow> string \<Rightarrow> json \<Rightarrow> string dict \<Rightarrow> (int \<times> json result) run" where
  "post h url body headers = (\<lambda>n. Some (ev_post h n url body headers, Suc n))"

definition raise_for_status :: "eval_host \<Rightarrow> string \<Rightarrow> int \<Rightarrow> unit result" where
  "raise_for_status h url n = (if 200 \<le> n \<and> n < 300 then Inr () else Inl (Exn OtherError (ev_status_text h n url)))"

text \<open>\<open>j[key]\<close>\<close>

definition json_item :: "json \<Rightarrow> string \<Rightarrow> json result" where
  "json_item j key = (case j of
       JObj d \<Rightarrow> (case dget d key of Some v \<Rightarrow> Inr v | None \<Rightarrow> Inl (Exn KeyError (py_repr key)))
     | JStr s \<Rightarrow> Inl (Exn TypeError (''string indices must be integers, not '' @ py_repr ''str''))
     | JArr xs \<Rightarrow> Inl (Exn TypeError (''list indices must be integers or slices, not str''))
     | v \<Rightarrow> Inl (Exn TypeError (py_repr (type_name v) @ '' object is not subscriptable'')))"

definition register_or_login :: "eval_host \<Rightarrow> string \<Rightarrow> string \<Rightarrow> string \<Rightarrow> json run" where
  "register_or_login h base email password =
     (let credentials = JObj [(''email'', JStr email), (''password'', JStr password)];
          register_url = base @ ''/api/v1/auth/register''; login_url = base @ ''/api/v1/auth/login''
      in ev_bind (post h register_url credentials []) (\<lambda>resp1.
         ev_bind (if fst resp1 = 409
                  then ev_bind (post h login_url credentials []) (\<lambda>resp2. ev_ret (login_url, resp2))
                  else ev_ret (register_url, resp1)) (\<lambda>(url, code, body).
         ev_bind (ev_lift (raise_for_status h url code)) (\<lambda>_.
         ev_lift (rbind body (\<lambda>j. json_item j ''access_token''))))))"

definition post_session :: "eval_host \<Rightarrow> string \<Rightarrow> json \<Rightarrow> string \<Rightarrow> json run" where
  "post_session h base token goal =
     (let url = base @ ''/api/v1/sessions'' in
      ev_bind (post h url (JObj [(''goal'', JStr goal)]) [(''Authorization'', ''Bearer '' @ py_str token)]) (\<lambda>(code, body).
      ev_bind (ev_lift (raise_for_status h url code)) (\<lambda>_.
      ev_lift (rbind body (\<lambda>j. json_item j ''session_id'')))))"

definition socket_uri :: "string \<Rightarrow> json \<Rightarrow> json \<Rightarrow> string" where
  "socket_uri base token sid =
     replace_str ''https://'' ''wss://'' (replace_str ''http://'' ''ws://'' base)
       @ ''/ws/run/'' @ py_str sid @ ''?token='' @ py_str token"

definition run_via_ws :: "eval_host \<Rightarrow> string \<Rightarrow> json \<Rightarrow> json \<Rightarrow> string \<Rightarrow> ws_result run" where
  "run_via_ws h base token sid goal = (\<lambda>n.
     case ev_socket h n (socket_uri base token sid) (dumps default_opts (JObj [(''type'', JStr ''start''), (''goal'', JStr goal)])) of
       Inl e \<Rightarrow> Some (Inl e, Suc n)
     | Inr (frames, fin) \<Rightarrow>
         map_option (\<lambda>r. (r, Suc (Suc n))) (read_frames (fl (ev_monotonic h (Suc n) + ws_timeout)) frames fin no_result))"

definition result_of :: "eval_case \<Rightarrow> rat \<Rightarrow> ws_result result \<Rightarrow> eval_result" where
  "result_of c elapsed r = (case r of
       Inl e \<Rightarrow> \<lparr>vr_case = c, vr_quality_score = JFloat (Fin 0), vr_iterations = JInt 0, vr_elapsed_s = elapsed,
                vr_disclaimer = JNull, vr_error = Some (exn_str e)\<rparr>
     | Inr ws \<Rightarrow> \<lparr>vr_case = c, vr_quality_score = wr_quality_score ws, vr_iterations = wr_iterations ws,
                vr_elapsed_s = elapsed, vr_disclaimer = wr_disclaimer ws, vr_error = None\<rparr>)"

definition eval_one_case :: "eval_host \<Rightarrow> string \<Rightarrow> json \<Rightarrow> eval_case \<Rightarrow> eval_result run" where
  "eval_one_case h base token c =
     ev_bind (ev_clock h) (\<lambda>t0. \<lambda>n.
     case ev_bind (post_session h base token (ec_goal c)) (\<lambda>sid. run_via_ws h base token sid (ec_goal c)) n of
       None \<Rightarrow> None
     | Some (r, n1) \<Rightarrow> ev_bind (ev_clock h) (\<lambda>t1. ev_ret (result_of c (fl (t1 - t0)) r)) n1)"

text \<open>The loop prints the status of each case before the next one starts.\<close>

fun run_cases :: "eval_host \<Rightarrow> string \<Rightarrow> json \<Rightarrow> eval_case list \<Rightarrow> eval_result list run" where
  "run_cases h base token [] = ev_ret []"
| "run_cases h base token (c # cs) =
     ev_bind (eval_one_case h base token c) (\<lambda>r.
     ev_bind (ev_lift (status_word r)) (\<lambda>_.
     ev_bind (run_cases h base token cs) (\<lambda>rs. ev_ret (r # rs))))"

section \<open>The report\<close>

definition pad_right :: "nat \<Rightarrow> string \<Rightarrow> string" where
  "pad_right n s = s @ replicate (n - length s) CHR '' ''"

definition pad_left :: "nat \<Rightarrow> string \<Rightarrow> string" where
  "pad_left n s = replicate (n - length s) CHR '' '' @ s"

text \<open>\<open>{x:.3f}\<close> for a decoded value.\<close>

definition format_score :: "json \<Rightarrow> string result" where
  "format_score j = (case j of
       JFloat x \<Rightarrow> Inr (format_fixed 3 x)
     | JInt i \<Rightarrow> rbind (py_float j) (\<lambda>x. Inr (format_fixed 3 x))
     | JBool b \<Rightarrow> rbind (py_float j) (\<lambda>x. Inr (format_fixed 3 x))
     | JStr s \<Rightarrow> Inl (Exn ValueError (''Unknown format code '' @ py_repr ''f'' @ '' for object of type '' @ py_repr ''str''))
     | v \<Rightarrow> Inl (Exn TypeError (''unsupported format string passed to '' @ type_name v @ ''.__format__'')))"

definition columns :: "string \<Rightarrow> string \<Rightarrow> string \<Rightarrow> string \<Rightarrow> string \<Rightarrow> string \<Rightarrow> string" where
  "columns name cat score itr time st = pad_right 30 name @ '' '' @ pad_right 18 cat @ '' '' @ pad_left 7 score @ '' ''
     @ pad_left 4 itr @ '' '' @ pad_left 7 time @ '' '' @ pad_left 8 st"

definition result_lines :: "eval_result \<Rightarrow> string list result" where
  "result_lines r =
     rbind (status_word r) (\<lambda>st.
     rbind (if has_error r then Inr ''  N/A'' else format_score (vr_quality_score r)) (\<lambda>score.
     Inr ([columns (ec_name (vr_case r)) (ec_category (vr_case r)) score
             (if has_error r then ''-'' else py_str (vr_iterations r)) (format_fixed 1 (Fin (vr_elapsed_s r)) @ ''s'') st]
          @ (if truthy (vr_disclaimer r) then [''  '' @ pad_left 30 [] @ '' disclaimer: '' @ py_str (vr_disclaimer r)] else [])
          @ (if has_error r then [''  '' @ pad_left 30 [] @ '' error: '' @ or_else (vr_error r) []] else []))))"

definition report :: "eval_result list \<Rightarrow> string list result" where
  "report results =
     rbind (rmap result_lines results) (\<lambda>rows.
     rbind (rmap passed results) (\<lambda>ps.
     let header = columns ''Case'' ''Category'' ''Score'' ''Itr'' ''Time(s)'' ''Status'';
         sep = replicate (length header) CHR ''-''
     in Inr ([nl @ sep, ''  Project Nexus '' @ dash @ '' Accuracy Evaluation Report'', sep, header, sep] @ concat rows
        @ [sep, ''  Result: '' @ str_of_nat (length (filter id ps)) @ ''/'' @ str_of_nat (length results)
             @ '' passed  (threshold: quality >= 0.85)'', sep @ nl])))"

definition eval_main :: "eval_host \<Rightarrow> string \<Rightarrow> string \<Rightarrow> string \<Rightarrow> (int \<times> eval_result list) run" where
  "eval_main h base email password =
     ev_bind (register_or_login h base email password) (\<lambda>token.
     ev_bind (run_cases h base token eval_cases) (\<lambda>results.
     ev_bind (ev_lift (report results)) (\<lambda>_.
     ev_bind (ev_lift (rmap passed results)) (\<lambda>ps.
     ev_ret (if list_all id ps then 0 else 1, results)))))"

section \<open>What the frames add up to\<close>

definition last_score :: "json dict list \<Rightarrow> json \<Rightarrow> json" where
  "last_score fs dflt = (case filter (\<lambda>f. frame_type f = ''quality_score'') fs of
       [] \<Rightarrow> dflt
     | q # qs \<Rightarrow> dget_or (last (q # qs)) ''score'' (JFloat (Fin 0)))"

lemma last_score_simps [simp]:
  "last_score [] d = d"
  "last_score (f # fs) d = last_score fs (if frame_type f = ''quality_score'' then dget_or f ''score'' (JFloat (Fin 0)) else d)"
  by (simp add: last_score_def)
     (cases "filter (\<lambda>f. frame_type f = ''quality_score'') fs"; simp add: last_score_def)

lemma type_eq: "k \<noteq> [] \<Longrightarrow> dget_or f ''type'' (JStr []) = JStr k \<longleftrightarrow> frame_type f = k"
  by (auto simp: dget_or_def frame_type_def split: option.split json.split)

definition over :: "string list" where "over = [''done'', ''error'']"

lemma on_frame_mid:
  assumes "frame_type f \<notin> set over"
  shows "\<exists>r'. on_frame r f = Inr (False, r') \<and> wr_disclaimer r' = wr_disclaimer r
    \<and> wr_quality_score r' = (if frame_type f = ''quality_score'' then dget_or f ''score'' (JFloat (Fin 0)) else wr_quality_score r)
    \<and> (frame_type f \<noteq> ''replan'' \<longrightarrow> wr_iterations r' = wr_iterations r)"
  using assms by (simp add: on_frame_def type_eq over_def Let_def)

text \<open>Messages that arrive before the deadline and stand for these frames.\<close>

definition carries :: "rat \<Rightarrow> (rat \<times> string) list \<Rightarrow> json dict list \<Rightarrow> bool" where
  "carries deadline ms fs \<longleftrightarrow> list_all2 (\<lambda>(t, raw) f. t \<le> deadline \<and> loads raw = Inr (JObj f)) ms fs"

lemma carries_simps [simp]:
  "carries deadline ms [] \<longleftrightarrow> ms = []"
  "carries deadline [] (f # fs) \<longleftrightarrow> False"
  "carries deadline ((t, raw) # ms) (f # fs) \<longleftrightarrow> t \<le> deadline \<and> loads raw = Inr (JObj f) \<and> carries deadline ms fs"
  by (simp_all add: carries_def)

text \<open>Frames sent as the server sends them arrive: \<open>loads\<close> reads what \<open>dumps\<close> wrote.\<close>

lemma carries_dumps:
  assumes "t \<le> deadline" "\<forall>f \<in> set fs. storable (JObj f)"
  shows "carries deadline (map (\<lambda>f. (t, dumps default_opts (JObj f))) fs) fs"
  using assms by (simp add: carries_def list_all2_map1 list.rel_refl_strong loads_dumps del: storable.simps dumps.simps)

lemma carries_append: "carries deadline ms (fs @ gs) \<longleftrightarrow> (\<exists>ms1 ms2. ms = ms1 @ ms2 \<and> carries deadline ms1 fs \<and> carries deadline ms2 gs)"
  unfolding carries_def list_all2_append2 by (auto dest: list_all2_lengthD)

text \<open>The frames before the last one only move the result along.\<close>

lemma read_mid:
  assumes "carries deadline ms fs" "\<forall>f \<in> set fs. frame_type f \<notin> set over"
  shows "\<exists>r'. read_frames deadline (ms @ rest) fin r = read_frames deadline rest fin r' \<and> wr_disclaimer r' = wr_disclaimer r
    \<and> wr_quality_score r' = last_score fs (wr_quality_score r)
    \<and> ((\<forall>f \<in> set fs. frame_type f \<noteq> ''replan'') \<longrightarrow> wr_iterations r' = wr_iterations r)"
  using assms
proof (induction fs arbitrary: ms r)
  case (Cons f fs)
  then obtain t raw ms' where ms: "ms = (t, raw) # ms'" "t \<le> deadline" "loads raw = Inr (JObj f)" "carries deadline ms' fs"
    by (cases ms) auto
  from Cons.prems(2) on_frame_mid [of f r] obtain r1 where r1: "on_frame r f = Inr (False, r1)" "wr_disclaimer r1 = wr_disclaimer r"
    "wr_quality_score r1 = (if frame_type f = ''quality_score'' then dget_or f ''score'' (JFloat (Fin 0)) else wr_quality_score r)"
    "frame_type f \<noteq> ''replan'' \<longrightarrow> wr_iterations r1 = wr_iterations r" by auto
  from Cons.prems(2) have mid: "\<forall>f \<in> set fs. frame_type f \<notin> set over" by simp
  from Cons.IH [OF ms(4) mid, of r1] obtain r' where r': "read_frames deadline (ms' @ rest) fin r1 = read_frames deadline rest fin r'"
    "wr_disclaimer r' = wr_disclaimer r1" "wr_quality_score r' = last_score fs (wr_quality_score r1)"
    "(\<forall>f \<in> set fs. frame_type f \<noteq> ''replan'') \<longrightarrow> wr_iterations r' = wr_iterations r1" by blast
  have "read_frames deadline (ms @ rest) fin r = read_frames deadline (ms' @ rest) fin r1"
    using ms(2,3) r1(1) by (simp add: ms(1) on_raw_def)
  with r' r1 show ?case by (intro exI [of _ r']) simp
qed auto

text \<open>A socket that closes without an error ends a run for the script, finished or not.\<close>

lemma read_unfinished:
  assumes "carries deadline ms fs" "\<forall>f \<in> set fs. frame_type f \<notin> set over"
  shows "\<exists>r. read_frames deadline ms ClosedNormally no_result = Some (Inr r)
    \<and> wr_quality_score r = last_score fs (JFloat (Fin 0))"
  using read_mid [OF assms, of "[]" ClosedNormally no_result] by (auto simp: no_result_def)

lemma reported_mid:
  assumes "reported v vs ok (map label fs)" "g \<in> set fs"
  shows "frame_type g \<notin> set over"
  using reported_types [OF assms(1), of "label g"] assms(2) by (auto simp: label_def over_def)

text \<open>The whole of a run: it ends in a result for a done frame and in an error for an error frame.\<close>

lemma read_run:
  assumes "reported v vs ok (map label fs)" "carries deadline ms (pre @ fs @ [f])" "\<forall>g \<in> set pre. frame_type g = ''connected''"
  shows "frame_type f = ''done'' \<Longrightarrow> \<exists>r. read_frames deadline ms fin no_result = Some (Inr r)
      \<and> wr_quality_score r = last_score fs (JFloat (Fin 0)) \<and> wr_disclaimer r = dget_or f ''disclaimer'' JNull"
    and "frame_type f = ''error'' \<Longrightarrow> read_frames deadline ms fin no_result
      = Some (Inl (Exn RuntimeError (py_str (dget_or f ''message'' (JStr ''unknown error'')))))"
proof -
  from assms(2) obtain ms1 t raw where ms: "ms = ms1 @ [(t, raw)]" "carries deadline ms1 (pre @ fs)" "t \<le> deadline"
    "loads raw = Inr (JObj f)"
    unfolding append_assoc [symmetric] carries_append [of _ _ "pre @ fs"] by (auto simp: carries_def list_all2_Cons2)
  have mid: "\<forall>g \<in> set (pre @ fs). frame_type g \<notin> set over"
    using reported_mid [OF assms(1)] assms(3) by (auto simp: over_def)
  have pre: "last_score (pre @ fs) d = last_score fs d" for d
    using assms(3) by (induction pre) auto
  from read_mid [OF ms(2) mid, of "[(t, raw)]" fin no_result] obtain r1 where r1:
    "read_frames deadline ms fin no_result = read_frames deadline [(t, raw)] fin r1"
    "wr_quality_score r1 = last_score fs (JFloat (Fin 0))" unfolding ms(1) pre by (auto simp: no_result_def)
  show "\<exists>r. read_frames deadline ms fin no_result = Some (Inr r) \<and> wr_quality_score r = last_score fs (JFloat (Fin 0))
      \<and> wr_disclaimer r = dget_or f ''disclaimer'' JNull" if "frame_type f = ''done''"
    using that ms(3,4) r1 by (simp add: on_raw_def on_frame_def type_eq Let_def)
  show "read_frames deadline ms fin no_result = Some (Inl (Exn RuntimeError (py_str (dget_or f ''message'' (JStr ''unknown error'')))))"
    if "frame_type f = ''error''"
    using that ms(3,4) r1 by (simp add: on_raw_def on_frame_def type_eq Let_def)
qed

section \<open>Runs of the script\<close>

lemma ev_bind_Inr: "ev_bind m f n = Some (Inr y, n2) \<longleftrightarrow> (\<exists>x n1. m n = Some (Inr x, n1) \<and> f x n1 = Some (Inr y, n2))"
  by (auto simp: ev_bind_def split: option.split prod.split sum.split)

lemma ev_simps [simp]: "ev_ret x n = Some (Inr x, n)" "ev_lift r n = Some (r, n)"
  by (simp_all add: ev_ret_def ev_lift_def)

lemma vr_case_result [simp]: "vr_case (result_of c elapsed r) = c"
  by (simp add: result_of_def split: sum.split)

lemma eval_one_case_Inr: "eval_one_case h base token c n = Some (Inr r, n') \<Longrightarrow> vr_case r = c"
  by (auto simp: eval_one_case_def ev_bind_Inr split: option.splits)

lemma run_cases_Inr: "run_cases h base token cs n = Some (Inr rs, n') \<Longrightarrow> map vr_case rs = cs"
  by (induction cs arbitrary: n rs n') (auto simp: ev_bind_Inr dest: eval_one_case_Inr)

lemma list_all_passed: "rmap passed rs = Inr ps \<Longrightarrow> list_all id ps \<longleftrightarrow> (\<forall>r \<in> set rs. passed r = Inr True)"
  by (induction rs arbitrary: ps) (auto simp: rbind_eq_Inr)

section \<open>Properties\<close>

text \<open>The exit code of the evaluation is honest. When the script ends, it has run the six cases in order,
  and it exits with 0 exactly when every one of them ended without an error and with a last
  score of at least 0.85; a missing or malformed score never counts as passed.\<close>

theorem eval_exit_code:
  assumes "eval_main h base email password n = Some (Inr (c, rs), n')"
  shows "map vr_case rs = eval_cases \<and> c \<in> {0, 1}
    \<and> (c = 0 \<longleftrightarrow> (\<forall>r \<in> set rs. vr_error r = None \<and> at_least (vr_quality_score r) pass_threshold = Inr True))"
proof -
  from assms obtain token n1 n2 ps where "run_cases h base token eval_cases n1 = Some (Inr rs, n2)" "rmap passed rs = Inr ps"
    "c = (if list_all id ps then 0 else 1)"
    by (auto simp: eval_main_def ev_bind_Inr)
  moreover have "passed r = Inr True \<longleftrightarrow> vr_error r = None \<and> at_least (vr_quality_score r) pass_threshold = Inr True" for r
    by (simp add: passed_def)
  ultimately show ?thesis using run_cases_Inr list_all_passed by (auto split: if_splits)
qed

definition down_host :: eval_host where
  "down_host = \<lparr>ev_post = \<lambda>n url body hs. if url = ''b/api/v1/auth/register'' then Inr (201, Inr (JObj [(''access_token'', JStr ''t'')]))
       else Inl (Exn OtherError ''down''),
     ev_status_text = \<lambda>n url. ''status'', ev_socket = \<lambda>n uri m. Inr ([], ClosedNormally), ev_monotonic = \<lambda>n. 0\<rparr>"

theorem eval_exit_code_witness:
  "\<exists>rs n'. eval_main down_host ''b'' ''e'' ''p'' 0 = Some (Inr (1, rs), n') \<and> map vr_case rs = eval_cases"
proof -
  have case_down: "eval_one_case down_host ''b'' token c n
      = Some (Inr (result_of c 0 (Inl (Exn OtherError ''down''))), n + 3)" for token c n
    by (simp add: eval_one_case_def ev_bind_def ev_clock_def post_session_def post_def down_host_def fl_0 Let_def)
  define err where "err c = result_of c 0 (Inl (Exn OtherError ''down''))" for c
  have failed: "passed (err c) = Inr False" "has_error (err c)" "truthy (vr_disclaimer (err c)) = False" for c
    by (simp_all add: err_def result_of_def passed_def has_error_def)
  have words: "status_word (err c) = Inr ''ERROR''" for c by (simp add: status_word_def failed)
  have run: "run_cases down_host ''b'' token cs n = Some (Inr (map err cs), n + 3 * length cs)" for token cs n
    by (induction cs arbitrary: n) (simp_all add: ev_bind_def case_down [folded err_def] words)
  have lines: "\<exists>ls. rmap result_lines (map err cs) = Inr ls" for cs
    by (induction cs) (auto simp: result_lines_def words failed)
  have pass: "rmap passed (map err cs) = Inr (map (\<lambda>_. False) cs)" for cs
    by (induction cs) (simp_all add: failed)
  obtain ls where "report (map err eval_cases) = Inr ls" using lines [of eval_cases] pass [of eval_cases]
    by (auto simp: report_def Let_def)
  moreover have "register_or_login down_host ''b'' ''e'' ''p'' 0 = Some (Inr (JStr ''t''), 1)"
    by (simp add: register_or_login_def ev_bind_def post_def down_host_def raise_for_status_def json_item_def Let_def)
  moreover have "\<not> list_all id (map (\<lambda>_. False) eval_cases)" by (simp add: eval_cases_def)
  ultimately have m: "eval_main down_host ''b'' ''e'' ''p'' 0 = Some (Inr (1, map err eval_cases), 1 + 3 * length eval_cases)"
    using run [of "JStr ''t''" eval_cases 1] pass [of eval_cases]
    by (simp add: eval_main_def ev_bind_def)
  from eval_exit_code [OF m] m show ?thesis by blast
qed

lemma last_score_snoc: "frame_type f \<noteq> ''quality_score'' \<Longrightarrow> last_score (fs @ [f]) d = last_score fs d"
  by (induction fs arbitrary: d) simp_all

text \<open>C37: The script reads a run as the server ended it. Its messages arriving in time, a script that listens
  to a session's task gets a result exactly when the session ends completed, and an error when
  it ends failed; it never waits for ever. The result's score is the last one the reflector
  reported, although the completed session is stored with a quality of zero.\<close>

theorem eval_reads_server_run:
  assumes "pg_up env" "uuid_of sid = Inr i" "find_session (w_db w) i = Some s"
    and "run_task env sid uid 18 (Spawned goal) w = (Inr Ended, w')" "w_frames w' = w_frames w @ fs"
    and "\<forall>g \<in> set pre. frame_type g = ''connected''" "carries deadline ms (pre @ fs)"
  shows "\<exists>s'. find_session (w_db w') i = Some s' \<and> (case read_frames deadline ms fin no_result of
      None \<Rightarrow> False
    | Some (Inl e) \<Rightarrow> exn_class e = RuntimeError \<and> se_status s' = ''failed''
    | Some (Inr r) \<Rightarrow> se_status s' = ''completed'' \<and> wr_quality_score r = last_score fs (JFloat (Fin 0))
        \<and> se_final_quality s' = Some (Fin 0))"
proof -
  from task_alone [OF assms(1-3), of uid goal] assms(4,5) obtain fs0 f s' vs ok where
    a: "fs = fs0 @ [f]" "reported (PlannerN, 0) vs ok (map label fs0)" "find_session (w_db w') i = Some s'"
    and b: "ended_as ok f s s'" by auto
  note carried = assms(7) [unfolded a(1)] assms(6)
  show ?thesis
  proof (cases ok)
    case True
    with b have c: "se_status s' = ''completed''" "frame_type f = ''done''" "se_final_quality s' = Some (Fin 0)"
      by (simp_all add: ended_as_def done_frame_def frame_type_def)
    from read_run(1) [OF a(2) carried c(2), of fin] obtain r where "read_frames deadline ms fin no_result = Some (Inr r)"
      "wr_quality_score r = last_score fs0 (JFloat (Fin 0))" by blast
    with c a(1,3) show ?thesis by (simp add: last_score_snoc)
  next
    case False
    with b have "se_status s' = ''failed'' \<and> frame_type f = ''error''" by (simp add: ended_as_def)
    with read_run(2) [OF a(2) carried] a(3) show ?thesis by simp
  qed
qed

definition broken_env :: env where
  "broken_env = idle_env\<lparr>e_prompt_file := \<lambda>f. Inl (Exn OtherError ''no file''),
     e_redis_error := \<lambda>n. Some (Exn OtherError ''down''), e_embedding := \<lambda>n t. Inl (Exn OtherError ''down'')\<rparr>"

definition broken_frames :: "json dict list" where
  "broken_frames =
    [[(''type'', JStr ''agent_start''), (''agent'', JStr ''planner''), (''iteration'', JInt 1), (''ts'', JStr ''4'')],
     [(''type'', JStr ''agent_complete''), (''agent'', JStr ''planner''), (''output_preview'', JStr []), (''ts'', JStr ''5'')],
     [(''type'', JStr ''agent_start''), (''agent'', JStr ''researcher''), (''iteration'', JInt 1), (''ts'', JStr ''6'')],
     [(''type'', JStr ''agent_complete''), (''agent'', JStr ''researcher''), (''output_preview'', JStr []), (''ts'', JStr ''7'')],
     [(''type'', JStr ''agent_start''), (''agent'', JStr ''executor''), (''iteration'', JInt 1), (''ts'', JStr ''8'')],
     error_frame ''graph_error'' ''no file'']"

definition broken_begin :: "task act" where
  "broken_begin =
     abind (get_pool broken_env) (\<lambda>_.
     abind (pg_set_status broken_env 7 ''running'') (\<lambda>_. \<lambda>w.
     (Inr (AtNode recursion_limit PlannerN (initial_state ''g'' seven (uuid_str 1) []) 0), tick (tick w))))"

lemma begin_broken: "begin_run broken_env seven (uuid_str 1) (JStr ''g'') = broken_begin"
proof -
  have "recall_for_user broken_env (uuid_str 1) ''g'' 5 w = (Inr [], tick (tick w))" for w
    by (simp add: recall_for_user_def acatch_def abind_def memory_embed_def memory_fetch_def redis_get_def redis_cmd_def
        embedding_call_def broken_env_def)
  then show ?thesis by (simp add: begin_run_def recall_goal_def broken_begin_def seven_ok abind_lift fun_eq_iff abind_def acatch_def
        split: prod.split sum.split)
qed

lemma broken_run:
  "\<exists>w'. run_task broken_env seven (uuid_str 1) 18 (Spawned (JStr ''g'')) (ws_world ''pending'') = (Inr Ended, w')
     \<and> w_frames w' = broken_frames"
proof -
  let ?run = "run_task broken_env seven (uuid_str 1)" and ?w = "ws_world ''pending''"
  from begin_broken have first: "?run 4 (Spawned (JStr ''g'')) ?w = abind broken_begin (?run 3) ?w"
    by (simp add: numeral_eq_Suc task_step_def)
  let ?m = "abind broken_begin (?run 3) ?w"
  have "fst ?m = Inr (FailedWith (Exn OtherError ''no file''))" by code_simp
  moreover have "w_frames (snd ?m) = butlast broken_frames" by code_simp
  ultimately obtain w2 where m: "?run 4 (Spawned (JStr ''g'')) ?w = (Inr (FailedWith (Exn OtherError ''no file'')), w2)"
    "w_frames w2 = butlast broken_frames" using first by (cases ?m) auto
  have up: "pg_up broken_env" using idle_up by (simp add: pg_up_def broken_env_def)
  from fail_run_up [OF up seven_ok] obtain w3 where f: "fail_run broken_env seven (Exn OtherError ''no file'') w2 = (Inr Ended, w3)"
    "w_frames w3 = w_frames w2 @ [error_frame ''graph_error'' (take 300 ''no file'')]" by fastforce
  have "?run (Suc k) (FailedWith (Exn OtherError ''no file'')) w2 = (Inr Ended, w3)" for k
    using f(1) by (simp add: task_step_def run_task_ended)
  from this [of 13] have "?run (4 + 14) (Spawned (JStr ''g'')) ?w = (Inr Ended, w3)"
    unfolding run_task_add using m(1) by simp
  moreover have "butlast broken_frames @ [error_frame ''graph_error'' (take 300 ''no file'')] = broken_frames"
    by (simp add: broken_frames_def)
  ultimately show ?thesis using f(2) m(2) by simp
qed

theorem eval_reads_server_run_witness:
  "\<exists>w' s' e ms. run_task broken_env seven (uuid_str 1) 18 (Spawned (JStr ''g'')) (ws_world ''pending'') = (Inr Ended, w')
     \<and> find_session (w_db w') 7 = Some s' \<and> read_frames 5 ms Silent no_result = Some (Inl e) \<and> se_status s' = ''failed''"
proof -
  obtain s where s: "find_session (w_db (ws_world ''pending'')) 7 = Some s" using ws_world_session by blast
  let ?ms = "map (\<lambda>f. (1, dumps default_opts (JObj f))) broken_frames"
  have "list_all (\<lambda>f. storable (JObj f)) broken_frames" by code_simp
  then have carried: "carries 5 ?ms ([] @ broken_frames)"
    using carries_dumps [of 1 5 broken_frames] by (simp add: list_all_iff)
  obtain w' where w': "run_task broken_env seven (uuid_str 1) 18 (Spawned (JStr ''g'')) (ws_world ''pending'') = (Inr Ended, w')"
    "w_frames w' = w_frames (ws_world ''pending'') @ broken_frames"
    using broken_run by (auto simp: ws_world_def fresh_world_def)
  have up: "pg_up broken_env" using idle_up by (simp add: pg_up_def broken_env_def)
  have "read_frames 5 ?ms Silent no_result = Some (Inl (Exn RuntimeError ''no file''))" by code_simp
  with eval_reads_server_run [OF up seven_ok s w' _ carried, of Silent] w' show ?thesis by fastforce
qed

end
