(* ===== verification/Operations.thy ===== *)
theory Operations
  imports Auth
begin

text \<open>
  Running the service: what the application does when it starts and stops and how it words a
  404 (\<open>backend/api/main.py\<close>), the probes (\<open>backend/api/routes/health.py\<close>), and the script that
  empties the stores of a development set-up (\<open>scripts/reset_memory.py\<close>).
\<close>

section \<open>The application\<close>

definition startup :: "env \<Rightarrow> unit act" where
  "startup env = abind (get_pool env) (\<lambda>_. load_persisted_mode env)"

definition shutdown :: "unit act" where
  "shutdown = close_pool"

text \<open>An HTTP exception prints its status before its detail, so the handler's body repeats the status.\<close>

definition http_exception_str :: "nat \<Rightarrow> string \<Rightarrow> string" where
  "http_exception_str n detail = str_of_nat n @ '': '' @ detail"

definition not_found :: "string \<Rightarrow> nat \<times> json" where
  "not_found exc = (404, JObj [(''type'', JStr ''about:blank''), (''title'', JStr ''Not Found''), (''status'', JInt 404),
     (''detail'', JStr exc)])"

text \<open>The schema of an error (\<open>ProblemDetail\<close> of \<open>backend/api/schemas.py\<close>), which the body has.\<close>

record problem_detail =
  pd_type :: string
  pd_title :: string
  pd_status :: nat
  pd_detail :: string

definition problem_json :: "problem_detail \<Rightarrow> json" where
  "problem_json p = JObj [(''type'', JStr (pd_type p)), (''title'', JStr (pd_title p)), (''status'', JInt (int (pd_status p))),
     (''detail'', JStr (pd_detail p))]"

lemma not_found_problem:
  "not_found exc = (404, problem_json \<lparr>pd_type = ''about:blank'', pd_title = ''Not Found'', pd_status = 404, pd_detail = exc\<rparr>)"
  by (simp add: not_found_def problem_json_def)

definition error_response :: "nat \<Rightarrow> string \<Rightarrow> nat \<times> json" where
  "error_response n detail =
     (if n = 404 then not_found (http_exception_str n detail) else (n, JObj [(''detail'', JStr detail)]))"

section \<open>Probes\<close>

definition health :: "nat \<times> json" where
  "health = (200, JObj [(''status'', JStr ''ok'')])"

definition redis_ping :: "env \<Rightarrow> unit act" where
  "redis_ping env = redis_cmd env (\<lambda>t db. Inr ((), db))"

definition probe :: "unit act \<Rightarrow> bool act" where
  "probe check = acatch (abind check (\<lambda>_. aret True)) (\<lambda>e. aret False)"

definition check_word :: "bool \<Rightarrow> json" where
  "check_word ok = JStr (if ok then ''ok'' else ''error'')"

definition ready :: "env \<Rightarrow> (nat \<times> json) act" where
  "ready env =
     abind (probe (abind (get_pool env) (\<lambda>_. pg_query env (\<lambda>db. ())))) (\<lambda>pg.
     abind (probe (redis_ping env)) (\<lambda>rd.
     let ok = pg \<and> rd in
     aret (if ok then 200 else 503, JObj [(''status'', JStr (if ok then ''ready'' else ''degraded'')),
       (''checks'', JObj [(''postgres'', check_word pg), (''redis'', check_word rd)])])))"

section \<open>The reset script\<close>

text \<open>What the script is run with: the lines of the \<open>.env\<close> file, the answer to its prompt, and the two
  services. Connecting may fail, and so may any later statement or request; the index reports
  its namespaces.\<close>

record admin =
  ad_answer :: "string result"
  ad_connect :: "nat \<Rightarrow> string \<Rightarrow> pyexn option"
  ad_statement :: "nat \<Rightarrow> pyexn option"
  ad_index :: "nat \<Rightarrow> string \<Rightarrow> string \<Rightarrow> pyexn option"
  ad_namespaces :: "nat \<Rightarrow> vector_row list \<Rightarrow> string list result"
  ad_delete :: "nat \<Rightarrow> string \<Rightarrow> pyexn option"

text \<open>\<open>os.environ\<close> refuses an empty name and a null character.\<close>

definition set_environ :: "string \<Rightarrow> string \<Rightarrow> string dict \<Rightarrow> string dict result" where
  "set_environ key val e =
     (if dget e key \<noteq> None then Inr e
      else if CHR 0x00 \<in> set key \<union> set val then Inl (Exn ValueError ''embedded null byte'')
      else if key = [] then Inl (Exn OtherError ''[Errno 22] Invalid argument'')
      else Inr (dset key val e))"

definition env_line :: "string \<Rightarrow> string dict \<Rightarrow> string dict result" where
  "env_line raw e =
     (let line = strip raw in
      if line \<noteq> [] \<and> \<not> startswith line ''#'' \<and> CHR ''='' \<in> set line
      then let key = takeWhile (\<lambda>c. c \<noteq> CHR ''='') line; val = tl (dropWhile (\<lambda>c. c \<noteq> CHR ''='') line)
           in set_environ (strip key) (strip val) e
      else Inr e)"

fun load_env :: "string list \<Rightarrow> string dict \<Rightarrow> string dict result" where
  "load_env [] e = Inr e"
| "load_env (l # ls) e = rbind (env_line l e) (load_env ls)"

definition external :: "(nat \<Rightarrow> pyexn option) \<Rightarrow> (world \<Rightarrow> world) \<Rightarrow> unit act" where
  "external fails f = (\<lambda>w. case fails (w_tick w) of Some e \<Rightarrow> (Inl e, tick w) | None \<Rightarrow> (Inr (), tick (f w)))"

text \<open>\<open>try: m finally: c\<close>\<close>

definition afinally :: "unit act \<Rightarrow> unit act \<Rightarrow> unit act" where
  "afinally m c = (\<lambda>w. case m w of (r, w1) \<Rightarrow> abind c (\<lambda>_. alift r) w1)"

definition truncate_audit :: "world \<Rightarrow> world" where
  "truncate_audit w = w\<lparr>w_db := (w_db w)\<lparr>db_audit := []\<rparr>\<rparr>"

text \<open>\<open>CASCADE\<close> also empties the table that refers to the sessions.\<close>

definition truncate_sessions :: "world \<Rightarrow> world" where
  "truncate_sessions w = w\<lparr>w_db := (w_db w)\<lparr>db_sessions := [], db_audit := []\<rparr>\<rparr>"

definition reset_postgres :: "admin \<Rightarrow> string \<Rightarrow> unit act" where
  "reset_postgres ad dsn =
     (let url = replace_str ''postgresql+asyncpg://'' ''postgresql://'' dsn in
      abind (external (\<lambda>n. ad_connect ad n url) id) (\<lambda>_.
      afinally (abind (external (ad_statement ad) truncate_audit) (\<lambda>_. external (ad_statement ad) truncate_sessions))
        (external (ad_statement ad) id)))"

definition delete_namespace :: "string \<Rightarrow> world \<Rightarrow> world" where
  "delete_namespace ns w = w\<lparr>w_vectors := filter (\<lambda>v. ve_namespace v \<noteq> ns) (w_vectors w)\<rparr>"

fun delete_all :: "admin \<Rightarrow> string list \<Rightarrow> unit act" where
  "delete_all ad [] = aret ()"
| "delete_all ad (ns # rest) = abind (external (\<lambda>n. ad_delete ad n ns) (delete_namespace ns)) (\<lambda>_. delete_all ad rest)"

definition reset_pinecone :: "admin \<Rightarrow> string \<Rightarrow> string \<Rightarrow> unit act" where
  "reset_pinecone ad api_key index_name =
     abind (external (\<lambda>n. ad_index ad n api_key index_name) id) (\<lambda>_.
     abind (\<lambda>w. (ad_namespaces ad (w_tick w) (w_vectors w), tick w)) (delete_all ad))"

text \<open>One store: skipped, its setting missing, or reset; the result lists what went wrong.\<close>

definition reset_store :: "bool \<Rightarrow> string \<Rightarrow> string \<Rightarrow> string \<Rightarrow> unit act \<Rightarrow> string list act" where
  "reset_store skip setting unset failed act =
     (if skip then aret []
      else if setting = [] then aret [unset]
      else acatch (abind act (\<lambda>_. aret [])) (\<lambda>e. aret [failed @ exn_str e]))"

definition reset_main :: "admin \<Rightarrow> string dict \<Rightarrow> bool \<Rightarrow> bool \<Rightarrow> bool \<Rightarrow> int act" where
  "reset_main ad environ yes skip_pinecone skip_postgres =
     abind (if yes then aret True else abind (alift (ad_answer ad)) (\<lambda>a. aret (lower (strip a) = ''yes''))) (\<lambda>go.
     if \<not> go then aret 0
     else
       let dsn = dget_or environ ''DATABASE_URL'' [];
           api_key = dget_or environ ''PINECONE_API_KEY'' [];
           index_name = dget_or environ ''PINECONE_INDEX'' ''nexus-memory''
       in abind (reset_store skip_postgres dsn (''DATABASE_URL not set '' @ dash @ '' skipping Postgres reset'')
            ''Postgres reset failed: '' (reset_postgres ad dsn)) (\<lambda>errors1.
          abind (reset_store skip_pinecone api_key (''PINECONE_API_KEY not set '' @ dash @ '' skipping Pinecone reset'')
            ''Pinecone reset failed: '' (reset_pinecone ad api_key index_name)) (\<lambda>errors2.
          aret (if errors1 @ errors2 \<noteq> [] then 1 else 0))))"

section \<open>What the script leaves alone\<close>

text \<open>The stores only shrink: rows and vectors may go, in a way the schema allows, and nothing else changes.\<close>

definition shrunk :: "world \<Rightarrow> world \<Rightarrow> bool" where
  "shrunk w w' \<longleftrightarrow> db_users (w_db w') = db_users (w_db w) \<and> (db_ok (w_db w) \<longrightarrow> db_ok (w_db w'))
     \<and> (db_sessions (w_db w') = [] \<or> db_sessions (w_db w') = db_sessions (w_db w))
     \<and> (db_audit (w_db w') = [] \<or> db_audit (w_db w') = db_audit (w_db w))
     \<and> set (w_vectors w') \<subseteq> set (w_vectors w) \<and> w_redis w' = w_redis w"

interpretation shrink: world_order shrunk
  by unfold_locales (auto simp: shrunk_def)

lemma shrunk_external: "(\<And>w. shrunk w (f w)) \<Longrightarrow> act_keeps shrunk (external fails f)"
  by (auto simp: act_keeps_def external_def shrunk_def split: option.split)

lemma shrunk_afinally: "act_keeps shrunk m \<Longrightarrow> act_keeps shrunk c \<Longrightarrow> act_keeps shrunk (afinally m c)"
proof -
  assume a: "act_keeps shrunk m" "act_keeps shrunk c"
  show ?thesis unfolding act_keeps_def
  proof
    fix w
    obtain r w1 where m: "m w = (r, w1)" by (cases "m w")
    have "shrunk w w1" using a(1) m by (auto simp: act_keeps_def dest: spec [of _ w])
    moreover have "act_keeps shrunk (abind c (\<lambda>_. alift r))" using a(2) by (intro shrink.keeps_abind shrink.keeps_alift)
    ultimately show "shrunk w (snd (afinally m c w))" using m shrink.trans
      by (simp add: afinally_def act_keeps_def)
  qed
qed

lemma shrunk_steps: "shrunk w (id w)" "shrunk w (truncate_audit w)" "shrunk w (truncate_sessions w)"
  "shrunk w (delete_namespace ns w)"
  by (auto simp: shrunk_def truncate_audit_def truncate_sessions_def delete_namespace_def db_ok_def)

lemma shrunk_postgres: "act_keeps shrunk (reset_postgres ad url)"
  unfolding reset_postgres_def Let_def
  by (intro shrink.keeps_abind shrunk_afinally shrunk_external shrunk_steps)

lemma shrunk_delete: "act_keeps shrunk (delete_all ad nss)"
proof (induction nss)
  case Nil
  show ?case unfolding delete_all.simps by (rule shrink.keeps_aret)
next
  case (Cons ns nss)
  show ?case unfolding delete_all.simps by (intro shrink.keeps_abind shrunk_external shrunk_steps Cons.IH)
qed

lemma shrunk_pinecone: "act_keeps shrunk (reset_pinecone ad key name)"
proof -
  have "act_keeps shrunk (\<lambda>w. (ad_namespaces ad (w_tick w) (w_vectors w), tick w))"
    by (simp add: act_keeps_def shrunk_def)
  then show ?thesis unfolding reset_pinecone_def
    by (intro shrink.keeps_abind shrunk_external shrunk_steps shrunk_delete)
qed

lemma shrunk_store: "act_keeps shrunk m \<Longrightarrow> act_keeps shrunk (reset_store skip setting unset failed m)"
  unfolding reset_store_def by (intro keeps_if shrink.keeps_aret shrink.keeps_acatch shrink.keeps_abind)

lemma shrunk_main: "act_keeps shrunk (reset_main ad environ yes skip_pinecone skip_postgres)"
  unfolding reset_main_def Let_def
  by (intro shrink.keeps_abind keeps_if shrink.keeps_aret shrink.keeps_alift shrunk_store shrunk_postgres shrunk_pinecone)

section \<open>A store is empty when nothing went wrong\<close>

lemma external_Inr: "external fails f w = (Inr u, w') \<Longrightarrow> w' = tick (f w)"
  by (auto simp: external_def split: option.splits)

lemma afinally_Inr: "afinally m c w = (Inr u, w') \<longleftrightarrow> (\<exists>w1 x. m w = (Inr u, w1) \<and> c w1 = (Inr x, w'))"
  by (cases "m w") (auto simp: afinally_def abind_Inr)

lemma reset_postgres_Inr: "reset_postgres ad url w = (Inr u, w') \<Longrightarrow> db_sessions (w_db w') = [] \<and> db_audit (w_db w') = []"
  by (auto simp: reset_postgres_def Let_def abind_Inr afinally_Inr truncate_sessions_def dest!: external_Inr)

lemma delete_all_Inr: "delete_all ad nss w = (Inr u, w') \<Longrightarrow>
    w_vectors w' = filter (\<lambda>v. ve_namespace v \<notin> set nss) (w_vectors w)"
  by (induction nss arbitrary: w) (auto simp: abind_Inr delete_namespace_def conj_commute dest!: external_Inr)

text \<open>The index may list its namespaces late: what it did not list stays.\<close>

lemma reset_pinecone_Inr:
  assumes "reset_pinecone ad key name w = (Inr u, w')"
  shows "\<exists>n nss. ad_namespaces ad n (w_vectors w) = Inr nss
    \<and> w_vectors w' = filter (\<lambda>v. ve_namespace v \<notin> set nss) (w_vectors w)"
  using assms by (fastforce simp: reset_pinecone_def abind_Inr dest!: external_Inr delete_all_Inr)

lemma reset_postgres_vectors: "w_vectors (snd (reset_postgres ad url w)) = w_vectors w"
  by (simp add: reset_postgres_def Let_def abind_def afinally_def external_def truncate_audit_def truncate_sessions_def
      split: option.split sum.split prod.split)

lemma reset_store_run:
  assumes "unset \<noteq> []" "failed \<noteq> []"
  shows "\<exists>es w'. reset_store skip setting unset failed m w = (Inr es, w')
    \<and> (es = [] \<longrightarrow> skip \<and> w' = w \<or> (\<exists>u. m w = (Inr u, w')))
    \<and> (es \<noteq> [] \<longrightarrow> \<not> skip \<and> (setting = [] \<or> (\<exists>e. fst (m w) = Inl e)))
    \<and> (w' = w \<or> w' = snd (m w))"
  using assms by (cases "m w"; cases "fst (m w)") (auto simp: reset_store_def acatch_def abind_def)

section \<open>Properties\<close>

text \<open>The readiness probe always answers, 200 when both stores do and 503 otherwise, and changes nothing in them.\<close>

lemma ready_answers:
  "\<exists>n body w'. ready env w = (Inr (n, body), w') \<and> w_db w' = w_db w \<and> w_redis w' = w_redis w \<and> n \<in> {200, 503}
    \<and> (n = 200 \<longleftrightarrow> is_ok (fst (get_pool env w)) \<and> e_pg_error env (w_tick (snd (get_pool env w))) = None
         \<and> e_redis_error env (Suc (w_tick (snd (get_pool env w)))) = None)"
proof -
  obtain r w1 where p: "get_pool env w = (r, w1)" by (cases "get_pool env w")
  then have "w_db w1 = w_db w" "w_redis w1 = w_redis w" by (auto simp: get_pool_def split: if_splits option.splits)
  with p show ?thesis
    by (cases r; cases "e_pg_error env (w_tick w1)"; cases "e_redis_error env (w_tick w1)"; cases "e_redis_error env (Suc (w_tick w1))")
       (simp_all add: ready_def probe_def redis_ping_def redis_cmd_def pg_query_def pg_cmd_def abind_def acatch_def is_ok_def Let_def)
qed

text \<open>Both stores are gone through. Without an error those not skipped are empty, and an error has its cause.\<close>

lemma reset_both:
  assumes "unset1 \<noteq> []" "failed1 \<noteq> []" "unset2 \<noteq> []" "failed2 \<noteq> []"
  shows "\<exists>(es :: string list) w2. abind (reset_store skip_postgres dsn unset1 failed1 (reset_postgres ad dsn)) (\<lambda>errors1.
        abind (reset_store skip_pinecone key unset2 failed2 (reset_pinecone ad key name)) (\<lambda>errors2.
        aret (if errors1 @ errors2 \<noteq> [] then 1 else 0))) w = (Inr (if es \<noteq> [] then 1 else 0 :: int), w2)
    \<and> (es = [] \<longrightarrow> (skip_postgres \<or> db_sessions (w_db w2) = [] \<and> db_audit (w_db w2) = [])
         \<and> (skip_pinecone \<or> (\<exists>n nss. ad_namespaces ad n (w_vectors w) = Inr nss
              \<and> w_vectors w2 = filter (\<lambda>v. ve_namespace v \<notin> set nss) (w_vectors w))))
    \<and> (es \<noteq> [] \<longrightarrow> \<not> skip_postgres \<and> (dsn = [] \<or> (\<exists>e. fst (reset_postgres ad dsn w) = Inl e))
         \<or> \<not> skip_pinecone \<and> (key = [] \<or> (\<exists>e w1. fst (reset_pinecone ad key name w1) = Inl e)))"
proof -
  let ?pg = "reset_store skip_postgres dsn unset1 failed1 (reset_postgres ad dsn)"
  let ?pc = "reset_store skip_pinecone key unset2 failed2 (reset_pinecone ad key name)"
  from reset_store_run [OF assms(1,2), of skip_postgres dsn "reset_postgres ad dsn" w] obtain es1 w1 where 1: "?pg w = (Inr es1, w1)"
    "es1 = [] \<longrightarrow> skip_postgres \<and> w1 = w \<or> (\<exists>u. reset_postgres ad dsn w = (Inr u, w1))"
    "es1 \<noteq> [] \<longrightarrow> \<not> skip_postgres \<and> (dsn = [] \<or> (\<exists>e. fst (reset_postgres ad dsn w) = Inl e))"
    "w1 = w \<or> w1 = snd (reset_postgres ad dsn w)" by blast
  from reset_store_run [OF assms(3,4), of skip_pinecone key "reset_pinecone ad key name" w1] obtain es2 w2 where 2: "?pc w1 = (Inr es2, w2)"
    "es2 = [] \<longrightarrow> skip_pinecone \<and> w2 = w1 \<or> (\<exists>u. reset_pinecone ad key name w1 = (Inr u, w2))"
    "es2 \<noteq> [] \<longrightarrow> \<not> skip_pinecone \<and> (key = [] \<or> (\<exists>e. fst (reset_pinecone ad key name w1) = Inl e))" by blast
  have vectors: "w_vectors w1 = w_vectors w" using 1(4) reset_postgres_vectors by metis
  have "act_keeps shrunk ?pc" by (intro shrunk_store shrunk_pinecone)
  with 2(1) have s2: "shrunk w1 w2" by (metis act_keeps_def snd_conv)
  have pg: "skip_postgres \<or> db_sessions (w_db w2) = [] \<and> db_audit (w_db w2) = []" if "es1 = []"
    using that 1(2) reset_postgres_Inr s2 by (auto simp: shrunk_def)
  have pc: "skip_pinecone \<or> (\<exists>n nss. ad_namespaces ad n (w_vectors w) = Inr nss
              \<and> w_vectors w2 = filter (\<lambda>v. ve_namespace v \<notin> set nss) (w_vectors w))" if "es2 = []"
    using that 2(2) reset_pinecone_Inr [of ad key name w1 _ w2] by (auto simp: vectors)
  have "abind ?pg (\<lambda>errors1. abind ?pc (\<lambda>errors2. aret (if errors1 @ errors2 \<noteq> [] then 1 else 0))) w
      = (Inr (if es1 @ es2 \<noteq> [] then 1 else 0 :: int), w2)" using 1(1) 2(1) by simp
  with pg pc 1(3) 2(3) show ?thesis by (intro exI [of _ "es1 @ es2"] exI [of _ w2]) auto
qed

text \<open>The prompt decides; the option stands for a yes.\<close>

lemma reset_asked:
  "reset_main ad environ yes skip_pinecone skip_postgres w = (case (if yes then Inr ''yes'' else ad_answer ad) of
      Inl e \<Rightarrow> (Inl e, w)
    | Inr answer \<Rightarrow> if lower (strip answer) \<noteq> ''yes'' then (Inr 0, w) else
        abind (reset_store skip_postgres (dget_or environ ''DATABASE_URL'' [])
            (''DATABASE_URL not set '' @ dash @ '' skipping Postgres reset'') ''Postgres reset failed: ''
            (reset_postgres ad (dget_or environ ''DATABASE_URL'' []))) (\<lambda>errors1.
        abind (reset_store skip_pinecone (dget_or environ ''PINECONE_API_KEY'' [])
            (''PINECONE_API_KEY not set '' @ dash @ '' skipping Pinecone reset'') ''Pinecone reset failed: ''
            (reset_pinecone ad (dget_or environ ''PINECONE_API_KEY'' []) (dget_or environ ''PINECONE_INDEX'' ''nexus-memory''))) (\<lambda>errors2.
        aret (if errors1 @ errors2 \<noteq> [] then 1 else 0))) w)"
proof -
  have y: "lower (strip ''yes'') = ''yes''" by code_simp
  have go: "abind (if yes then aret True else abind (alift (ad_answer ad)) (\<lambda>a. aret (lower (strip a) = ''yes''))) f w
      = (case (if yes then Inr ''yes'' else ad_answer ad) of Inl e \<Rightarrow> (Inl e, w) | Inr a \<Rightarrow> f (lower (strip a) = ''yes'') w)" for f
    using y by (cases "yes"; cases "ad_answer ad") (simp_all only: if_True if_False abind_def alift_def aret_def sum.case prod.case simp_thms)
  show ?thesis unfolding reset_main_def Let_def go by (simp only: if_distribR aret_apply if_not_P split: sum.split if_split)
qed

text \<open>C40: The reset script tells the truth, once its environment is read. A prompt that cannot be read makes it
  fail, and any answer but yes, up to case and surrounding blanks, makes it exit with 0; both
  leave everything as it was. Told yes, at the prompt or by its option, it exits with 0 only if
  of the stores it was not told to skip the tables are empty, and the index has nothing left in
  the namespaces the service listed and everything in others. It exits with 1 only if one of
  them had no setting or its reset raised. In every case the accounts and the Redis store are
  as before, nothing is added, and the schema's constraints hold.\<close>

theorem reset_exit_code:
  assumes "reset_main ad environ yes skip_pinecone skip_postgres w = (r, w')"
  defines "dsn \<equiv> dget_or environ ''DATABASE_URL'' []"
    and "key \<equiv> dget_or environ ''PINECONE_API_KEY'' []"
    and "name \<equiv> dget_or environ ''PINECONE_INDEX'' ''nexus-memory''"
  shows "shrunk w w' \<and> (case (if yes then Inr ''yes'' else ad_answer ad) of
      Inl e \<Rightarrow> r = Inl e \<and> w' = w
    | Inr answer \<Rightarrow>
        if lower (strip answer) \<noteq> ''yes'' then r = Inr 0 \<and> w' = w
        else r = Inr 0 \<and> (skip_postgres \<or> db_sessions (w_db w') = [] \<and> db_audit (w_db w') = [])
               \<and> (skip_pinecone \<or> (\<exists>n nss. ad_namespaces ad n (w_vectors w) = Inr nss
                    \<and> w_vectors w' = filter (\<lambda>v. ve_namespace v \<notin> set nss) (w_vectors w)))
           \<or> r = Inr 1 \<and> (\<not> skip_postgres \<and> (dsn = [] \<or> (\<exists>e. fst (reset_postgres ad dsn w) = Inl e))
               \<or> \<not> skip_pinecone \<and> (key = [] \<or> (\<exists>e w1. fst (reset_pinecone ad key name w1) = Inl e))))"
proof -
  have shrunk: "shrunk w w'" using shrunk_main assms(1) by (metis act_keeps_def snd_conv)
  have ne: "''DATABASE_URL not set '' @ dash @ '' skipping Postgres reset'' \<noteq> []" "''Postgres reset failed: '' \<noteq> []"
    "''PINECONE_API_KEY not set '' @ dash @ '' skipping Pinecone reset'' \<noteq> []" "''Pinecone reset failed: '' \<noteq> []" by simp_all
  from reset_both [OF ne, of skip_postgres dsn ad skip_pinecone key name w] obtain es :: "string list" and w2 where
    run: "reset_main ad environ yes skip_pinecone skip_postgres w = (case (if yes then Inr ''yes'' else ad_answer ad) of
      Inl e \<Rightarrow> (Inl e, w) | Inr answer \<Rightarrow> if lower (strip answer) \<noteq> ''yes'' then (Inr 0, w) else (Inr (if es \<noteq> [] then 1 else 0), w2))"
    and empty: "es = [] \<longrightarrow> (skip_postgres \<or> db_sessions (w_db w2) = [] \<and> db_audit (w_db w2) = [])
         \<and> (skip_pinecone \<or> (\<exists>n nss. ad_namespaces ad n (w_vectors w) = Inr nss
              \<and> w_vectors w2 = filter (\<lambda>v. ve_namespace v \<notin> set nss) (w_vectors w)))"
    and err: "es \<noteq> [] \<longrightarrow> \<not> skip_postgres \<and> (dsn = [] \<or> (\<exists>e. fst (reset_postgres ad dsn w) = Inl e))
         \<or> \<not> skip_pinecone \<and> (key = [] \<or> (\<exists>e w1. fst (reset_pinecone ad key name w1) = Inl e))"
    unfolding reset_asked dsn_def [symmetric] key_def [symmetric] name_def [symmetric] by (elim exE conjE) (simp only:)
  show ?thesis
  proof (cases "if yes then Inr ''yes'' else ad_answer ad")
    case (Inl e)
    with assms(1) run have "(r, w') = (Inl e, w)" by (simp only: sum.case)
    with shrunk show ?thesis unfolding Inl by simp
  next
    case (Inr a)
    from run [unfolded Inr sum.case] assms(1)
    have "(r, w') = (if lower (strip a) \<noteq> ''yes'' then (Inr 0, w) else (Inr (if es \<noteq> [] then 1 else 0), w2))" by simp
    with shrunk empty err show ?thesis unfolding Inr by (cases "lower (strip a) = ''yes''"; cases "es = []") simp_all
  qed
qed

definition calm_admin :: admin where
  "calm_admin = \<lparr>ad_answer = Inr '' Yes '', ad_connect = \<lambda>n u. None, ad_statement = \<lambda>n. None, ad_index = \<lambda>n k i. None,
     ad_namespaces = \<lambda>n vs. Inr (remdups (map ve_namespace vs)), ad_delete = \<lambda>n ns. None\<rparr>"

definition stored_vector :: vector_row where
  "stored_vector = \<lparr>ve_namespace = ''u'', ve_id = ''s'', ve_values = JArr [], ve_metadata = []\<rparr>"

theorem reset_exit_code_witness:
  "\<exists>w'. reset_main calm_admin [(''DATABASE_URL'', ''x''), (''PINECONE_API_KEY'', ''k'')] False False False
      (fresh_world\<lparr>w_vectors := [stored_vector]\<rparr>) = (Inr 0, w') \<and> w_vectors w' = []"
proof -
  let ?m = "reset_main calm_admin [(''DATABASE_URL'', ''x''), (''PINECONE_API_KEY'', ''k'')] False False False
      (fresh_world\<lparr>w_vectors := [stored_vector]\<rparr>)"
  have "fst ?m = Inr 0" by code_simp
  then obtain w' where m: "?m = (Inr 0, w')" by (cases ?m) auto
  have y: "lower (strip '' Yes '') = ''yes''" by code_simp
  from reset_exit_code [OF m] y have "w_vectors w' = []"
    by (auto simp: calm_admin_def filter_empty_conv)
  with m show ?thesis by blast
qed

end
