(* ===== verification/Service.thy ===== *)
theory Service
  imports WsRun Operations
begin

text \<open>
  The whole service: requests to any endpoint and web sockets of any number of clients, in any
  order and interleaving. Each step is taken on the authority of a user or of nobody. Requests
  are those the framework can route: identifiers in paths are well formed.
\<close>

section \<open>Requests\<close>

datatype rest_request =
    Register register_request
  | Login login_request
  | Me string
  | CreateSession string string
  | ListSessions string int int
  | GetSession string uuid
  | DeleteSession string uuid
  | AbortSession string uuid
  | SessionEvents string uuid int int
  | GetProviderMode
  | SetProviderMode string
  | Health
  | Ready

fun bearer :: "rest_request \<Rightarrow> string option" where
  "bearer (Me token) = Some token"
| "bearer (CreateSession token goal) = Some token"
| "bearer (ListSessions token limit offset) = Some token"
| "bearer (GetSession token sid) = Some token"
| "bearer (DeleteSession token sid) = Some token"
| "bearer (AbortSession token sid) = Some token"
| "bearer (SessionEvents token sid limit offset) = Some token"
| "bearer _ = None"

text \<open>What the framework checks before a handler runs.\<close>

fun request_valid :: "rest_request \<Rightarrow> bool" where
  "request_valid (Register body) = register_request_ok body"
| "request_valid (CreateSession token goal) = create_session_request_ok goal"
| "request_valid (ListSessions token limit offset) \<longleftrightarrow> 1 \<le> limit \<and> limit \<le> 100 \<and> 0 \<le> offset"
| "request_valid (SessionEvents token sid limit offset) \<longleftrightarrow> 1 \<le> limit \<and> limit \<le> 200 \<and> 0 \<le> offset"
| "request_valid (SetProviderMode mode) \<longleftrightarrow> mode \<in> {''multi'', ''openai_only''}"
| "request_valid _ = True"

text \<open>The status of an answer; an exception that is not an HTTP error is the framework's 500.\<close>

definition answer :: "'a http act \<Rightarrow> nat act" where
  "answer m = acatch (abind m (\<lambda>r. aret (case r of Reply n x \<Rightarrow> n | HttpError n d \<Rightarrow> n))) (\<lambda>e. aret 500)"

text \<open>Authentication comes before validation, as the one is a dependency and the other reports at the end.\<close>

definition checked :: "bool \<Rightarrow> 'a http act \<Rightarrow> 'a http act" where
  "checked ok m = (if ok then m else aret (HttpError 422 ''Unprocessable Entity''))"

fun serve :: "env \<Rightarrow> rest_request \<Rightarrow> nat act" where
  "serve env (Register body) = answer (checked (request_valid (Register body)) (register env body))"
| "serve env (Login body) = answer (login env (lr_email body) (lr_password body))"
| "serve env (Me token) = answer (with_user env token me)"
| "serve env (CreateSession token goal) =
     answer (with_user env token (\<lambda>u. checked (request_valid (CreateSession token goal)) (create_session env goal u)))"
| "serve env (ListSessions token limit offset) =
     answer (with_user env token (\<lambda>u. checked (request_valid (ListSessions token limit offset))
       (list_sessions env (nat limit) (nat offset) u)))"
| "serve env (GetSession token sid) = answer (with_user env token (get_session env sid))"
| "serve env (DeleteSession token sid) = answer (with_user env token (delete_session env sid))"
| "serve env (AbortSession token sid) = answer (with_user env token (abort_session env sid))"
| "serve env (SessionEvents token sid limit offset) =
     answer (with_user env token (\<lambda>u. checked (request_valid (SessionEvents token sid limit offset))
       (session_events env sid (nat limit) (nat offset) u)))"
| "serve env GetProviderMode = answer (abind (get_provider_mode env) (\<lambda>m. aret (Reply 200 m)))"
| "serve env (SetProviderMode mode) = answer (checked (request_valid (SetProviderMode mode)) (update_provider_mode env mode))"
| "serve env Health = aret (fst health)"
| "serve env Ready = abind (ready env) (\<lambda>r. aret (fst r))"

text \<open>On whose authority a request is carried out.\<close>

definition acting :: "env \<Rightarrow> rest_request \<Rightarrow> world \<Rightarrow> string option" where
  "acting env rq w = (case bearer rq of
       None \<Rightarrow> None
     | Some token \<Rightarrow> (case fst (get_current_user env token w) of
           Inr (Reply n u) \<Rightarrow> Some (uuid_str (cu_id u))
         | _ \<Rightarrow> None))"

section \<open>The system\<close>

text \<open>The world, and every socket that was let in with the tasks it started.\<close>

type_synonym system = "world \<times> (connection \<times> task list) list"

inductive sys_step :: "env \<Rightarrow> string option \<Rightarrow> system \<Rightarrow> system \<Rightarrow> bool" for env where
  request: "serve env rq w = (r, w') \<Longrightarrow> sys_step env (acting env rq w) (w, cs) (w', cs)"
| connected: "ws_connect env sid token w = (Inr (Some c), w') \<Longrightarrow>
    sys_step env (Some (cn_user_id c)) (w, cs) (w', cs @ [(c, [])])"
| refused: "ws_connect env sid token w = (r, w') \<Longrightarrow> \<forall>c. r \<noteq> Inr (Some c) \<Longrightarrow> sys_step env None (w, cs) (w', cs)"
| socket: "k < length cs \<Longrightarrow> cs ! k = (c, ts) \<Longrightarrow> ws_step env (c, ts, w) (c', ts', w') \<Longrightarrow>
    sys_step env (Some (cn_user_id c)) (w, cs) (w', cs[k := (c', ts')])"

text \<open>Any number of steps, none of them on the authority of this user.\<close>

definition without :: "env \<Rightarrow> uuid \<Rightarrow> system \<Rightarrow> system \<Rightarrow> bool" where
  "without env uid s s' \<longleftrightarrow> (\<exists>a. a \<noteq> Some (uuid_str uid) \<and> sys_step env a s s')"

definition any_step :: "env \<Rightarrow> system \<Rightarrow> system \<Rightarrow> bool" where
  "any_step env s s' \<longleftrightarrow> (\<exists>a. sys_step env a s s')"

section \<open>What every step keeps\<close>

text \<open>Accounts may be added; an account keeps its identity, address and password.\<close>

definition account :: "user_row \<Rightarrow> uuid \<times> string \<times> string \<times> bool" where
  "account u = (us_id u, us_email u, us_password_hash u, us_is_active u)"

text \<open>Rows of sessions may be added at the end and change within bounds.\<close>

definition steady :: "world \<Rightarrow> world \<Rightarrow> bool" where
  "steady w w' \<longleftrightarrow> (db_ok (w_db w) \<longrightarrow> db_ok (w_db w')) \<and> db_audit (w_db w') = db_audit (w_db w)
     \<and> (\<exists>new. map account (db_users (w_db w')) = map account (db_users (w_db w)) @ new)
     \<and> (\<exists>old new. db_sessions (w_db w') = old @ new \<and> list_all2 same_session (db_sessions (w_db w)) old)"

lemma list_all2_same_refl: "list_all2 same_session xs xs"
  by (simp add: list_all2_refl same_session_refl)

lemma rows_kept [simp]: "\<exists>old. (\<exists>new. xs = old @ new) \<and> list_all2 same_session xs old"
  "\<exists>old. (\<exists>new. xs @ ys = old @ new) \<and> list_all2 same_session xs old"
  using list_all2_same_refl by blast+

interpretation steady: world_order steady
proof
  fix w :: world
  show "steady w w" using list_all2_same_refl by (auto simp: steady_def)
next
  fix w w' w'' :: world
  assume a: "steady w w'" "steady w' w''"
  obtain old new where 1: "db_sessions (w_db w') = old @ new" "list_all2 same_session (db_sessions (w_db w)) old"
    using a(1) by (auto simp: steady_def)
  obtain old' new' where 2: "db_sessions (w_db w'') = old' @ new'" "list_all2 same_session (old @ new) old'"
    using a(2) 1(1) by (auto simp: steady_def)
  then obtain xs ys where 3: "old' = xs @ ys" "list_all2 same_session old xs" by (auto simp: list_all2_append1)
  from list_all2_trans [OF same_session_trans 1(2) 3(2)] have "list_all2 same_session (db_sessions (w_db w)) xs" by simp
  with 2(1) 3(1) a show "steady w w''" unfolding steady_def by (intro conjI exI [of _ xs] exI [of _ "ys @ new'"]) auto
qed

lemma steady_of_frame: "act_keeps db_kept m \<Longrightarrow> act_keeps steady m"
  using list_all2_same_refl by (auto simp: act_keeps_def db_kept_def steady_def)

lemma steady_find:
  assumes "steady w w'" "find_session (w_db w) i = Some s"
  shows "\<exists>s'. find_session (w_db w') i = Some s' \<and> same_session s s'"
proof -
  from assms(1) obtain old new where o: "db_sessions (w_db w') = old @ new" "list_all2 same_session (db_sessions (w_db w)) old"
    by (auto simp: steady_def)
  have "find (\<lambda>s. se_id s = i) xs = Some s \<Longrightarrow> list_all2 same_session xs ys \<Longrightarrow>
      \<exists>s'. find (\<lambda>s. se_id s = i) (ys @ zs) = Some s' \<and> same_session s s'" for xs ys zs
    by (induction xs arbitrary: ys) (auto simp: list_all2_Cons1 same_session_def split: if_splits)
  from this [OF assms(2) [unfolded find_session_def] o(2)] show ?thesis by (simp add: find_session_def o(1))
qed

lemma steady_only: "only_session i w w' \<Longrightarrow> steady w w'"
proof -
  assume a: "only_session i w w'"
  then obtain f where f: "\<forall>s. same_session s (f s)"
    "db_sessions (w_db w') = map (\<lambda>s. if se_id s = i then f s else s) (db_sessions (w_db w))"
    by (auto simp: only_session_def)
  then have "list_all2 same_session (db_sessions (w_db w)) (db_sessions (w_db w'))"
    by (auto simp: list_all2_conv_all_nth same_session_refl)
  with only_sessionD [OF a] show ?thesis unfolding steady_def
    by (intro conjI exI [of _ "[]"] exI [of _ "db_sessions (w_db w')"]) auto
qed

text \<open>Besides, the sessions of the users in question are exactly as they were.\<close>

definition spares :: "(uuid \<Rightarrow> bool) \<Rightarrow> world \<Rightarrow> world \<Rightarrow> bool" where
  "spares P w w' \<longleftrightarrow> steady w w'
     \<and> (db_ok (w_db w) \<longrightarrow> (\<forall>v. P v \<longrightarrow> own_sessions v (w_db w') = own_sessions v (w_db w)))"

interpretation spare: world_order "spares P" for P
proof
  fix w w' w'' :: world
  show "spares P w w" by (simp add: spares_def steady.refl)
  assume a: "spares P w w'" "spares P w' w''"
  then have s: "steady w w'" "steady w' w''" by (simp_all add: spares_def)
  then have ok: "db_ok (w_db w) \<longrightarrow> db_ok (w_db w')" unfolding steady_def by blast
  from steady.trans [OF s] a ok show "spares P w w''" unfolding spares_def by metis
qed

lemma spares_of_frame: "act_keeps db_kept m \<Longrightarrow> act_keeps (spares P) m"
  using steady_of_frame [of m] by (auto simp: act_keeps_def db_kept_def spares_def)

lemma spares_steady: "act_keeps (spares P) m \<Longrightarrow> m w = (r, w') \<Longrightarrow> spares P w w'"
  by (metis act_keeps_def snd_conv)

text \<open>A statement: what it does to the database decides.\<close>

definition spares_db :: "(uuid \<Rightarrow> bool) \<Rightarrow> database \<Rightarrow> database \<Rightarrow> bool" where
  "spares_db P db db' \<longleftrightarrow> spares P (fresh_world\<lparr>w_db := db\<rparr>) (fresh_world\<lparr>w_db := db'\<rparr>)"

lemma spares_db: "spares P w w' \<longleftrightarrow> spares_db P (w_db w) (w_db w')"
  by (simp add: spares_db_def spares_def steady_def)

lemma spares_cmd:
  assumes "\<And>i t db x db'. f i t db = Inr (x, db') \<Longrightarrow> spares_db P db db'"
  shows "act_keeps (spares P) (pg_cmd env f)"
proof -
  have "spares_db P db db" for db using spare.refl [of P "fresh_world\<lparr>w_db := db\<rparr>"] by (simp add: spares_db)
  then show ?thesis using assms
    by (auto simp: act_keeps_def spares_db pg_cmd_def split: option.split sum.split)
qed

lemma filter_map_same:
  "(\<And>x. x \<in> set xs \<Longrightarrow> P (g x) = P x \<and> (P x \<longrightarrow> g x = x)) \<Longrightarrow> filter P (map g xs) = filter P xs"
  by (induction xs) auto

lemma spares_insert_user: "act_keeps (spares P) (pg_cmd env (\<lambda>i t. insert_user i t email h))"
proof (rule spares_cmd)
  fix i t db x and db' :: database
  assume "insert_user i t email h db = Inr (x, db')"
  then show "spares_db P db db'" using list_all2_same_refl
    by (auto simp: spares_db_def spares_def steady_def insert_user_def db_ok_def own_sessions_def split: if_splits)
qed

lemma spares_touch: "act_keeps (spares P) (pg_cmd env (\<lambda>i t db. Inr ((), touch_login uid t db)))"
proof (rule spares_cmd)
  fix i t and db db' :: database and x
  assume "Inr ((), touch_login uid t db) = (Inr (x, db') :: (unit \<times> database) result)"
  then have db': "db' = touch_login uid t db" by simp
  have keep: "map account (db_users db') = map account (db_users db)" by (simp add: db' touch_login_def account_def)
  have ids: "map us_id (db_users db') = map us_id (db_users db)" "map us_email (db_users db') = map us_email (db_users db)"
    by (simp_all add: db' touch_login_def)
  then have "us_id ` set (db_users db') = us_id ` set (db_users db)" by (metis list.set_map)
  moreover have "db_sessions db' = db_sessions db" "db_audit db' = db_audit db" by (simp_all add: db' touch_login_def)
  ultimately show "spares_db P db db'" using ids keep list_all2_same_refl
    by (auto simp: spares_db_def spares_def steady_def db_ok_def own_sessions_def)
qed

lemma spares_insert_session: "act_keeps (spares (\<lambda>v. v \<noteq> uid)) (pg_cmd env (\<lambda>i t. insert_session i t uid goal))"
proof (rule spares_cmd)
  fix i t db x and db' :: database
  assume "insert_session i t uid goal db = Inr (x, db')"
  then have a: "i \<notin> se_id ` set (db_sessions db)" "uid \<in> us_id ` set (db_users db)"
    and db': "db' = db\<lparr>db_sessions := db_sessions db @ [x]\<rparr>" and x: "se_id x = i" "se_user_id x = uid" "se_status x = ''pending''"
    by (auto simp: insert_session_def Let_def split: if_splits)
  have "db_ok db \<Longrightarrow> db_ok db'" using a x by (auto simp: db' db_ok_def session_statuses_def)
  with x show "spares_db (\<lambda>v. v \<noteq> uid) db db'" using list_all2_same_refl
    by (auto simp: spares_db_def spares_def steady_def db' own_sessions_def)
qed

text \<open>Marking rows that belong to none of the users in question.\<close>

lemma spares_mark:
  assumes "db_ok db \<Longrightarrow> \<forall>s \<in> set (db_sessions db). p s \<longrightarrow> \<not> P (se_user_id s)"
  shows "spares_db P db (snd (update_sessions p (set_status ''aborted'') db))"
proof -
  let ?f = "\<lambda>s. if p s then set_status ''aborted'' s else s"
  have same: "same_session s (?f s)" for s by (simp add: same_session_def set_status_def)
  have "list_all2 same_session (db_sessions db) (map ?f (db_sessions db))"
    using same by (simp add: list_all2_conv_all_nth)
  moreover have "db_ok db \<Longrightarrow> db_ok (snd (update_sessions p (set_status ''aborted'') db))"
    by (rule update_sessions_ok) simp_all
  moreover have "filter (\<lambda>s. se_user_id s = v) (map ?f (db_sessions db)) = filter (\<lambda>s. se_user_id s = v) (db_sessions db)"
    if "db_ok db" "P v" for v
    using assms [OF that(1)] that(2) by (intro filter_map_same) auto
  ultimately show ?thesis
    by (auto simp: spares_db_def spares_def steady_def update_sessions_def own_sessions_def)
qed

lemma spares_delete: "act_keeps (spares (\<lambda>v. v \<noteq> uid))
    (pg_update_sessions env (\<lambda>t s. se_id s = sid \<and> se_user_id s = uid) (\<lambda>t. set_status ''aborted''))"
  unfolding pg_update_sessions_def
proof (rule spares_cmd)
  fix i t and db db' :: database and x
  assume "(case update_sessions (\<lambda>s. se_id s = sid \<and> se_user_id s = uid) (set_status ''aborted'') db of (n, db') \<Rightarrow>
      Inr (command_tag n, db')) = Inr (x, db')"
  then have "db' = snd (update_sessions (\<lambda>s. se_id s = sid \<and> se_user_id s = uid) (set_status ''aborted'') db)"
    by (auto split: prod.splits)
  then show "spares_db (\<lambda>v. v \<noteq> uid) db db'" by (simp add: spares_mark)
qed

text \<open>The abort looks the session up first: the row it marks is the user's, as identifiers are unique.\<close>

lemma spares_abort: "act_keeps (spares (\<lambda>v. v \<noteq> cu_id user)) (abort_session env sid user)"
proof -
  let ?P = "\<lambda>v. v \<noteq> cu_id user"
  have "spares ?P w (snd (abind (pg_query env (\<lambda>db. map_option se_status (own_session sid (cu_id user) db))) (\<lambda>row.
     case row of
       None \<Rightarrow> aret (HttpError 404 ''Session not found'')
     | Some st \<Rightarrow>
         if st \<notin> {''pending'', ''running''} then aret (HttpError 409 (''Session is already '' @ st))
         else abind (pg_update_sessions env (\<lambda>t s. se_id s = sid) (\<lambda>t. set_status ''aborted'')) (\<lambda>_.
              aret (Reply 202 [(''detail'', ''abort requested'')]))) w))" for w
  proof -
    have same: "spares ?P w w'" if "w_db w' = w_db w" for w' using that spare.refl [of ?P w] by (simp add: spares_db)
    have "spares ?P w w'" if own: "own_session sid (cu_id user) (w_db w) = Some s"
      and w': "w_db w' = snd (update_sessions (\<lambda>s. se_id s = sid) (set_status ''aborted'') (w_db w))" for s w'
    proof -
      have "\<forall>s' \<in> set (db_sessions (w_db w)). se_id s' = sid \<longrightarrow> \<not> ?P (se_user_id s')" if "db_ok (w_db w)"
      proof -
        have "distinct (map se_id (db_sessions (w_db w)))" using that by (simp add: db_ok_def)
        with own own_session_iff [OF this] find_session_unique [OF this] show ?thesis by (auto split: option.splits if_splits)
      qed
      then show ?thesis unfolding spares_db w' by (rule spares_mark)
    qed
    then show ?thesis using same
      by (auto simp: abind_def pg_query_def pg_cmd_def pg_update_sessions_def split: option.split prod.split if_split)
  qed
  then show ?thesis unfolding abort_session_def
    by (intro spare.keeps_abind [OF spares_of_frame [OF kept_get_pool]]) (simp only: act_keeps_def, blast)
qed

lemma kept_router: "act_keeps db_kept (get_provider_mode env)" "act_keeps db_kept (update_provider_mode env mode)"
  "act_keeps db_kept (ready env)"
proof -
  show "act_keeps db_kept (get_provider_mode env)"
    by (auto simp: act_keeps_def db_kept_def get_provider_mode_def get_model_router_def abind_def
        split: option.split prod.split sum.split)
  show "act_keeps db_kept (update_provider_mode env mode)"
    by (auto simp: act_keeps_def db_kept_def update_provider_mode_def set_model_router_def redis_set_def redis_cmd_def
        abind_def acatch_def split: option.split prod.split sum.split)
  show "act_keeps db_kept (ready env)" unfolding act_keeps_def db_kept_def
  proof
    fix w
    show "w_db (snd (ready env w)) = w_db w" using ready_answers [of env w] by auto
  qed
qed

lemma snd_answer: "snd (answer m w) = snd (m w)"
  by (auto simp: answer_def acatch_def abind_def split: prod.split sum.split)

lemma spares_mono: "spares P w w' \<Longrightarrow> (\<And>v. Q v \<Longrightarrow> P v) \<Longrightarrow> spares Q w w'"
  by (auto simp: spares_def)

definition authenticated :: "env \<Rightarrow> string \<Rightarrow> world \<Rightarrow> string option" where
  "authenticated env token w = (case fst (get_current_user env token w) of
       Inr (Reply n u) \<Rightarrow> Some (uuid_str (cu_id u)) | _ \<Rightarrow> None)"

section \<open>Requests on somebody's authority\<close>

text \<open>
  A bound on what may be done on a given authority. It is about the database, goes through
  sequencing, and the statements that write stay within it; then so does every request.
\<close>

locale authority =
  fixes R :: "string option \<Rightarrow> world \<Rightarrow> world \<Rightarrow> bool"
  assumes same_db: "w_db w' = w_db w \<Longrightarrow> R a w w'"
    and steps: "R a w w' \<Longrightarrow> R a w' w'' \<Longrightarrow> R a w w''"
    and insert_user: "act_keeps (R a) (pg_cmd env (\<lambda>i t. insert_user i t email h))"
    and touch_login: "act_keeps (R a) (pg_cmd env (\<lambda>i t db. Inr ((), touch_login uid t db)))"
    and insert_session: "act_keeps (R (Some (uuid_str uid))) (pg_cmd env (\<lambda>i t. insert_session i t uid goal))"
    and delete: "act_keeps (R (Some (uuid_str uid)))
      (pg_update_sessions env (\<lambda>t s. se_id s = sid \<and> se_user_id s = uid) (\<lambda>t. set_status ''aborted''))"
    and abort: "act_keeps (R (Some (uuid_str (cu_id user)))) (abort_session env sid user)"

sublocale authority \<subseteq> order: world_order "R a" for a
  by unfold_locales (auto intro: same_db steps)

context authority
begin

lemma of_frame: "act_keeps db_kept m \<Longrightarrow> act_keeps (R a) m"
  by (simp add: act_keeps_def db_kept_def same_db)

lemmas keeps = order.keeps_abind order.keeps_alift order.keeps_aret of_frame [OF kept_get_pool] of_frame [OF kept_query]
  of_frame [OF kept_page]
  kept_token [THEN of_frame] keeps_branch

lemma endpoints:
  "act_keeps (R a) (register env body)" "act_keeps (R a) (login env email password)" "act_keeps (R a) (me user)"
  "act_keeps (R (Some (uuid_str (cu_id user)))) (create_session env goal user)"
  "act_keeps (R a) (list_sessions env limit offset user)" "act_keeps (R a) (get_session env sid user)"
  "act_keeps (R (Some (uuid_str (cu_id user)))) (delete_session env sid user)"
  "act_keeps (R a) (session_events env sid limit offset user)"
  unfolding register_def login_def me_def create_session_def list_sessions_def get_session_def delete_session_def
    session_events_def
  by (intro keeps insert_user touch_login insert_session delete)+

lemma checked: "act_keeps (R a) m \<Longrightarrow> act_keeps (R a) (checked ok m)"
  unfolding checked_def by (intro keeps_if order.keeps_aret)

lemma with_user:
  assumes "\<And>u. act_keeps (R (Some (uuid_str (cu_id u)))) (h u)"
  shows "R (authenticated env token w) w (snd (with_user env token h w))"
proof -
  obtain r w1 where u: "get_current_user env token w = (r, w1)" by (cases "get_current_user env token w")
  have 1: "R a w w1" for a using db_keptD [OF kept_user u] by (rule same_db)
  show ?thesis
  proof (cases "\<exists>n user. r = Inr (Reply n user)")
    case True
    then obtain n user where r: "r = Inr (Reply n user)" by blast
    have "R (Some (uuid_str (cu_id user))) w1 (snd (h user w1))" using assms by (simp add: act_keeps_def)
    from steps [OF 1 this] show ?thesis by (simp add: with_user_def authenticated_def u r)
  next
    case False
    then have "snd (with_user env token h w) = w1"
      by (cases r) (auto simp: with_user_def u abind_def split: http.split)
    with 1 show ?thesis by simp
  qed
qed

lemma bearing:
  assumes "bearer rq = Some token" "serve env rq = answer (with_user env token h)"
    and "\<And>u. act_keeps (R (Some (uuid_str (cu_id u)))) (h u)"
  shows "R (acting env rq w) w (snd (serve env rq w))"
  using with_user [OF assms(3), of env token w] by (simp add: acting_def assms(1,2) snd_answer authenticated_def)

lemma free:
  assumes "serve env rq = answer m" "\<And>a. act_keeps (R a) m"
  shows "R a w (snd (serve env rq w))"
  using assms(2) [of a] by (simp add: assms(1) snd_answer act_keeps_def)

lemma serving: "R (acting env rq w) w (snd (serve env rq w))"
proof (cases rq)
  case (Register body)
  show ?thesis unfolding Register by (rule free [OF serve.simps(1)], intro checked endpoints)
next
  case (Login body)
  show ?thesis unfolding Login by (rule free [OF serve.simps(2)], intro endpoints)
next
  case (Me token)
  show ?thesis unfolding Me by (rule bearing [OF bearer.simps(1) serve.simps(3)], intro endpoints)
next
  case (CreateSession token goal)
  show ?thesis unfolding CreateSession by (rule bearing [OF bearer.simps(2) serve.simps(4)], intro checked endpoints)
next
  case (ListSessions token limit offset)
  show ?thesis unfolding ListSessions by (rule bearing [OF bearer.simps(3) serve.simps(5)], intro checked endpoints)
next
  case (GetSession token sid)
  show ?thesis unfolding GetSession by (rule bearing [OF bearer.simps(4) serve.simps(6)], intro endpoints)
next
  case (DeleteSession token sid)
  show ?thesis unfolding DeleteSession by (rule bearing [OF bearer.simps(5) serve.simps(7)], intro endpoints)
next
  case (AbortSession token sid)
  show ?thesis unfolding AbortSession by (rule bearing [OF bearer.simps(6) serve.simps(8)], intro abort)
next
  case (SessionEvents token sid limit offset)
  show ?thesis unfolding SessionEvents by (rule bearing [OF bearer.simps(7) serve.simps(9)], intro checked endpoints)
next
  case GetProviderMode
  show ?thesis unfolding GetProviderMode
    by (rule free [OF serve.simps(10)], intro order.keeps_abind order.keeps_aret of_frame kept_router)
next
  case (SetProviderMode mode)
  show ?thesis unfolding SetProviderMode by (rule free [OF serve.simps(11)], intro checked of_frame kept_router)
next
  case Ready
  have "act_keeps (R a) (serve env Ready)" for a unfolding serve.simps
    by (intro order.keeps_abind order.keeps_aret of_frame kept_router)
  then show ?thesis unfolding Ready by (simp only: act_keeps_def)
qed (simp add: same_db)

end

lemma keeps_spares_mono:
  assumes "act_keeps (spares P) m" "\<And>v. Q v \<Longrightarrow> P v"
  shows "act_keeps (spares Q) m"
  unfolding act_keeps_def
proof
  fix w
  from assms(1) have "spares P w (snd (m w))" by (simp add: act_keeps_def)
  then show "spares Q w (snd (m w))" by (rule spares_mono) (rule assms(2))
qed

interpretation spared: authority "\<lambda>a. spares (\<lambda>v. a \<noteq> Some (uuid_str v))"
proof (unfold_locales, goal_cases)
  case (1 w' w a)
  then show ?case using spare.refl [of "\<lambda>v. a \<noteq> Some (uuid_str v)" w] by (simp add: spares_db)
next
  case (2 a w w' w'')
  then show ?case by (rule spare.trans)
next
  case 3
  show ?case by (rule spares_insert_user)
next
  case 4
  show ?case by (rule spares_touch)
next
  case 5
  show ?case by (rule keeps_spares_mono [OF spares_insert_session]) auto
next
  case 6
  show ?case by (rule keeps_spares_mono [OF spares_delete]) auto
next
  case 7
  show ?case by (rule keeps_spares_mono [OF spares_abort]) auto
qed

section \<open>Invariants of the system\<close>

text \<open>Every connection works for the owner of its session.\<close>

definition conn_ok :: "world \<Rightarrow> connection \<times> task list \<Rightarrow> bool" where
  "conn_ok w ct \<longleftrightarrow> (case ct of (c, ts) \<Rightarrow> (\<exists>i s. uuid_of (cn_session_id c) = Inr i \<and> find_session (w_db w) i = Some s
     \<and> cn_user_id c = uuid_str (se_user_id s)) \<and> one_task c ts)"

definition sys_inv :: "system \<Rightarrow> bool" where
  "sys_inv s \<longleftrightarrow> (case s of (w, cs) \<Rightarrow> db_ok (w_db w) \<and> (\<forall>ct \<in> set cs. conn_ok w ct))"

lemma conn_ok_steady: "steady w w' \<Longrightarrow> conn_ok w ct \<Longrightarrow> conn_ok w' ct"
  unfolding conn_ok_def by (cases ct) (auto simp: same_session_def dest!: steady_find)

lemma conns_steady: "steady w w' \<Longrightarrow> \<forall>ct \<in> set cs. conn_ok w ct \<Longrightarrow> \<forall>ct \<in> set cs. conn_ok w' ct"
  using conn_ok_steady by blast

lemma steady_ok: "steady w w' \<Longrightarrow> db_ok (w_db w) \<Longrightarrow> db_ok (w_db w')"
  by (simp add: steady_def)

lemma spares_only:
  assumes "only_session i w w'" "find_session (w_db w) i = Some s"
  shows "spares (\<lambda>v. v \<noteq> se_user_id s) w w'"
proof -
  from assms(1) obtain f where f: "\<And>s. same_session s (f s)"
    "db_sessions (w_db w') = map (\<lambda>s. if se_id s = i then f s else s) (db_sessions (w_db w))"
    by (auto simp: only_session_def)
  have "own_sessions v (w_db w') = own_sessions v (w_db w)" if "db_ok (w_db w)" "v \<noteq> se_user_id s" for v
    unfolding own_sessions_def f(2)
  proof (rule filter_map_same)
    fix x assume "x \<in> set (db_sessions (w_db w))"
    with find_session_unique [of "w_db w" x] that(1) have "se_id x = i \<Longrightarrow> x = s" using assms(2) by (simp add: db_ok_def)
    then show "(se_user_id (if se_id x = i then f x else x) = v) = (se_user_id x = v)
        \<and> (se_user_id x = v \<longrightarrow> (if se_id x = i then f x else x) = x)"
      using f(1) [of x] that(2) by (auto simp: same_session_def)
  qed
  with steady_only [OF assms(1)] show ?thesis by (simp add: spares_def)
qed

text \<open>A step keeps the invariant, and spares everyone on whose authority it is not taken.\<close>

lemma sys_step_kept:
  assumes "sys_step env a s s'" "sys_inv s"
  shows "sys_inv s' \<and> spares (\<lambda>v. a \<noteq> Some (uuid_str v)) (fst s) (fst s')"
  using assms
proof (induction rule: sys_step.induct)
  case (request rq w r w' cs)
  then have sp: "spares (\<lambda>v. acting env rq w \<noteq> Some (uuid_str v)) w w'" using spared.serving [of env rq w] by simp
  then have "steady w w'" by (simp add: spares_def)
  from conns_steady [OF this, of cs] steady_ok [OF this] request(2) sp show ?case by (simp add: sys_inv_def)
next
  case (connected sid token w c w' cs)
  from ws_connect_result [OF connected(1)] obtain i s where c: "w_db w' = w_db w" "\<not> cn_started c" "cn_session_id c = sid" "uuid_of sid = Inr i"
    "find_session (w_db w) i = Some s" "cn_user_id c = uuid_str (se_user_id s)" by (metis connection.select_convs(1,2,4))
  have sp: "spares P w w'" for P using c(1) spare.refl [of P w] by (simp add: spares_db)
  then have "steady w w'" by (simp add: spares_def)
  from conns_steady [OF this] steady_ok [OF this] connected(2) sp c show ?case by (auto simp: sys_inv_def conn_ok_def one_task_def)
next
  case (refused sid token w r w' cs)
  have "w_db w' = w_db w" using db_keptD [OF kept_connect refused(1)] .
  then have sp: "spares P w w'" for P using spare.refl [of P w] by (simp add: spares_db)
  then have "steady w w'" by (simp add: spares_def)
  from conns_steady [OF this, of cs] steady_ok [OF this] refused(3) sp show ?case by (simp add: sys_inv_def)
next
  case (socket k cs c ts w c' ts' w')
  have "(c, ts) \<in> set cs" using socket(1,2) by (metis nth_mem)
  with socket(4) have "conn_ok w (c, ts)" by (simp add: sys_inv_def)
  then obtain i s where i: "uuid_of (cn_session_id c) = Inr i" "find_session (w_db w) i = Some s"
    "cn_user_id c = uuid_str (se_user_id s)" "one_task c ts" by (auto simp: conn_ok_def)
  from ws_step_only [OF socket(3) i(1,4)] have o: "only_session i w w'" and c': "cn_session_id c' = cn_session_id c"
    "cn_user_id c' = cn_user_id c" "one_task c' ts'" by auto
  have st: "steady w w'" using steady_only [OF o] .
  have "conn_ok w' (c, ts)" using conn_ok_steady [OF st] socket(4) \<open>(c, ts) \<in> set cs\<close> by (simp add: sys_inv_def)
  with c' have "conn_ok w' (c', ts')" by (simp add: conn_ok_def)
  moreover have "\<forall>ct \<in> set cs. conn_ok w' ct" using conn_ok_steady [OF st] socket(4) by (simp add: sys_inv_def)
  ultimately have "\<forall>ct \<in> set (cs[k := (c', ts')]). conn_ok w' ct" by (auto dest!: subsetD [OF set_update_subset_insert])
  moreover have "spares (\<lambda>v. Some (cn_user_id c) \<noteq> Some (uuid_str v)) w w'"
    by (rule spares_mono [OF spares_only [OF o i(2)]]) (auto simp: i(3))
  ultimately show ?case using steady_ok [OF st] socket(4) by (simp add: sys_inv_def)
qed

lemma reach_inv:
  assumes "(any_step env)\<^sup>*\<^sup>* (w0, []) (w, cs)" "db_ok (w_db w0)"
  shows "sys_inv (w, cs) \<and> steady w0 w"
  using assms(1)
proof (induction rule: rtranclp_induct2)
  case refl
  then show ?case using assms(2) by (simp add: sys_inv_def steady.refl)
next
  case (step w1 cs1 w2 cs2)
  then obtain a where "sys_step env a (w1, cs1) (w2, cs2)" by (auto simp: any_step_def)
  from sys_step_kept [OF this] step(3) have "sys_inv (w2, cs2)" "steady w1 w2" by (auto simp: spares_def)
  with step(3) steady.trans show ?case by blast
qed

section \<open>Properties\<close>

text \<open>C7: What holds of the service whatever its clients do, in any order and interleaving of requests and
  sockets. The schema's constraints are kept and the audit log never grows; no account loses
  its address or password and no session its owner or goal; and every socket that was let in
  works for the owner of its session and has started at most one task.\<close>

theorem service_invariant:
  assumes "(any_step env)\<^sup>*\<^sup>* (w0, []) (w, cs)" "db_ok (w_db w0)"
  shows "db_ok (w_db w) \<and> db_audit (w_db w) = db_audit (w_db w0)
    \<and> (\<exists>new. map account (db_users (w_db w)) = map account (db_users (w_db w0)) @ new)
    \<and> (\<forall>i s. find_session (w_db w0) i = Some s \<longrightarrow> (\<exists>s'. find_session (w_db w) i = Some s'
         \<and> se_user_id s' = se_user_id s \<and> se_goal s' = se_goal s))
    \<and> (\<forall>(c, ts) \<in> set cs. \<exists>i s. uuid_of (cn_session_id c) = Inr i \<and> find_session (w_db w) i = Some s
         \<and> cn_user_id c = uuid_str (se_user_id s) \<and> length ts \<le> 1 \<and> (cn_started c \<longleftrightarrow> ts \<noteq> []))"
proof -
  from reach_inv [OF assms] have inv: "sys_inv (w, cs)" and st: "steady w0 w" by auto
  have "\<exists>s'. find_session (w_db w) i = Some s' \<and> se_user_id s' = se_user_id s \<and> se_goal s' = se_goal s"
    if "find_session (w_db w0) i = Some s" for i s
    using steady_find [OF st that] by (auto simp: same_session_def)
  with inv st show ?thesis by (fastforce simp: sys_inv_def conn_ok_def one_task_def steady_def)
qed

text \<open>C4: Users are isolated. No sequence of requests and socket steps taken on the authority of others or
  of nobody, whatever its order and interleaving, changes any of a user's sessions or adds to
  them.\<close>

theorem service_isolation:
  assumes "(without env uid)\<^sup>*\<^sup>* (w0, cs0) (w, cs)" "sys_inv (w0, cs0)"
  shows "own_sessions uid (w_db w) = own_sessions uid (w_db w0)"
proof -
  have "sys_inv (w, cs) \<and> own_sessions uid (w_db w) = own_sessions uid (w_db w0)"
    using assms(1)
  proof (induction rule: rtranclp_induct2)
    case refl
    then show ?case using assms(2) by simp
  next
    case (step w1 cs1 w2 cs2)
    then obtain a where a: "a \<noteq> Some (uuid_str uid)" "sys_step env a (w1, cs1) (w2, cs2)" by (auto simp: without_def)
    from sys_step_kept [OF a(2)] step(3) have "sys_inv (w2, cs2)" "spares (\<lambda>v. a \<noteq> Some (uuid_str v)) w1 w2" by auto
    with step(3) a(1) show ?case by (auto simp: spares_def sys_inv_def)
  qed
  then show ?thesis by simp
qed

definition newcomer :: rest_request where
  "newcomer = Register \<lparr>rr_email = ''b@b.c'', rr_password = ''long password''\<rparr>"

lemma newcomer_step: "without idle_env 1 (ws_world ''pending'', []) (snd (serve idle_env newcomer (ws_world ''pending'')), [])"
proof -
  let ?w = "ws_world ''pending''"
  have "sys_step idle_env (acting idle_env newcomer ?w) (?w, []) (snd (serve idle_env newcomer ?w), [])"
    by (rule sys_step.request [of _ _ _ "fst (serve idle_env newcomer ?w)"]) simp
  moreover have "acting idle_env newcomer ?w = None" by (simp add: acting_def newcomer_def)
  ultimately show ?thesis by (auto simp: without_def)
qed

lemma pending_ok: "db_ok (w_db (ws_world ''pending''))"
  by (simp add: ws_world_def one_session_def db_ok_def session_statuses_def)

theorem service_invariant_witness:
  "length (db_users (w_db (snd (serve idle_env newcomer (ws_world ''pending''))))) = 2
     \<and> (\<exists>new. map account (db_users (w_db (snd (serve idle_env newcomer (ws_world ''pending'')))))
          = map account (db_users (w_db (ws_world ''pending''))) @ new)"
proof
  show "length (db_users (w_db (snd (serve idle_env newcomer (ws_world ''pending''))))) = 2"
    by (simp add: newcomer_def snd_answer checked_def register_request_ok_def register_def abind_def get_pool_def idle_env_def
        calm_env_def ws_world_def fresh_world_def one_session_def pg_query_def pg_cmd_def user_by_email_def hash_password_def
        insert_user_def create_access_token_def Let_def)
  from newcomer_step have "any_step idle_env (ws_world ''pending'', []) (snd (serve idle_env newcomer (ws_world ''pending'')), [])"
    by (auto simp: without_def any_step_def)
  from service_invariant [OF r_into_rtranclp [of "any_step idle_env", OF this] pending_ok]
  show "\<exists>new. map account (db_users (w_db (snd (serve idle_env newcomer (ws_world ''pending'')))))
          = map account (db_users (w_db (ws_world ''pending''))) @ new" by blast
qed

theorem service_isolation_witness:
  "length (own_sessions 1 (w_db (snd (serve idle_env newcomer (ws_world ''pending''))))) = 1"
proof -
  have "sys_inv (ws_world ''pending'', [])" using pending_ok by (simp add: sys_inv_def)
  from service_isolation [OF r_into_rtranclp [of "without idle_env 1", OF newcomer_step] this] show ?thesis
    by (simp add: ws_world_def one_session_def own_sessions_def)
qed

text \<open>C28: Nothing keeps a session from running twice. The status changes only when a task starts, so while
  a session is pending its owner can open a second socket, and a start frame on each leaves two
  tasks of the same session running side by side.\<close>

theorem pending_session_started_twice:
  assumes "pg_up env" "uuid_of sid = Inr i" "find_session (w_db w) i = Some s" "se_status s = ''pending''"
    and "\<And>n. e_jwt_decode env (e_time env n) token (jwt_secret (e_settings env)) (jwt_algorithm (e_settings env)) = Some payload"
    and "dget payload ''sub'' = Some (JStr (uuid_str (se_user_id s)))"
    and "loads raw = Inr (JObj frame)" "dget frame ''type'' = Some (JStr ''start'')"
  shows "\<exists>c g w'. (any_step env)\<^sup>*\<^sup>* (w, []) (w', [(c, [Spawned g]), (c, [Spawned g])])
    \<and> cn_session_id c = sid \<and> cn_user_id c = uuid_str (se_user_id s)"
proof -
  let ?c = "\<lparr>cn_session_id = sid, cn_user_id = uuid_str (se_user_id s), cn_goal = JStr (se_goal s), cn_started = False, cn_open = True\<rparr>"
  let ?g = "start_goal frame (JStr (se_goal s))" and ?c1 = "?c\<lparr>cn_started := True, cn_goal := start_goal frame (JStr (se_goal s))\<rparr>"
  have connect: "\<exists>v'. ws_connect env sid token v = (Inr (Some ?c), v') \<and> w_db v' = w_db w" if v: "w_db v = w_db w" for v
  proof -
    obtain v1 where p: "get_pool env (tick v) = (Inr (), v1)" "w_db v1 = w_db (tick v)" using up_pool [OF assms(1)] by blast
    with assms v show ?thesis
      by (simp add: ws_connect_def decode_token_def now_def abind_lift up_query [OF assms(1)] send_frame_def abind_def)
  qed
  have start: "ws_step env (?c, [], v) (?c1, [Spawned ?g], v)" for v
    by (rule ws_step.receive [of _ _ _ "Received raw"])
      (simp_all add: ws_receive_def abind_lift assms(7) handle_frame_def dget_or_def assms(8) acatch_def Let_def)
  obtain w1 where 1: "ws_connect env sid token w = (Inr (Some ?c), w1)" "w_db w1 = w_db w" using connect by blast
  obtain w2 where 2: "ws_connect env sid token w1 = (Inr (Some ?c), w2)" using connect [OF 1(2)] by blast
  have "any_step env (w, []) (w1, [(?c, [])])" using sys_step.connected [OF 1(1), of "[]"] by (auto simp: any_step_def)
  moreover have "any_step env (w1, [(?c, [])]) (w2, [(?c, []), (?c, [])])"
    using sys_step.connected [OF 2, of "[(?c, [])]"] by (auto simp: any_step_def)
  moreover have "any_step env (w2, [(?c, []), (?c, [])]) (w2, [(?c1, [Spawned ?g]), (?c, [])])"
    using sys_step.socket [of 0 "[(?c, []), (?c, [])]", OF _ _ start] by (fastforce simp: any_step_def)
  moreover have "any_step env (w2, [(?c1, [Spawned ?g]), (?c, [])]) (w2, [(?c1, [Spawned ?g]), (?c1, [Spawned ?g])])"
    using sys_step.socket [of 1 "[(?c1, [Spawned ?g]), (?c, [])]", OF _ _ start] by (fastforce simp: any_step_def)
  ultimately have "(any_step env)\<^sup>*\<^sup>* (w, []) (w2, [(?c1, [Spawned ?g]), (?c1, [Spawned ?g])])"
    by (meson converse_rtranclp_into_rtranclp rtranclp.rtrancl_refl)
  then show ?thesis by (intro exI [of _ ?c1] exI [of _ ?g] exI [of _ w2]) simp
qed

definition still_env :: env where
  "still_env = idle_env\<lparr>e_time := \<lambda>n. 0\<rparr>"

theorem pending_session_started_twice_witness:
  "\<exists>c g w'. (any_step still_env)\<^sup>*\<^sup>* (ws_world ''pending'', []) (w', [(c, [Spawned g]), (c, [Spawned g])]) \<and> cn_session_id c = seven"
proof -
  let ?t = "plain_encode (uuid_str 1) 100 0 [] []"
  have enc: "e_jwt_encode still_env = (\<lambda>sub u i k a. plain_encode sub u i [] [])" "e_settings still_env = e_settings idle_env"
    "e_jwt_decode still_env = e_jwt_decode idle_env" "e_time still_env = (\<lambda>n. 0)" "e_jwt_encode still_env = e_jwt_encode idle_env"
    by (simp_all add: still_env_def idle_env_def calm_env_def plain_encode_def fun_eq_iff)
  have "jwt_law idle_env" by (simp add: idle_env_def calm_laws)
  from this [unfolded jwt_law_def enc(5) [symmetric] enc(1), rule_format, of 0 "uuid_str 1" 100 0]
  have dec: "e_jwt_decode still_env (e_time still_env n) ?t (jwt_secret (e_settings still_env)) (jwt_algorithm (e_settings still_env))
      = Some [(''sub'', JStr (uuid_str 1)), (''exp'', JInt 100), (''iat'', JInt 0)]" for n
    by (simp add: enc)
  obtain s where s: "find_session (w_db (ws_world ''pending'')) 7 = Some s" "se_status s = ''pending''" "se_user_id s = 1"
    using ws_world_session by blast
  have up: "pg_up still_env" using idle_up by (simp add: pg_up_def still_env_def)
  from pending_session_started_twice [OF up seven_ok s(1,2) dec _ start_reads] s(3) show ?thesis by auto
qed

end
