(* ===== verification/Lifecycle.thy ===== *)
theory Lifecycle
  imports Service
begin

text \<open>
  The life of a session, as the service lets it go: an abstract transition system over the owner,
  goal and status of every session and over the phases of the tasks started for it, in which each
  transition is taken by the session's owner. The service refines it step by step, so what holds
  of every abstract run holds of every interleaving of requests and sockets.
\<close>

section \<open>The abstract system\<close>

text \<open>Waiting for a start frame; started; the graph under way; over, with or without having run.\<close>

datatype phase = Waiting | Queued | Active | Over

type_synonym entry = "uuid \<times> string \<times> string"
type_synonym registry = "uuid \<Rightarrow> entry option"
type_synonym lives = "registry \<times> (uuid \<times> phase) list"

text \<open>What a request can do on somebody's authority: create a session of his, and mark one of his aborted.\<close>

inductive owner_step :: "string option \<Rightarrow> registry \<Rightarrow> registry \<Rightarrow> bool" for a where
  create: "a = Some (uuid_str u) \<Longrightarrow> m i = None \<Longrightarrow> owner_step a m (m(i \<mapsto> (u, g, ''pending'')))"
| abort: "a = Some (uuid_str u) \<Longrightarrow> m i = Some (u, g, st) \<Longrightarrow> owner_step a m (m(i \<mapsto> (u, g, ''aborted'')))"

inductive life :: "string option \<Rightarrow> lives \<Rightarrow> lives \<Rightarrow> bool" for a where
  owner: "owner_step a m m' \<Longrightarrow> life a (m, js) (m', js)"
| open_socket: "m i = Some (u, g, ''pending'') \<Longrightarrow> a = Some (uuid_str u) \<Longrightarrow> life a (m, js) (m, js @ [(i, Waiting)])"
| start: "k < length js \<Longrightarrow> js ! k = (i, Waiting) \<Longrightarrow> m i = Some (u, g, st) \<Longrightarrow> a = Some (uuid_str u) \<Longrightarrow>
    life a (m, js) (m, js[k := (i, Queued)])"
| begin_task: "k < length js \<Longrightarrow> js ! k = (i, Queued) \<Longrightarrow> m i = Some (u, g, st) \<Longrightarrow> a = Some (uuid_str u) \<Longrightarrow>
    life a (m, js) (m(i \<mapsto> (u, g, ''running'')), js[k := (i, Active)])"
| finish: "k < length js \<Longrightarrow> js ! k = (i, Active) \<Longrightarrow> m i = Some (u, g, st) \<Longrightarrow> a = Some (uuid_str u) \<Longrightarrow>
    st' \<in> {''completed'', ''failed''} \<Longrightarrow> life a (m, js) (m(i \<mapsto> (u, g, st')), js[k := (i, Over)])"
| lost: "k < length js \<Longrightarrow> js ! k = (i, p) \<Longrightarrow> p \<in> {Queued, Active} \<Longrightarrow> m i = Some (u, g, st) \<Longrightarrow> a = Some (uuid_str u) \<Longrightarrow>
    life a (m, js) (m, js[k := (i, Over)])"

inductive_cases owner_stepE: "owner_step a m m'"
inductive_cases lifeE: "life a (m, js) (m', js')"

definition any_life :: "lives \<Rightarrow> lives \<Rightarrow> bool" where
  "any_life x y \<longleftrightarrow> (\<exists>a. life a x y)"

section \<open>Refinement\<close>

text \<open>
  A labelled system refines another when each of its steps from a state of the invariant is
  matched by steps of the other with the same label. Then runs are matched by runs, and what the
  abstract system keeps holds of every concrete run.
\<close>

locale simulation =
  fixes cstep :: "'l \<Rightarrow> 'c \<Rightarrow> 'c \<Rightarrow> bool"
    and astep :: "'l \<Rightarrow> 'a \<Rightarrow> 'a \<Rightarrow> bool"
    and inv :: "'c \<Rightarrow> bool"
    and abstraction :: "'c \<Rightarrow> 'a"
  assumes kept: "inv s \<Longrightarrow> cstep l s s' \<Longrightarrow> inv s'"
    and simulates: "inv s \<Longrightarrow> cstep l s s' \<Longrightarrow> (astep l)\<^sup>*\<^sup>* (abstraction s) (abstraction s')"
begin

lemma matched: "(astep l)\<^sup>*\<^sup>* x y \<Longrightarrow> (\<lambda>x y. \<exists>l. astep l x y)\<^sup>*\<^sup>* x y"
  by (rule rtranclp_mono [THEN predicate2D, of "astep l"]) auto

lemma runs: "(\<lambda>s s'. \<exists>l. cstep l s s')\<^sup>*\<^sup>* s s' \<Longrightarrow> inv s \<Longrightarrow>
    inv s' \<and> (\<lambda>x y. \<exists>l. astep l x y)\<^sup>*\<^sup>* (abstraction s) (abstraction s')"
proof (induction rule: rtranclp_induct)
  case (step s1 s2)
  then obtain l where "cstep l s1 s2" by blast
  from kept [OF _ this] matched [OF simulates [OF _ this]] step show ?case by (meson rtranclp_trans)
qed simp

lemma transfer:
  assumes "\<And>l x y. astep l x y \<Longrightarrow> I x \<Longrightarrow> I y" "(\<lambda>s s'. \<exists>l. cstep l s s')\<^sup>*\<^sup>* s s'" "inv s" "I (abstraction s)"
  shows "I (abstraction s')"
  using runs [OF assms(2,3), THEN conjunct2] assms(1,4) by (induction rule: rtranclp_induct) blast+

end

section \<open>What abstract runs keep\<close>

text \<open>
  What holds along every abstract run from a registry without tasks. A session keeps its owner and
  goal and never becomes pending again; no task of a pending session is under way; and one that was
  pending or absent and now is running, completed or failed has had a task.
\<close>

definition lived_at :: "entry option \<Rightarrow> entry option \<Rightarrow> phase set \<Rightarrow> bool" where
  "lived_at e0 e ps \<longleftrightarrow> (case e of
       None \<Rightarrow> e0 = None \<and> ps = {}
     | Some (u, g, st) \<Rightarrow>
         (\<forall>u0 g0 st0. e0 = Some (u0, g0, st0) \<longrightarrow> u0 = u \<and> g0 = g \<and> (st0 \<noteq> ''pending'' \<longrightarrow> st \<noteq> ''pending''))
       \<and> (st = ''pending'' \<longrightarrow> Active \<notin> ps)
       \<and> (st \<in> {''running'', ''completed'', ''failed''} \<longrightarrow> (\<forall>e. e0 = Some e \<longrightarrow> snd (snd e) = ''pending'') \<longrightarrow>
            Active \<in> ps \<or> Over \<in> ps))"

definition phases :: "uuid \<Rightarrow> (uuid \<times> phase) list \<Rightarrow> phase set" where
  "phases i js = {p. (i, p) \<in> set js}"

definition lived :: "registry \<Rightarrow> lives \<Rightarrow> bool" where
  "lived m0 x \<longleftrightarrow> (case x of (m, js) \<Rightarrow> \<forall>i. lived_at (m0 i) (m i) (phases i js))"

lemma phases_snoc [simp]: "phases j (js @ [(i, p)]) = (if j = i then insert p (phases j js) else phases j js)"
  by (auto simp: phases_def)

lemma phases_update:
  assumes "k < length js" "js ! k = (i, q)"
  shows "j \<noteq> i \<Longrightarrow> phases j (js[k := (i, p)]) = phases j js"
    "p \<in> phases i (js[k := (i, p)])" "phases i (js[k := (i, p)]) \<subseteq> insert p (phases i js)"
    "r \<in> phases i js \<Longrightarrow> r \<noteq> q \<Longrightarrow> r \<in> phases i (js[k := (i, p)])" "q \<in> phases i js"
proof -
  have kept: "x \<in> set (js[k := y])" if "x \<in> set js" "x \<noteq> (i, q)" for x y
    using that assms by (metis in_set_conv_nth length_list_update nth_list_update_neq)
  have old: "x = y \<or> x \<in> set js" if "x \<in> set (js[k := y])" for x y
    using that set_update_subset_insert by fast
  show "j \<noteq> i \<Longrightarrow> phases j (js[k := (i, p)]) = phases j js" using kept old by (fastforce simp: phases_def)
  show "p \<in> phases i (js[k := (i, p)])" using assms(1) by (simp add: phases_def set_update_memI)
  show "phases i (js[k := (i, p)]) \<subseteq> insert p (phases i js)" using old by (fastforce simp: phases_def)
  show "r \<in> phases i js \<Longrightarrow> r \<noteq> q \<Longrightarrow> r \<in> phases i (js[k := (i, p)])" using kept by (simp add: phases_def)
  show "q \<in> phases i js" using assms by (metis mem_Collect_eq nth_mem phases_def)
qed

text \<open>A task's transition is about one session: there it need only be checked.\<close>

lemma lived_task:
  assumes "k < length js" "js ! k = (i, q)" "lived m0 (m, js)" "\<And>j. j \<noteq> i \<Longrightarrow> m' j = m j"
    and "\<And>ps. q \<in> phases i js \<Longrightarrow> p \<in> ps \<Longrightarrow> ps \<subseteq> insert p (phases i js) \<Longrightarrow>
      (\<And>r. r \<in> phases i js \<Longrightarrow> r \<noteq> q \<Longrightarrow> r \<in> ps) \<Longrightarrow> lived_at (m0 i) (m i) (phases i js) \<Longrightarrow> lived_at (m0 i) (m' i) ps"
  shows "lived m0 (m', js[k := (i, p)])"
  unfolding lived_def prod.case
proof
  fix j
  from assms(3) have l: "lived_at (m0 j) (m j) (phases j js)" for j by (simp add: lived_def)
  show "lived_at (m0 j) (m' j) (phases j (js[k := (i, p)]))"
  proof (cases "j = i")
    case True
    with assms(5) [OF phases_update(5,2,3,4) [OF assms(1,2)] l] show ?thesis by simp
  next
    case False
    with l assms(4) phases_update(1) [OF assms(1,2)] show ?thesis by simp
  qed
qed

lemma lived_phases:
  "lived_at e0 (Some e) ps \<Longrightarrow> (Active \<in> ps' \<Longrightarrow> Active \<in> ps) \<Longrightarrow>
     (Active \<in> ps \<or> Over \<in> ps \<Longrightarrow> Active \<in> ps' \<or> Over \<in> ps') \<Longrightarrow> lived_at e0 (Some e) ps'"
  unfolding lived_at_def by (cases e) (simp only: option.case prod.case, blast)

lemma lived_status:
  "lived_at e0 (Some (u, g, st)) ps \<Longrightarrow> st' \<noteq> ''pending'' \<Longrightarrow> Active \<in> ps' \<or> Over \<in> ps' \<Longrightarrow>
     lived_at e0 (Some (u, g, st')) ps'"
  by (auto simp: lived_at_def)

lemma lived_atD:
  assumes "lived_at e0 (Some (u, g, st)) ps"
  shows "e0 = Some (u0, g0, st0) \<Longrightarrow> u = u0 \<and> g = g0 \<and> (st0 \<noteq> ''pending'' \<longrightarrow> st \<noteq> ''pending'')"
    "st = ''pending'' \<Longrightarrow> Active \<notin> ps"
    "st \<in> {''running'', ''completed'', ''failed''} \<Longrightarrow> (\<And>u g st. e0 = Some (u, g, st) \<Longrightarrow> st = ''pending'') \<Longrightarrow>
       Active \<in> ps \<or> Over \<in> ps"
  using assms unfolding lived_at_def option.case prod.case by (blast, blast, fastforce)

lemma lived_step:
  assumes "life a x y" "lived m0 x"
  shows "lived m0 y"
  using assms
proof (induction rule: life.induct)
  case (owner m m' js)
  then show ?case
  proof (elim owner_stepE)
    fix u i g assume o: "m' = m(i \<mapsto> (u, g, ''pending''))" "m i = None"
    from owner(2) have "lived_at (m0 i) (m i) (phases i js)" by (simp add: lived_def)
    with o have "lived_at (m0 i) (m' i) (phases i js)" by (simp add: lived_at_def)
    with o owner(2) show ?thesis by (simp add: lived_def)
  next
    fix u i g st assume o: "m' = m(i \<mapsto> (u, g, ''aborted''))" "m i = Some (u, g, st)"
    from owner(2) have "lived_at (m0 i) (m i) (phases i js)" by (simp add: lived_def)
    with o have "lived_at (m0 i) (m' i) (phases i js)" by (simp add: lived_at_def)
    with o owner(2) show ?thesis by (simp add: lived_def)
  qed
next
  case (open_socket m i u g js)
  from open_socket(3) have "lived_at (m0 i) (m i) (phases i js)" by (simp add: lived_def)
  with open_socket(1) have "lived_at (m0 i) (m i) (insert Waiting (phases i js))" using lived_phases by fastforce
  with open_socket show ?case by (simp add: lived_def)
next
  case (start k js i m u g st)
  show ?case
  proof (rule lived_task [OF start(1,2,5) refl])
    fix ps assume ps: "ps \<subseteq> insert Queued (phases i js)" "\<And>r. r \<in> phases i js \<Longrightarrow> r \<noteq> Waiting \<Longrightarrow> r \<in> ps"
      and l: "lived_at (m0 i) (m i) (phases i js)"
    show "lived_at (m0 i) (m i) ps"
      unfolding start(3) by (rule lived_phases [OF l [unfolded start(3)]]) (use ps in auto)
  qed
next
  case (begin_task k js i m u g st)
  show ?case
  proof (rule lived_task [OF begin_task(1,2,5)])
    fix ps assume "Active \<in> ps" "lived_at (m0 i) (m i) (phases i js)"
    then show "lived_at (m0 i) ((m(i \<mapsto> (u, g, ''running''))) i) ps" using lived_status begin_task(3) by simp
  qed simp
next
  case (finish k js i m u g st st')
  show ?case
  proof (rule lived_task [OF finish(1,2,6)])
    fix ps assume "Over \<in> ps" "lived_at (m0 i) (m i) (phases i js)"
    then show "lived_at (m0 i) ((m(i \<mapsto> (u, g, st'))) i) ps" using lived_status finish(3,5) by auto
  qed simp
next
  case (lost k js i p m u g st)
  show ?case
  proof (rule lived_task [OF lost(1,2,6) refl])
    fix ps assume ps: "Over \<in> ps" "ps \<subseteq> insert Over (phases i js)" and l: "lived_at (m0 i) (m i) (phases i js)"
    show "lived_at (m0 i) (m i) ps"
      unfolding lost(4) by (rule lived_phases [OF l [unfolded lost(4)]]) (use ps in auto)
  qed
qed

section \<open>What the service shows of it\<close>

definition entry_of :: "session_row \<Rightarrow> entry" where
  "entry_of s = (se_user_id s, se_goal s, se_status s)"

definition registry_of :: "database \<Rightarrow> registry" where
  "registry_of db = (\<lambda>i. map_option entry_of (find_session db i))"

fun phase_of :: "task \<Rightarrow> phase" where
  "phase_of (Spawned goal) = Queued"
| "phase_of (AtNode left n st iter) = Active"
| "phase_of (Finalising u) = Active"
| "phase_of (FailedWith e) = Active"
| "phase_of Ended = Over"

text \<open>A socket waits until it starts a task; then it counts with every task it has started.\<close>

definition phases_of :: "task list \<Rightarrow> phase list" where
  "phases_of ts = (if ts = [] then [Waiting] else map phase_of ts)"

definition jobs :: "connection \<times> task list \<Rightarrow> (uuid \<times> phase) list" where
  "jobs ct = (case ct of (c, ts) \<Rightarrow>
     map (Pair (case uuid_of (cn_session_id c) of Inr i \<Rightarrow> i | Inl e \<Rightarrow> 0)) (phases_of ts))"

definition lives_of :: "system \<Rightarrow> lives" where
  "lives_of s = (case s of (w, cs) \<Rightarrow> (registry_of (w_db w), concat (map jobs cs)))"

text \<open>With at most one task on each socket the phases line up with the sockets.\<close>

definition job :: "connection \<times> task list \<Rightarrow> uuid \<times> phase" where
  "job ct = hd (jobs ct)"

lemma jobs_one: "length ts \<le> 1 \<Longrightarrow> jobs (c, ts) = [job (c, ts)]"
  by (cases ts) (simp_all add: jobs_def job_def phases_of_def)

lemma lives_of_inv:
  assumes "sys_inv (w, cs)"
  shows "lives_of (w, cs) = (registry_of (w_db w), map job cs)"
proof -
  have "jobs ct = [job ct]" if "ct \<in> set cs" for ct
    using assms that jobs_one by (cases ct) (auto simp: sys_inv_def conn_ok_def one_task_def)
  then have "concat (map jobs cs) = map job cs" by (induction cs) simp_all
  then show ?thesis by (simp add: lives_of_def)
qed

lemma registry_same: "db_sessions db' = db_sessions db \<Longrightarrow> registry_of db' = registry_of db"
  by (simp add: registry_of_def find_session_def fun_eq_iff)

lemma registry_row:
  assumes "find_session db i = Some s" "\<And>s. se_id (f s) = se_id s"
  shows "registry_of (row_update i f db) = (registry_of db)(i \<mapsto> entry_of (f s))"
  using assms by (auto simp: registry_of_def find_row_update [OF assms(2)])

section \<open>Requests\<close>

definition follows :: "string option \<Rightarrow> world \<Rightarrow> world \<Rightarrow> bool" where
  "follows a w w' \<longleftrightarrow> (db_ok (w_db w) \<longrightarrow> db_ok (w_db w')
     \<and> (owner_step a)\<^sup>*\<^sup>* (registry_of (w_db w)) (registry_of (w_db w')))"

lemma follows_same: "w_db w' = w_db w \<Longrightarrow> follows a w w'"
  by (simp add: follows_def)

text \<open>A statement that spares somebody keeps the constraints; what it does to the registry is left.\<close>

lemma follows_cmd:
  assumes "act_keeps (spares P) (pg_cmd env f)"
    and "\<And>i t db x db'. f i t db = Inr (x, db') \<Longrightarrow> db_ok db \<Longrightarrow> (owner_step a)\<^sup>*\<^sup>* (registry_of db) (registry_of db')"
  shows "act_keeps (follows a) (pg_cmd env f)"
  unfolding act_keeps_def
proof
  fix w
  have "spares P w (snd (pg_cmd env f w))" using assms(1) by (simp add: act_keeps_def)
  then have "db_ok (w_db w) \<Longrightarrow> db_ok (w_db (snd (pg_cmd env f w)))" by (simp add: spares_def steady_def)
  moreover have "db_ok (w_db w) \<Longrightarrow>
      (owner_step a)\<^sup>*\<^sup>* (registry_of (w_db w)) (registry_of (w_db (snd (pg_cmd env f w))))"
    using assms(2) by (auto simp: pg_cmd_def split: option.split sum.split)
  ultimately show "follows a w (snd (pg_cmd env f w))" by (simp add: follows_def)
qed

lemma find_one_more: "find P (xs @ [x]) = (case find P xs of None \<Rightarrow> if P x then Some x else None | Some y \<Rightarrow> Some y)"
  by (induction xs) auto

lemma follows_insert_session:
  "act_keeps (follows (Some (uuid_str uid))) (pg_cmd env (\<lambda>i t. insert_session i t uid goal))"
proof (rule follows_cmd [OF spares_insert_session])
  fix i t db x and db' :: database
  assume "insert_session i t uid goal db = Inr (x, db')"
  then have a: "i \<notin> se_id ` set (db_sessions db)" and db': "db' = db\<lparr>db_sessions := db_sessions db @ [x]\<rparr>"
    and x: "se_id x = i" "entry_of x = (uid, goal, ''pending'')"
    by (auto simp: insert_session_def Let_def entry_of_def split: if_splits)
  have "find_session db i = None" using a by (auto simp: find_session_None)
  moreover from this have "find_session db' j = (if j = i then Some x else find_session db j)" for j
    using x(1) by (auto simp: find_session_def db' find_one_more split: option.split)
  ultimately have "registry_of db' = (registry_of db)(i \<mapsto> (uid, goal, ''pending''))" "registry_of db i = None"
    using x(2) by (auto simp: registry_of_def)
  then show "(owner_step (Some (uuid_str uid)))\<^sup>*\<^sup>* (registry_of db) (registry_of db')"
    using owner_step.create [of "Some (uuid_str uid)" uid "registry_of db" i goal] by auto
qed

lemma abort_registry:
  assumes "find_session db i = Some s"
  shows "(owner_step (Some (uuid_str (se_user_id s))))\<^sup>*\<^sup>* (registry_of db) (registry_of (row_update i (set_status ''aborted'') db))"
proof -
  have "registry_of (row_update i (set_status ''aborted'') db) = (registry_of db)(i \<mapsto> (se_user_id s, se_goal s, ''aborted''))"
    using registry_row [of db i s "set_status ''aborted''", OF assms] by (simp add: entry_of_def)
  moreover have "registry_of db i = Some (se_user_id s, se_goal s, se_status s)" using assms by (simp add: registry_of_def entry_of_def)
  ultimately show ?thesis using owner_step.abort [OF refl, of "registry_of db" i] by auto
qed

lemma follows_delete: "act_keeps (follows (Some (uuid_str uid)))
    (pg_update_sessions env (\<lambda>t s. se_id s = sid \<and> se_user_id s = uid) (\<lambda>t. set_status ''aborted''))"
  unfolding pg_update_sessions_def
proof (rule follows_cmd [OF spares_delete [unfolded pg_update_sessions_def]])
  fix i t and db db' :: database and x
  let ?p = "\<lambda>s. se_id s = sid \<and> se_user_id s = uid"
  assume "(case update_sessions ?p (set_status ''aborted'') db of (n, db') \<Rightarrow> Inr (command_tag n, db')) = Inr (x, db')"
  then have db': "db' = snd (update_sessions ?p (set_status ''aborted'') db)" by (auto split: prod.splits)
  have find: "find_session db' j = map_option (\<lambda>s. if ?p s then set_status ''aborted'' s else s) (find_session db j)" for j
    unfolding db' by (rule find_session_update) simp
  show "(owner_step (Some (uuid_str uid)))\<^sup>*\<^sup>* (registry_of db) (registry_of db')"
  proof (cases "\<exists>s. find_session db sid = Some s \<and> se_user_id s = uid")
    case True
    then obtain s where s: "find_session db sid = Some s" "se_user_id s = uid" by blast
    have "registry_of db' = registry_of (row_update sid (set_status ''aborted'') db)"
    proof
      fix j
      show "registry_of db' j = registry_of (row_update sid (set_status ''aborted'') db) j"
        using s by (cases "find_session db j") (auto simp: registry_of_def find find_row_update dest: find_session_Some)
    qed
    with abort_registry [OF s(1)] s(2) show ?thesis by simp
  next
    case False
    have "registry_of db' = registry_of db"
    proof
      fix j
      show "registry_of db' j = registry_of db j"
        using False by (cases "find_session db j") (auto simp: registry_of_def find dest: find_session_Some)
    qed
    then show ?thesis by simp
  qed
qed

lemma follows_abort: "act_keeps (follows (Some (uuid_str (cu_id user)))) (abort_session env sid user)"
  unfolding act_keeps_def
proof
  fix w
  let ?w' = "snd (abort_session env sid user w)"
  have ok: "db_ok (w_db w) \<Longrightarrow> db_ok (w_db ?w')" using spares_abort by (simp add: act_keeps_def spares_def steady_def)
  obtain r w1 where p: "get_pool env w = (r, w1)" "w_db w1 = w_db w" using db_keptD [OF kept_get_pool] by (metis prod.exhaust)
  have "w_db ?w' = w_db w \<or> (\<exists>s. own_session sid (cu_id user) (w_db w) = Some s
      \<and> w_db ?w' = row_update sid (set_status ''aborted'') (w_db w))"
    using p by (cases r) (auto simp: abort_session_def abind_def pg_query_def pg_cmd_def pg_update_sessions_def row_update_def
        split: option.split prod.split if_split)
  moreover have "db_ok (w_db w) \<Longrightarrow> own_session sid (cu_id user) (w_db w) = Some s \<Longrightarrow>
      find_session (w_db w) sid = Some s \<and> se_user_id s = cu_id user" for s
    using own_session_iff [of "w_db w" sid "cu_id user"] by (auto simp: db_ok_def split: option.splits if_splits)
  ultimately show "follows (Some (uuid_str (cu_id user))) w ?w'"
    using ok abort_registry [of "w_db w" sid] by (fastforce simp: follows_def)
qed

interpretation followed: authority follows
proof (unfold_locales, goal_cases)
  case 1
  then show ?case by (rule follows_same)
next
  case 2
  then show ?case by (auto simp: follows_def)
next
  case 3
  show ?case by (rule follows_cmd [OF spares_insert_user])
      (auto simp: insert_user_def registry_of_def find_session_def split: if_splits)
next
  case 4
  show ?case by (rule follows_cmd [OF spares_touch]) (auto simp: touch_login_def registry_of_def find_session_def)
next
  case 5
  show ?case by (rule follows_insert_session)
next
  case 6
  show ?case by (rule follows_delete)
next
  case 7
  show ?case by (rule follows_abort)
qed

section \<open>Tasks and sockets\<close>

lemma set_status_effect:
  "pg_set_status env i st w = (r, w') \<Longrightarrow> w_db w' = (case r of Inl e \<Rightarrow> w_db w | Inr tag \<Rightarrow> row_update i (set_status st) (w_db w))"
  by (auto simp: pg_set_status_def pg_update_sessions_def pg_cmd_def row_update_def split: option.splits prod.splits)

text \<open>A step of the task: what becomes of its phase and of the session's row.\<close>

lemma begin_effect:
  assumes "begin_run env sid uid goal w = (r, w')" "uuid_of sid = Inr i"
  shows "(case r of Inl e \<Rightarrow> w_db w' = w_db w
    | Inr t \<Rightarrow> phase_of t = Active \<and> w_db w' = row_update i (set_status ''running'') (w_db w))"
proof -
  obtain r1 w1 where p: "get_pool env w = (r1, w1)" "w_db w1 = w_db w" using db_keptD [OF kept_get_pool] by (metis prod.exhaust)
  show ?thesis
  proof (cases r1)
    case (Inl e)
    with assms p show ?thesis by (auto simp: begin_run_def)
  next
    case (Inr x)
    obtain r2 w2 where u: "pg_set_status env i ''running'' w1 = (r2, w2)" by fastforce
    note db = set_status_effect [OF u, unfolded p(2)]
    show ?thesis
    proof (cases r2)
      case (Inl e)
      with assms p Inr u db show ?thesis by (auto simp: begin_run_def abind_lift)
    next
      case tag: (Inr tag)
      obtain r3 w3 where m: "acatch (recall_goal env uid goal) (\<lambda>e. aret []) w2 = (r3, w3)" by fastforce
      then obtain mem where "r3 = Inr mem" by (auto simp: acatch_def split: prod.splits sum.splits)
      moreover have "act_keeps db_kept (acatch (recall_goal env uid goal) (\<lambda>e. aret []))"
        by (intro frame_of_le grow.keeps_acatch le_recall grow.keeps_aret)
      from db_keptD [OF this m] have "w_db w3 = w_db w2" .
      ultimately show ?thesis using assms p Inr u db tag m by (auto simp: begin_run_def abind_lift)
    qed
  qed
qed

lemma finish_effect:
  assumes "finish_run env sid u w = (r, w')" "uuid_of sid = Inr i"
  shows "(case r of Inl e \<Rightarrow> w_db w' = w_db w
    | Inr t \<Rightarrow> t = Ended \<and> (\<exists>q out k n. w_db w' = row_update i (complete_row q out k n) (w_db w)))"
proof -
  let ?fs = "final_of_update u" and ?text = "dumps default_opts (JObj [(''disclaimer'', disclaimer_json (fs_disclaimer (final_of_update u)))])"
  let ?f = "complete_row (or_else (fs_quality_score ?fs) (Fin 0)) ?text (or_else (fs_iteration_count ?fs) 0)"
  let ?store = "acatch (if u \<noteq> no_update then store_if_good env ?fs (dumps default_opts (output_json ?fs)) else aret ()) (\<lambda>e. aret ())"
  obtain r1 w1 where m: "pg_update_sessions env (\<lambda>t s. se_id s = i) ?f w = (r1, w1)" by fastforce
  then have db: "w_db w1 = (case r1 of Inl e \<Rightarrow> w_db w | Inr tag \<Rightarrow> row_update i (?f (now env w)) (w_db w))"
    by (auto simp: pg_update_sessions_def pg_cmd_def row_update_def split: option.splits prod.splits)
  show ?thesis
  proof (cases r1)
    case (Inl e)
    with assms m db show ?thesis by (auto simp: finish_run_def abind_lift Let_def)
  next
    case (Inr tag)
    obtain r2 w2 where s: "?store w1 = (r2, w2)" by fastforce
    then obtain x where "r2 = Inr x" by (auto simp: acatch_def split: prod.splits sum.splits)
    moreover have "act_keeps db_kept ?store" by (intro db_frame.keeps_acatch keeps_if kept_store db_frame.keeps_aret)
    from db_keptD [OF this s] have "w_db w2 = w_db w1" .
    moreover have "\<exists>q out k n. w_db w1 = row_update i (complete_row q out k n) (w_db w)" using db Inr by auto
    ultimately have "w_db w' = w_db w1 \<and> r = Inr Ended \<and> (\<exists>q out k n. w_db w1 = row_update i (complete_row q out k n) (w_db w))"
      using assms m Inr s by (auto simp: finish_run_def abind_lift Let_def send_frame_def abind_def)
    then show ?thesis by auto
  qed
qed

lemma fail_effect:
  assumes "fail_run env sid e w = (r, w')" "uuid_of sid = Inr i"
  shows "(case r of Inl e \<Rightarrow> w_db w' = w_db w | Inr t \<Rightarrow> t = Ended \<and> w_db w' = row_update i (set_status ''failed'') (w_db w))"
proof -
  let ?w1 = "w\<lparr>w_frames := w_frames w @ [error_frame ''graph_error'' (take 300 (exn_str e))]\<rparr>"
  obtain r2 w2 where u: "pg_set_status env i ''failed'' ?w1 = (r2, w2)" by fastforce
  have "fail_run env sid e w = (case r2 of Inl e \<Rightarrow> (Inl e, w2) | Inr tag \<Rightarrow> (Inr Ended, w2))"
    using u by (simp add: fail_run_def assms(2) abind_lift send_frame_def abind_def split: sum.split)
  with assms(1) set_status_effect [OF u] show ?thesis by (auto split: sum.splits)
qed

lemma node_effect:
  assumes "node_step env left n st k w = (r, w')"
  shows "w_db w' = w_db w \<and> (\<exists>t. r = Inr t \<and> phase_of t = Active)"
  using assms node_kept [OF assms]
  by (cases rule: node_step_cases [of env n st left k w]) (auto split: option.splits)

lemma receive_effect:
  assumes "ws_receive env c ts ev w = (Inr (c', ts'), w')" "uuid_of (cn_session_id c) = Inr i"
  shows "cn_session_id c' = cn_session_id c
    \<and> (w_db w' = w_db w \<and> ts' = ts
     \<or> w_db w' = w_db w \<and> \<not> cn_started c \<and> (\<exists>goal. ts' = ts @ [Spawned goal])
     \<or> ts' = ts \<and> w_db w' = row_update i (set_status ''aborted'') (w_db w))"
proof (cases ev)
  case (Received raw)
  show ?thesis
  proof (cases "loads raw")
    case (Inl e)
    with assms Received show ?thesis by (auto simp: ws_receive_def acatch_def abind_def)
  next
    case (Inr frame)
    show ?thesis
    proof (cases frame)
      case (JObj d)
      obtain r w1 where h: "handle_frame env c ts d w = (r, w1)" by fastforce
      obtain r2 w2 where u: "pg_set_status env i ''aborted'' w = (r2, w2)" by fastforce
      from h have "r = Inr (c1, t1) \<Longrightarrow> cn_session_id c1 = cn_session_id c \<and> (w_db w1 = w_db w \<and> t1 = ts
          \<or> w_db w1 = w_db w \<and> \<not> cn_started c \<and> (\<exists>goal. t1 = ts @ [Spawned goal])
          \<or> t1 = ts \<and> w_db w1 = row_update i (set_status ''aborted'') (w_db w))"
        "r = Inl e \<Longrightarrow> w_db w1 = w_db w" for c1 t1 e
        using u set_status_effect [OF u] assms(2)
        by (auto simp: handle_frame_def send_frame_def abind_def Let_def split: if_splits sum.splits)
      with assms(1) Received Inr JObj h show ?thesis
        by (cases r) (auto simp: ws_receive_def acatch_def abind_def)
    qed (use assms Received Inr in \<open>auto simp: ws_receive_def acatch_def abind_def\<close>)
  qed
qed (use assms in \<open>auto simp: ws_receive_def\<close>)

section \<open>The service refines it\<close>

lemma life_of_owner: "(owner_step a)\<^sup>*\<^sup>* m m' \<Longrightarrow> (life a)\<^sup>*\<^sup>* (m, js) (m', js)"
proof (induction rule: rtranclp_induct)
  case (step m1 m2)
  from step(3) life.owner [OF step(2), of js] show ?case by (rule rtranclp.rtrancl_into_rtrancl)
qed simp

lemma job_eq:
  "uuid_of (cn_session_id c) = Inr i \<Longrightarrow> job (c, []) = (i, Waiting)"
  "uuid_of (cn_session_id c) = Inr i \<Longrightarrow> job (c, [t]) = (i, phase_of t)"
  by (simp_all add: job_def jobs_def phases_of_def)

text \<open>One step of a connection's task, seen from the session it works for.\<close>

lemma life_task:
  assumes "k < length cs" "cs ! k = (c, [t])" "uuid_of (cn_session_id c) = Inr i" "find_session db i = Some s"
    and "phase_of t \<in> {Queued, Active}" "cn_user_id c = uuid_str (se_user_id s)"
  shows "(life (Some (cn_user_id c)))\<^sup>*\<^sup>* (registry_of db, map job cs) (registry_of db, (map job cs)[k := (i, Over)])"
    "phase_of t = Queued \<Longrightarrow> (life (Some (cn_user_id c)))\<^sup>*\<^sup>* (registry_of db, map job cs)
       (registry_of (row_update i (set_status ''running'') db), (map job cs)[k := (i, Active)])"
    "phase_of t = Active \<Longrightarrow> st \<in> {''completed'', ''failed''} \<Longrightarrow>
       (\<And>s. se_id (f s) = se_id s \<and> se_user_id (f s) = se_user_id s \<and> se_goal (f s) = se_goal s \<and> se_status (f s) = st) \<Longrightarrow>
       (life (Some (cn_user_id c)))\<^sup>*\<^sup>* (registry_of db, map job cs) (registry_of (row_update i f db), (map job cs)[k := (i, Over)])"
proof -
  have js: "k < length (map job cs)" "map job cs ! k = (i, phase_of t)" using assms(1-3) by (simp_all add: job_eq)
  have m: "registry_of db i = Some (se_user_id s, se_goal s, se_status s)" using assms(4) by (simp add: registry_of_def entry_of_def)
  have a: "Some (cn_user_id c) = Some (uuid_str (se_user_id s))" using assms(6) by simp
  show "(life (Some (cn_user_id c)))\<^sup>*\<^sup>* (registry_of db, map job cs) (registry_of db, (map job cs)[k := (i, Over)])"
    by (rule r_into_rtranclp, rule life.lost [where i = i and p = "phase_of t", OF js(1)]) (use js(2) assms(5) m a in auto)
  show "(life (Some (cn_user_id c)))\<^sup>*\<^sup>* (registry_of db, map job cs)
       (registry_of (row_update i (set_status ''running'') db), (map job cs)[k := (i, Active)])" if q: "phase_of t = Queued"
  proof -
    have "registry_of (row_update i (set_status ''running'') db) = (registry_of db)(i \<mapsto> (se_user_id s, se_goal s, ''running''))"
      by (simp add: registry_row [OF assms(4)] entry_of_def)
    then show ?thesis using life.begin_task [where m = "registry_of db" and i = i, OF js(1) js(2) [unfolded q] m a] by auto
  qed
  show "(life (Some (cn_user_id c)))\<^sup>*\<^sup>* (registry_of db, map job cs) (registry_of (row_update i f db), (map job cs)[k := (i, Over)])"
    if q: "phase_of t = Active" "st \<in> {''completed'', ''failed''}"
      and f: "\<And>s. se_id (f s) = se_id s \<and> se_user_id (f s) = se_user_id s \<and> se_goal (f s) = se_goal s \<and> se_status (f s) = st"
  proof -
    have "registry_of (row_update i f db) = (registry_of db)(i \<mapsto> (se_user_id s, se_goal s, st))"
      by (simp add: registry_row [OF assms(4)] entry_of_def f)
    then show ?thesis using life.finish [where m = "registry_of db" and i = i, OF js(1) js(2) [unfolded q(1)] m a q(2)] by auto
  qed
qed

lemma task_follows:
  assumes "k < length cs" "cs ! k = (c, [t])" "t \<noteq> Ended" "task_step env (cn_session_id c) (cn_user_id c) t w = (r, w')"
    and "case r of Inr t1 \<Rightarrow> t' = t1 | Inl e \<Rightarrow> t' = Ended"
    and "uuid_of (cn_session_id c) = Inr i" "find_session (w_db w) i = Some s" "cn_user_id c = uuid_str (se_user_id s)"
  shows "(life (Some (cn_user_id c)))\<^sup>*\<^sup>* (registry_of (w_db w), map job cs) (registry_of (w_db w'), (map job cs)[k := job (c, [t'])])"
proof -
  let ?js = "map job cs"
  have same: "?js[k := (i, phase_of t)] = ?js" using assms(1,2,6) by (intro list_update_same_conv [THEN iffD2]) (simp_all add: job_eq)
  have row: "se_id (complete_row q out n x r) = se_id r \<and> se_user_id (complete_row q out n x r) = se_user_id r
      \<and> se_goal (complete_row q out n x r) = se_goal r \<and> se_status (complete_row q out n x r) = ''completed''" for q out n x r
    by (simp add: complete_row_def)
  have j: "job (c, [t1]) = (i, phase_of t1)" for t1 using assms(6) by (simp add: job_eq)
  show ?thesis
  proof (cases t)
    case (Spawned goal)
    with assms(4) have "begin_run env (cn_session_id c) (cn_user_id c) goal w = (r, w')" by (simp add: task_step_def)
    from begin_effect [OF this assms(6)] show ?thesis using assms(5) life_task(1,2) [OF assms(1,2,6,7) _ assms(8)] Spawned
      by (cases r) (simp_all add: j)
  next
    case (AtNode left n st iter)
    have "w_db w' = w_db w \<and> phase_of t' = Active"
    proof (cases left)
      case 0
      with assms(4,5) AtNode show ?thesis by (auto simp: task_step_def)
    next
      case (Suc l)
      with assms(4) AtNode have "node_step env l n st iter w = (r, w')" by (simp add: task_step_def)
      from node_effect [OF this] assms(5) show ?thesis by auto
    qed
    with same AtNode show ?thesis by (simp add: j)
  next
    case (Finalising u)
    with assms(4) have "finish_run env (cn_session_id c) u w = (r, w')" by (simp add: task_step_def)
    from finish_effect [OF this assms(6)] show ?thesis
      using assms(5) life_task(1) [OF assms(1,2,6,7) _ assms(8)] life_task(3) [OF assms(1,2,6,7) _ assms(8) _ _ row] Finalising
      by (cases r) (auto simp: j)
  next
    case (FailedWith e)
    with assms(4) have "fail_run env (cn_session_id c) e w = (r, w')" by (simp add: task_step_def)
    from fail_effect [OF this assms(6)] show ?thesis
      using assms(5) life_task(1) [OF assms(1,2,6,7) _ assms(8)]
        life_task(3) [OF assms(1,2,6,7) _ assms(8), of "''failed''" "set_status ''failed''"] FailedWith
      by (cases r) (auto simp: j)
  qed (use assms(3,3) in auto)
qed

lemma socket_follows:
  assumes "k < length cs" "cs ! k = (c, ts)" "ws_step env (c, ts, w) (c', ts', w')"
    and "uuid_of (cn_session_id c) = Inr i" "find_session (w_db w) i = Some s" "cn_user_id c = uuid_str (se_user_id s)"
    and "one_task c ts"
  shows "(life (Some (cn_user_id c)))\<^sup>*\<^sup>* (registry_of (w_db w), map job cs) (registry_of (w_db w'), (map job cs)[k := job (c', ts')])"
proof -
  let ?a = "Some (cn_user_id c)" and ?js = "map job cs"
  from assms(3) consider (receive) ev where "ws_receive env c ts ev w = (Inr (c', ts'), w')"
    | (task) j t t' r where "j < length ts" "ts ! j = t" "t \<noteq> Ended" "task_step env (cn_session_id c) (cn_user_id c) t w = (r, w')"
        "case r of Inr t1 \<Rightarrow> t' = t1 | Inl e \<Rightarrow> t' = Ended" "c' = c" "ts' = ts[j := t']"
    by (elim ws_stepE) auto
  then show ?thesis
  proof cases
    case receive
    note eff = receive_effect [OF receive assms(4)]
    then have same: "?js[k := job (c', ts)] = ?js"
      using assms(1,2) by (intro list_update_same_conv [THEN iffD2]) (simp_all add: job_def jobs_def)
    from eff consider "w_db w' = w_db w" "ts' = ts"
      | goal where "w_db w' = w_db w" "\<not> cn_started c" "ts' = ts @ [Spawned goal]"
      | "ts' = ts" "w_db w' = row_update i (set_status ''aborted'') (w_db w)" by blast
    then show ?thesis
    proof cases
      case 1
      then show ?thesis by (simp add: same)
    next
      case 2
      from 2(2) assms(7) have ts: "ts = []" by (simp add: one_task_def)
      have j: "job (c', ts') = (i, Queued)" using eff assms(4) by (simp add: 2(3) ts job_eq)
      have m: "registry_of (w_db w) i = Some (se_user_id s, se_goal s, se_status s)"
        using assms(5) by (simp add: registry_of_def entry_of_def)
      have "k < length ?js" "?js ! k = (i, Waiting)" using assms(1,2,4) ts by (simp_all add: job_eq)
      from life.start [where m = "registry_of (w_db w)" and i = i, OF this m] assms(6) 2(1) show ?thesis by (auto simp: j)
    next
      case 3
      from abort_registry [OF assms(5)] assms(6) have "(owner_step ?a)\<^sup>*\<^sup>* (registry_of (w_db w)) (registry_of (w_db w'))"
        by (simp add: 3(2))
      from life_of_owner [OF this] 3(1) show ?thesis by (simp add: same)
    qed
  next
    case task: (task j t t' r)
    from task(1,2) assms(7) have ts: "ts = [t]" "j = 0" by (cases ts; auto simp: one_task_def)+
    from task_follows [OF assms(1) assms(2) [unfolded ts] task(3-5) assms(4-6)] show ?thesis by (simp add: task(6,7) ts)
  qed
qed

lemma sys_step_life:
  assumes "sys_step env a s s'" "sys_inv s"
  shows "(life a)\<^sup>*\<^sup>* (lives_of s) (lives_of s')"
proof -
  from sys_step_kept [OF assms] have inv: "sys_inv s'" by simp
  from assms(1,2) inv show ?thesis
  proof (induction rule: sys_step.induct)
    case (request rq w r w' cs)
    have "db_ok (w_db w)" using request(2) by (simp add: sys_inv_def)
    with followed.serving [of env rq w] request(1)
    have "(owner_step (acting env rq w))\<^sup>*\<^sup>* (registry_of (w_db w)) (registry_of (w_db w'))" by (simp add: follows_def)
    from life_of_owner [OF this] show ?case by (simp add: lives_of_def)
  next
    case (connected sid token w c w' cs)
    from ws_connect_result [OF connected(1)] obtain i s where c: "w_db w' = w_db w" "cn_session_id c = sid" "uuid_of sid = Inr i"
      "find_session (w_db w) i = Some s" "se_status s = ''pending''" "cn_user_id c = uuid_str (se_user_id s)"
      by (metis connection.select_convs(1,2))
    then have "registry_of (w_db w) i = Some (se_user_id s, se_goal s, ''pending'')" by (simp add: registry_of_def entry_of_def)
    from life.open_socket [where m = "registry_of (w_db w)", OF this] c show ?case
      by (auto simp: lives_of_def jobs_def phases_of_def)
  next
    case (refused sid token w r w' cs)
    have "w_db w' = w_db w" using db_keptD [OF kept_connect refused(1)] .
    then show ?case by (simp add: lives_of_def)
  next
    case (socket k cs c ts w c' ts' w')
    have "(c, ts) \<in> set cs" using socket(1,2) by (metis nth_mem)
    with socket(4) have "conn_ok w (c, ts)" by (simp add: sys_inv_def)
    then obtain i s where i: "uuid_of (cn_session_id c) = Inr i" "find_session (w_db w) i = Some s"
      "cn_user_id c = uuid_str (se_user_id s)" "one_task c ts" by (auto simp: conn_ok_def)
    from socket_follows [OF socket(1,2,3) i] show ?case
      by (simp add: lives_of_inv [OF socket(4)] lives_of_inv [OF socket(5)] map_update)
  qed
qed

interpretation refined: simulation "sys_step env" life sys_inv lives_of for env
  by unfold_locales (use sys_step_kept sys_step_life in blast)+

lemma any_step_eq: "any_step env = (\<lambda>s s'. \<exists>a. sys_step env a s s')"
  by (simp add: any_step_def fun_eq_iff)

lemma any_life_eq: "any_life = (\<lambda>x y. \<exists>a. life a x y)"
  by (simp add: any_life_def fun_eq_iff)

lemma start_inv: "db_ok (w_db w0) \<Longrightarrow> sys_inv (w0, [])"
  by (simp add: sys_inv_def)

text \<open>The phases of a session's tasks, and what a run of the service comes to for one session.\<close>

definition tasks_of :: "uuid \<Rightarrow> (connection \<times> task list) list \<Rightarrow> task set" where
  "tasks_of i cs = {t. \<exists>c ts. (c, ts) \<in> set cs \<and> t \<in> set ts \<and> uuid_of (cn_session_id c) = Inr i}"

lemma tasks_phases:
  assumes "sys_inv (w, cs)" "p \<noteq> Waiting"
  shows "p \<in> phases i (concat (map jobs cs)) \<longleftrightarrow> p \<in> phase_of ` tasks_of i cs"
proof -
  have j: "(i, p) \<in> set (jobs (c, ts)) \<longleftrightarrow> uuid_of (cn_session_id c) = Inr i \<and> p \<in> phase_of ` set ts" if "(c, ts) \<in> set cs" for c ts
  proof -
    from assms that have "conn_ok w (c, ts)" by (simp add: sys_inv_def)
    then obtain k where "uuid_of (cn_session_id c) = Inr k" by (auto simp: conn_ok_def)
    with assms(2) show ?thesis by (auto simp: jobs_def phases_of_def)
  qed
  have "p \<in> phases i (concat (map jobs cs)) \<longleftrightarrow> (\<exists>c ts. (c, ts) \<in> set cs \<and> (i, p) \<in> set (jobs (c, ts)))"
    by (simp add: phases_def Bex_def split_paired_Ex)
  also have "\<dots> \<longleftrightarrow> (\<exists>c ts. (c, ts) \<in> set cs \<and> uuid_of (cn_session_id c) = Inr i \<and> p \<in> phase_of ` set ts)" using j by blast
  also have "\<dots> \<longleftrightarrow> p \<in> phase_of ` tasks_of i cs" by (auto simp: tasks_of_def)
  finally show ?thesis .
qed

lemma run_lived:
  assumes "(any_step env)\<^sup>*\<^sup>* (w0, []) (w, cs)" "db_ok (w_db w0)" "find_session (w_db w) i = Some s"
  shows "lived_at (registry_of (w_db w0) i) (Some (se_user_id s, se_goal s, se_status s)) (phase_of ` tasks_of i cs)"
proof -
  note run = assms(1) [unfolded any_step_eq]
  from refined.runs [OF run start_inv [OF assms(2)]] have inv: "sys_inv (w, cs)" by simp
  have "lived (registry_of (w_db w0)) (lives_of (w0, []))"
    by (auto simp: lived_def lived_at_def lives_of_def phases_def split: option.split)
  from refined.transfer [of "lived (registry_of (w_db w0))", OF lived_step run start_inv [OF assms(2)] this]
  have "lived_at (registry_of (w_db w0) i) (registry_of (w_db w) i) (phases i (concat (map jobs cs)))"
    by (simp add: lived_def lives_of_def)
  then have l: "lived_at (registry_of (w_db w0) i) (Some (se_user_id s, se_goal s, se_status s)) (phases i (concat (map jobs cs)))"
    using assms(3) by (simp add: registry_of_def entry_of_def)
  from tasks_phases [OF inv, of Active i] tasks_phases [OF inv, of Over i] show ?thesis by (intro lived_phases [OF l]) auto
qed

section \<open>Properties\<close>

text \<open>C5: The service refines the life of sessions. Every step it takes, a request or a step of a socket, is
  on the sessions and tasks a sequence of abstract transitions taken on the same authority, or
  none; so every run of the service is a run of the abstract system.\<close>

theorem service_refines_lifecycle:
  assumes "(any_step env)\<^sup>*\<^sup>* (w0, []) s" "db_ok (w_db w0)" "sys_step env a s s'"
  shows "(life a)\<^sup>*\<^sup>* (lives_of s) (lives_of s') \<and> any_life\<^sup>*\<^sup>* (lives_of (w0, [])) (lives_of s')"
proof -
  from refined.runs [OF assms(1) [unfolded any_step_eq] start_inv [OF assms(2)]]
  have s: "sys_inv s" "any_life\<^sup>*\<^sup>* (lives_of (w0, [])) (lives_of s)" by (simp_all add: any_life_eq)
  from refined.simulates [OF s(1) assms(3)] have l: "(life a)\<^sup>*\<^sup>* (lives_of s) (lives_of s')" .
  with refined.matched [OF l] s(2) show ?thesis by (simp add: any_life_eq)
qed

theorem service_refines_lifecycle_witness:
  "\<exists>c w'. (life (Some (uuid_str 1)))\<^sup>*\<^sup>* (lives_of (ws_world ''pending'', [])) (lives_of (w', [(c, [])]))
     \<and> snd (lives_of (w', [(c, [])])) = [(7, Waiting)]"
proof -
  obtain c w' where m: "ws_connect idle_env seven (plain_encode (uuid_str 1) 100 0 [] []) (ws_world ''pending'') = (Inr (Some c), w')"
    using owner_connects by blast
  from ws_connect_result [OF m] obtain i s where c: "cn_session_id c = seven" "uuid_of seven = Inr i"
    "find_session (w_db (ws_world ''pending'')) i = Some s" "cn_user_id c = uuid_str (se_user_id s)"
    by (metis connection.select_convs(1,2))
  then have u: "cn_user_id c = uuid_str 1" using ws_world_session [of "''pending''"] by (auto simp: seven_ok)
  from service_refines_lifecycle [OF rtranclp.rtrancl_refl pending_ok sys_step.connected [OF m, of "[]"]] u c(1)
  show ?thesis by (intro exI [of _ c] exI [of _ w']) (simp add: lives_of_def jobs_def phases_of_def seven_ok)
qed

text \<open>C6: The life of a session, whatever the service's clients do. Its owner and goal stay, and once it is
  no longer pending it never is again. While it is pending no task of it is under way, and one that
  was pending or not yet made is running, completed or failed only after a task was started for it
  on a socket.\<close>

theorem session_lifecycle:
  assumes "(any_step env)\<^sup>*\<^sup>* (w0, []) (w, cs)" "db_ok (w_db w0)" "find_session (w_db w) i = Some s"
  defines "tasks \<equiv> {t. \<exists>c ts. (c, ts) \<in> set cs \<and> t \<in> set ts \<and> uuid_of (cn_session_id c) = Inr i}"
  shows "(\<forall>s0. find_session (w_db w0) i = Some s0 \<longrightarrow> se_user_id s = se_user_id s0 \<and> se_goal s = se_goal s0
        \<and> (se_status s0 \<noteq> ''pending'' \<longrightarrow> se_status s \<noteq> ''pending''))
    \<and> (se_status s = ''pending'' \<longrightarrow> (\<forall>t \<in> tasks. phase_of t \<noteq> Active))
    \<and> (se_status s \<in> {''running'', ''completed'', ''failed''} \<longrightarrow>
        (\<forall>s0. find_session (w_db w0) i = Some s0 \<longrightarrow> se_status s0 = ''pending'') \<longrightarrow>
        (\<exists>t \<in> tasks. phase_of t \<in> {Active, Over}))"
proof -
  have l: "lived_at (registry_of (w_db w0) i) (Some (se_user_id s, se_goal s, se_status s)) (phase_of ` tasks)"
    unfolding tasks_def using assms(1-3) by (rule run_lived [unfolded tasks_of_def])
  have "se_user_id s = se_user_id s0 \<and> se_goal s = se_goal s0 \<and> (se_status s0 \<noteq> ''pending'' \<longrightarrow> se_status s \<noteq> ''pending'')"
    if "find_session (w_db w0) i = Some s0" for s0
    using lived_atD(1) [OF l] that by (simp add: registry_of_def entry_of_def)
  moreover have "\<forall>t \<in> tasks. phase_of t \<noteq> Active" if "se_status s = ''pending''"
    using lived_atD(2) [OF l that] by force
  moreover have "\<exists>t \<in> tasks. phase_of t \<in> {Active, Over}"
    if st: "se_status s \<in> {''running'', ''completed'', ''failed''}"
      and new: "\<forall>s0. find_session (w_db w0) i = Some s0 \<longrightarrow> se_status s0 = ''pending''"
  proof -
    have "Active \<in> phase_of ` tasks \<or> Over \<in> phase_of ` tasks"
    proof (rule lived_atD(3) [OF l st])
      fix u g b assume "registry_of (w_db w0) i = Some (u, g, b)"
      then show "b = ''pending''" using new by (auto simp: registry_of_def entry_of_def)
    qed
    then show ?thesis by (elim disjE imageE) (simp_all only: insert_iff, metis+)
  qed
  ultimately show ?thesis by blast
qed

theorem session_lifecycle_witness:
  "\<exists>s c w'. find_session (w_db w') 7 = Some s \<and> se_status s = ''pending'' \<and> se_user_id s = 1 \<and> (any_step idle_env)\<^sup>*\<^sup>* (ws_world ''pending'', []) (w', [(c, [])])"
proof -
  obtain c w' where m: "ws_connect idle_env seven (plain_encode (uuid_str 1) 100 0 [] []) (ws_world ''pending'') = (Inr (Some c), w')"
    using owner_connects by blast
  from ws_connect_result [OF m] have c: "cn_session_id c = seven" "w_db w' = w_db (ws_world ''pending'')"
    by (metis connection.select_convs(1))+
  obtain s where s: "find_session (w_db (ws_world ''pending'')) 7 = Some s" "se_status s = ''pending''" "se_user_id s = 1"
    using ws_world_session by blast
  have run: "(any_step idle_env)\<^sup>*\<^sup>* (ws_world ''pending'', []) (w', [(c, [])])"
    by (rule r_into_rtranclp [of "any_step idle_env"]) (use sys_step.connected [OF m, of "[]"] in \<open>auto simp: any_step_def\<close>)
  from session_lifecycle [OF run pending_ok s(1) [folded c(2)]] s c run show ?thesis
    by (intro exI [of _ s] exI [of _ c] exI [of _ w']) (simp add: seven_ok)
qed

end
