(* ===== verification/Clients.thy ===== *)
theory Clients
  imports World
begin

text \<open>
  What stands between the program and its services: settings read once (\<open>get_settings\<close> of
  \<open>backend/config.py\<close>), one client each for Redis (\<open>backend/db/redis.py\<close>), the vector index
  (\<open>backend/db/pinecone_client.py\<close>) and the sandbox (\<open>_get_stub\<close> of \<open>backend/tools/code_executor.py\<close>), made
  when first needed and kept in module variables, and the checkpointer
  (\<open>backend/core/checkpointer.py\<close>). The libraries that parse settings and construct clients are
  parameters; everywhere else the model takes what is shown here for granted: fixed settings and
  one client of each kind.
\<close>

section \<open>Settings\<close>

text \<open>Where values come from: the process environment before the \<open>.env\<close> file, by upper-case name. Parsing
  of addresses and integers is the library's: \<open>None\<close> is a value it refuses.\<close>

record config_source =
  cs_environ :: "string \<Rightarrow> string option"
  cs_dotenv :: "string \<Rightarrow> string option"
  cs_postgres_url :: "string \<Rightarrow> string option"
  cs_redis_url :: "string \<Rightarrow> string option"
  cs_int :: "string \<Rightarrow> int option"

definition setting :: "config_source \<Rightarrow> string \<Rightarrow> string option" where
  "setting src k = (case cs_environ src k of Some v \<Rightarrow> Some v | None \<Rightarrow> cs_dotenv src k)"

text \<open>A field: missing without a default, or refused by its type, counts as an error.\<close>

definition field :: "config_source \<Rightarrow> string \<Rightarrow> (string \<Rightarrow> 'a option) \<Rightarrow> 'a option \<Rightarrow> 'a option" where
  "field src k parse dflt = (case setting src k of None \<Rightarrow> dflt | Some v \<Rightarrow> parse v)"

definition parse_mode :: "string \<Rightarrow> string option" where
  "parse_mode v = (if v \<in> {''multi'', ''openai_only''} then Some v else None)"

definition validation_error :: "nat \<Rightarrow> pyexn" where
  "validation_error n = Exn ValueError (str_of_nat n @ '' validation error'' @ (if n = 1 then [] else ''s'') @ '' for Settings'')"

definition read_settings :: "config_source \<Rightarrow> settings result" where
  "read_settings src =
     (let pg = field src ''DATABASE_URL'' (cs_postgres_url src) None;
          rd = field src ''REDIS_URL'' (cs_redis_url src) None;
          oa = field src ''OPENAI_API_KEY'' Some None;
          mode = field src ''PROVIDER_MODE'' parse_mode (Some ''openai_only'');
          tavily = field src ''TAVILY_API_KEY'' Some None;
          pinecone = field src ''PINECONE_API_KEY'' Some None;
          secret = field src ''JWT_SECRET'' Some None;
          expiry = field src ''JWT_EXPIRY_SECONDS'' (cs_int src) (Some 3600);
          refused = filter id [pg = None, rd = None, oa = None, mode = None, tavily = None, pinecone = None, secret = None, expiry = None]
      in if refused \<noteq> [] then Inl (validation_error (length refused))
         else validate_multi_provider_keys
           \<lparr>database_url = the pg, redis_url = the rd, openai_api_key = the oa,
            anthropic_api_key = setting src ''ANTHROPIC_API_KEY'', google_api_key = setting src ''GOOGLE_API_KEY'',
            provider_mode = the mode, tavily_api_key = the tavily, pinecone_api_key = the pinecone,
            pinecone_index = the (field src ''PINECONE_INDEX'' Some (Some ''nexus-memory'')),
            jwt_secret = the secret, jwt_algorithm = the (field src ''JWT_ALGORITHM'' Some (Some ''HS256'')),
            jwt_expiry_seconds = the expiry, sandbox_url = the (field src ''SANDBOX_URL'' Some (Some ''sandbox:50051'')),
            log_level = the (field src ''LOG_LEVEL'' Some (Some ''INFO'')),
            otel_exporter_otlp_endpoint = the (field src ''OTEL_EXPORTER_OTLP_ENDPOINT'' Some (Some []))\<rparr>)"

section \<open>Clients\<close>

text \<open>A client has an identity, by which two of them can be told apart, and what it was made with.\<close>

record redis_client =
  rc_id :: nat
  rc_url :: string
  rc_decode_responses :: bool
  rc_socket_timeout :: int
  rc_connect_timeout :: int

record pinecone_client =
  pc_id :: nat
  pc_api_key :: string

record sandbox_stub =
  sb_id :: nat
  sb_target :: string

record index_spec =
  ix_name :: string
  ix_dimension :: int
  ix_metric :: string
  ix_cloud :: string
  ix_region :: string

text \<open>The module variables, the cache of \<open>get_settings\<close>, the Redis clients not yet closed, the indexes at
  the service, and a count of external events.\<close>

record clients =
  ct_settings :: "settings option"
  ct_redis :: "redis_client option"
  ct_pinecone :: "pinecone_client option"
  ct_stub :: "sandbox_stub option"
  ct_open :: "nat list"
  ct_indexes :: "index_spec list"
  ct_events :: nat

text \<open>What is outside: the source of settings at the time of a call, and whether a call fails.\<close>

record outside =
  os_source :: "nat \<Rightarrow> config_source"
  os_redis :: "nat \<Rightarrow> string \<Rightarrow> pyexn option"
  os_close :: "nat \<Rightarrow> pyexn option"
  os_pinecone :: "nat \<Rightarrow> string \<Rightarrow> pyexn option"
  os_stub :: "nat \<Rightarrow> string \<Rightarrow> pyexn option"
  os_index :: "nat \<Rightarrow> string \<Rightarrow> pyexn option"
  os_list :: "nat \<Rightarrow> pyexn option"
  os_create :: "nat \<Rightarrow> pyexn option"

text \<open>An external event: it fails, or gives a value and changes the state.\<close>

definition event :: "(nat \<Rightarrow> pyexn option) \<Rightarrow> (nat \<Rightarrow> 'a) \<Rightarrow> ('a \<Rightarrow> clients \<Rightarrow> clients) \<Rightarrow> (clients, 'a) action" where
  "event fails fresh change = (\<lambda>s.
     let n = ct_events s; s' = s\<lparr>ct_events := Suc n\<rparr> in
     case fails n of Some e \<Rightarrow> (Inl e, s') | None \<Rightarrow> (Inr (fresh n), change (fresh n) s'))"

text \<open>\<open>lru_cache\<close> keeps the one value; an exception is not kept, so a later call reads again.\<close>

definition get_settings :: "outside \<Rightarrow> (clients, settings) action" where
  "get_settings os = (\<lambda>s. case ct_settings s of
       Some cfg \<Rightarrow> (Inr cfg, s)
     | None \<Rightarrow>
         let s' = s\<lparr>ct_events := Suc (ct_events s)\<rparr> in
         (case read_settings (os_source os (ct_events s)) of
            Inl e \<Rightarrow> (Inl e, s')
          | Inr cfg \<Rightarrow> (Inr cfg, s'\<lparr>ct_settings := Some cfg\<rparr>)))"

definition get_redis :: "outside \<Rightarrow> (clients, redis_client) action" where
  "get_redis os = (\<lambda>s. case ct_redis s of
       Some c \<Rightarrow> (Inr c, s)
     | None \<Rightarrow>
         abind (get_settings os) (\<lambda>cfg.
         event (\<lambda>n. os_redis os n (redis_url cfg))
           (\<lambda>n. \<lparr>rc_id = n, rc_url = redis_url cfg, rc_decode_responses = True, rc_socket_timeout = 5, rc_connect_timeout = 5\<rparr>)
           (\<lambda>c s. s\<lparr>ct_redis := Some c, ct_open := rc_id c # ct_open s\<rparr>)) s)"

definition close_redis :: "outside \<Rightarrow> (clients, unit) action" where
  "close_redis os = (\<lambda>s. case ct_redis s of
       None \<Rightarrow> (Inr (), s)
     | Some c \<Rightarrow> event (os_close os) (\<lambda>n. ()) (\<lambda>_ s. s\<lparr>ct_redis := None, ct_open := removeAll (rc_id c) (ct_open s)\<rparr>) s)"

definition get_pinecone :: "outside \<Rightarrow> (clients, pinecone_client) action" where
  "get_pinecone os = (\<lambda>s. case ct_pinecone s of
       Some c \<Rightarrow> (Inr c, s)
     | None \<Rightarrow>
         abind (get_settings os) (\<lambda>cfg.
         event (\<lambda>n. os_pinecone os n (pinecone_api_key cfg)) (\<lambda>n. \<lparr>pc_id = n, pc_api_key = pinecone_api_key cfg\<rparr>)
           (\<lambda>c s. s\<lparr>ct_pinecone := Some c\<rparr>)) s)"

text \<open>A handle for the index of the settings; the library may ask the service for it.\<close>

definition get_index :: "outside \<Rightarrow> (clients, pinecone_client \<times> string) action" where
  "get_index os =
     abind (get_settings os) (\<lambda>cfg.
     abind (get_pinecone os) (\<lambda>pc.
     event (\<lambda>n. os_index os n (pinecone_index cfg)) (\<lambda>n. (pc, pinecone_index cfg)) (\<lambda>_ s. s)))"

definition memory_index :: "settings \<Rightarrow> index_spec" where
  "memory_index cfg = \<lparr>ix_name = pinecone_index cfg, ix_dimension = 1536, ix_metric = ''cosine'', ix_cloud = ''aws'',
     ix_region = ''us-east-1''\<rparr>"

definition ensure_index_exists :: "outside \<Rightarrow> (clients, unit) action" where
  "ensure_index_exists os =
     abind (get_settings os) (\<lambda>cfg.
     abind (get_pinecone os) (\<lambda>pc.
     abind (\<lambda>s. event (os_list os) (\<lambda>n. map ix_name (ct_indexes s)) (\<lambda>_ s. s) s) (\<lambda>existing.
     if pinecone_index cfg \<in> set existing then aret ()
     else event (os_create os) (\<lambda>n. ()) (\<lambda>_ s. s\<lparr>ct_indexes := ct_indexes s @ [memory_index cfg]\<rparr>))))"

text \<open>The channel and the stub are made together.\<close>

definition get_stub :: "outside \<Rightarrow> (clients, sandbox_stub) action" where
  "get_stub os = (\<lambda>s. case ct_stub s of
       Some c \<Rightarrow> (Inr c, s)
     | None \<Rightarrow>
         abind (get_settings os) (\<lambda>cfg.
         event (\<lambda>n. os_stub os n (sandbox_url cfg)) (\<lambda>n. \<lparr>sb_id = n, sb_target = sandbox_url cfg\<rparr>)
           (\<lambda>c s. s\<lparr>ct_stub := Some c\<rparr>)) s)"

section \<open>The checkpointer\<close>

text \<open>
  \<open>async with\<close>: what is entered is left, whether the body ends or raises; leaving may itself raise.
\<close>

definition async_with :: "('s, 'h) action \<Rightarrow> ('h \<Rightarrow> ('s, unit) action) \<Rightarrow> ('h \<Rightarrow> ('s, 'a) action) \<Rightarrow> ('s, 'a) action" where
  "async_with enter leave body =
     abind enter (\<lambda>h s. case body h s of (r, s') \<Rightarrow> abind (leave h) (\<lambda>_. alift r) s')"

text \<open>A caller's block stands where the generator yields: it runs with the saver once the tables are set up.\<close>

definition get_checkpointer :: "(string \<Rightarrow> ('s, 'h) action) \<Rightarrow> ('h \<Rightarrow> ('s, unit) action) \<Rightarrow> ('h \<Rightarrow> ('s, unit) action) \<Rightarrow>
    string \<Rightarrow> ('h \<Rightarrow> ('s, 'a) action) \<Rightarrow> ('s, 'a) action" where
  "get_checkpointer connect close setup conn_string block =
     async_with (connect conn_string) close (\<lambda>saver. abind (setup saver) (\<lambda>_. block saver))"

section \<open>One client of each kind\<close>

datatype client_op = GetSettings | GetRedis | CloseRedis | GetPinecone | GetIndex | EnsureIndex | GetStub

definition perform :: "outside \<Rightarrow> client_op \<Rightarrow> clients \<Rightarrow> clients" where
  "perform os op = (case op of
       GetSettings \<Rightarrow> snd \<circ> get_settings os
     | GetRedis \<Rightarrow> snd \<circ> get_redis os
     | CloseRedis \<Rightarrow> snd \<circ> close_redis os
     | GetPinecone \<Rightarrow> snd \<circ> get_pinecone os
     | GetIndex \<Rightarrow> snd \<circ> get_index os
     | EnsureIndex \<Rightarrow> snd \<circ> ensure_index_exists os
     | GetStub \<Rightarrow> snd \<circ> get_stub os)"

definition no_clients :: "index_spec list \<Rightarrow> clients" where
  "no_clients ixs = \<lparr>ct_settings = None, ct_redis = None, ct_pinecone = None, ct_stub = None, ct_open = [], ct_indexes = ixs,
     ct_events = 0\<rparr>"

text \<open>The Redis client in use is the only one open, and every client was made with the settings read.\<close>

definition clients_ok :: "clients \<Rightarrow> bool" where
  "clients_ok s \<longleftrightarrow> ct_open s = (case ct_redis s of None \<Rightarrow> [] | Some c \<Rightarrow> [rc_id c])
     \<and> (\<forall>c. ct_redis s = Some c \<longrightarrow> (\<exists>cfg. ct_settings s = Some cfg \<and> rc_url c = redis_url cfg))
     \<and> (\<forall>c. ct_pinecone s = Some c \<longrightarrow> (\<exists>cfg. ct_settings s = Some cfg \<and> pc_api_key c = pinecone_api_key cfg))
     \<and> (\<forall>c. ct_stub s = Some c \<longrightarrow> (\<exists>cfg. ct_settings s = Some cfg \<and> sb_target c = sandbox_url cfg))"

text \<open>What every operation keeps: settings, index client and stub once they are there, and the indexes.\<close>

definition settled :: "clients \<Rightarrow> clients \<Rightarrow> bool" where
  "settled s s' \<longleftrightarrow> (clients_ok s \<longrightarrow> clients_ok s')
     \<and> (\<forall>cfg. ct_settings s = Some cfg \<longrightarrow> ct_settings s' = Some cfg)
     \<and> (\<forall>c. ct_pinecone s = Some c \<longrightarrow> ct_pinecone s' = Some c)
     \<and> (\<forall>c. ct_stub s = Some c \<longrightarrow> ct_stub s' = Some c)
     \<and> (\<exists>new. ct_indexes s' = ct_indexes s @ new)"

interpretation settled: world_order settled
  by unfold_locales (auto simp: settled_def)

lemma get_settings_run:
  assumes "get_settings os s = (r, s')"
  shows "settled s s' \<and> ct_redis s' = ct_redis s \<and> ct_pinecone s' = ct_pinecone s \<and> ct_stub s' = ct_stub s
    \<and> ct_indexes s' = ct_indexes s \<and> ct_open s' = ct_open s \<and> (\<forall>cfg. r = Inr cfg \<longrightarrow> ct_settings s' = Some cfg)"
  using assms by (auto simp: get_settings_def Let_def settled_def clients_ok_def split: option.splits sum.splits)

lemma settled_events: "settled s (s\<lparr>ct_events := n\<rparr>)"
  by (simp add: settled_def clients_ok_def)

lemma keeps_settings: "act_keeps settled (get_settings os)"
  unfolding act_keeps_def using get_settings_run by (metis prod.collapse)

text \<open>Making a client: the settings are read, and an event sets the variable.\<close>

lemma settled_made:
  assumes "get_settings os s = (r, s1)"
    and "\<And>cfg n. r = Inr cfg \<Longrightarrow> settled s1 (change cfg (fresh cfg n) (s1\<lparr>ct_events := Suc n\<rparr>))"
  shows "settled s (snd (abind (get_settings os) (\<lambda>cfg. event (fails cfg) (fresh cfg) (change cfg)) s))"
proof -
  from get_settings_run [OF assms(1)] have s1: "settled s s1" by simp
  show ?thesis
  proof (cases r)
    case (Inl e)
    with assms(1) s1 show ?thesis by simp
  next
    case (Inr cfg)
    with assms s1 settled_events [of s1 "Suc (ct_events s1)"] show ?thesis
      by (auto simp: event_def Let_def intro: settled.trans split: option.split)
  qed
qed

lemma keeps_get_redis: "act_keeps settled (get_redis os)"
  unfolding act_keeps_def
proof
  fix s
  obtain r s1 where g: "get_settings os s = (r, s1)" by fastforce
  note run = get_settings_run [OF g]
  show "settled s (snd (get_redis os s))"
  proof (cases "ct_redis s")
    case None
    then show ?thesis unfolding get_redis_def
      by (simp del: abind_step) (rule settled_made [OF g], use run None in \<open>auto simp: settled_def clients_ok_def\<close>)
  qed (simp add: get_redis_def settled.refl)
qed

lemma keeps_close: "act_keeps settled (close_redis os)"
  unfolding act_keeps_def
  by (auto simp: close_redis_def event_def Let_def settled_def clients_ok_def split: option.split)

lemma keeps_pinecone: "act_keeps settled (get_pinecone os)"
  unfolding act_keeps_def
proof
  fix s
  obtain r s1 where g: "get_settings os s = (r, s1)" by fastforce
  note run = get_settings_run [OF g]
  show "settled s (snd (get_pinecone os s))"
  proof (cases "ct_pinecone s")
    case None
    then show ?thesis unfolding get_pinecone_def
      by (simp del: abind_step) (rule settled_made [OF g], use run None in \<open>auto simp: settled_def clients_ok_def\<close>)
  qed (simp add: get_pinecone_def settled.refl)
qed

lemma keeps_stub: "act_keeps settled (get_stub os)"
  unfolding act_keeps_def
proof
  fix s
  obtain r s1 where g: "get_settings os s = (r, s1)" by fastforce
  note run = get_settings_run [OF g]
  show "settled s (snd (get_stub os s))"
  proof (cases "ct_stub s")
    case None
    then show ?thesis unfolding get_stub_def
      by (simp del: abind_step) (rule settled_made [OF g], use run None in \<open>auto simp: settled_def clients_ok_def\<close>)
  qed (simp add: get_stub_def settled.refl)
qed

text \<open>An event that touches the indexes at most.\<close>

lemma keeps_event:
  assumes "\<And>s x. \<exists>new. change x s = s\<lparr>ct_indexes := ct_indexes s @ new\<rparr>"
  shows "act_keeps settled (event fails fresh change)"
proof -
  have "settled s (change x (s\<lparr>ct_events := n\<rparr>))" for s x n
  proof -
    obtain new where "change x (s\<lparr>ct_events := n\<rparr>) = (s\<lparr>ct_events := n\<rparr>)\<lparr>ct_indexes := ct_indexes s @ new\<rparr>"
      using assms [of x "s\<lparr>ct_events := n\<rparr>"] by auto
    then show ?thesis by (simp add: settled_def clients_ok_def)
  qed
  with settled_events show ?thesis by (auto simp: act_keeps_def event_def Let_def split: option.split)
qed

lemma no_change: "\<exists>new. s = s\<lparr>ct_indexes := ct_indexes s @ new\<rparr>"
  by (rule exI [of _ "[]"]) simp

lemma keeps_index: "act_keeps settled (get_index os)" "act_keeps settled (ensure_index_exists os)"
proof -
  show "act_keeps settled (get_index os)" unfolding get_index_def
    by (intro settled.keeps_abind keeps_settings keeps_pinecone keeps_event no_change)
  have "act_keeps settled (\<lambda>s. event (os_list os) (\<lambda>n. map ix_name (ct_indexes s)) (\<lambda>_ s. s) s)"
    unfolding act_keeps_def using keeps_event [of "\<lambda>_ s. s", OF no_change, unfolded act_keeps_def] by blast
  then show "act_keeps settled (ensure_index_exists os)" unfolding ensure_index_exists_def
    by (intro settled.keeps_abind keeps_settings keeps_pinecone keeps_if settled.keeps_aret keeps_event) auto
qed

lemma settled_perform: "settled s (perform os op s)"
  using keeps_settings [of os] keeps_get_redis [of os] keeps_close [of os] keeps_pinecone [of os] keeps_index [of os] keeps_stub [of os]
  by (cases op) (simp_all add: perform_def act_keeps_def)

lemma settled_ops: "settled s (fold (perform os) ops s)"
proof (induction ops arbitrary: s)
  case (Cons op ops)
  from settled.trans [OF settled_perform Cons] show ?case by simp
qed (simp add: settled.refl)

text \<open>The index: there afterwards, made only when it was missing, and never made twice.\<close>

lemma index_ensured:
  assumes "ensure_index_exists os s = (Inr (), s')"
  shows "\<exists>cfg. ct_settings s' = Some cfg \<and> pinecone_index cfg \<in> ix_name ` set (ct_indexes s')
    \<and> ct_indexes s' = (if pinecone_index cfg \<in> ix_name ` set (ct_indexes s) then ct_indexes s else ct_indexes s @ [memory_index cfg])"
proof -
  from assms obtain cfg s1 pc s2 where g: "get_settings os s = (Inr cfg, s1)" and p: "get_pinecone os s1 = (Inr pc, s2)"
    by (auto simp: ensure_index_exists_def abind_Inr)
  from get_settings_run [OF g] have 1: "ct_indexes s1 = ct_indexes s" "ct_settings s1 = Some cfg" by auto
  have "settled s1 s2" using keeps_pinecone p by (metis act_keeps_def snd_conv)
  then have 2: "ct_settings s2 = Some cfg" using 1(2) by (simp add: settled_def)
  from 1(2) have gs: "get_settings os s1 = (Inr cfg, s1)" by (simp add: get_settings_def)
  have 3: "ct_indexes s2 = ct_indexes s1"
    using p gs by (auto simp: get_pinecone_def event_def Let_def abind_def split: option.splits)
  show ?thesis using assms g p 1 2 3
    by (auto simp: ensure_index_exists_def event_def Let_def abind_def memory_index_def split: option.splits if_splits)
qed

lemma index_made_once:
  assumes "ensure_index_exists os s = (Inr (), s1)" "ensure_index_exists os s1 = (Inr (), s2)"
  shows "ct_indexes s2 = ct_indexes s1"
proof -
  from index_ensured [OF assms(1)] obtain cfg where 1: "ct_settings s1 = Some cfg" "pinecone_index cfg \<in> ix_name ` set (ct_indexes s1)" by blast
  have "settled s1 s2" using keeps_index(2) assms(2) by (metis act_keeps_def snd_conv)
  then have "ct_settings s2 = Some cfg" using 1(1) by (simp add: settled_def)
  with index_ensured [OF assms(2)] 1(2) show ?thesis by auto
qed

text \<open>A block never runs without a checkpointer that was set up.\<close>

lemma no_block_without_setup:
  assumes "\<And>h s. \<exists>e. fst (setup h s) = Inl e"
  shows "get_checkpointer connect close setup dsn block = get_checkpointer connect close setup dsn block'"
proof -
  have "abind (setup h) (\<lambda>_. block h) = abind (setup h) (\<lambda>_. block' h)" for h
  proof
    fix s
    obtain e where "fst (setup h s) = Inl e" using assms by blast
    then show "abind (setup h) (\<lambda>_. block h) s = abind (setup h) (\<lambda>_. block' h) s" by (cases "setup h s") simp
  qed
  then show ?thesis by (simp add: get_checkpointer_def)
qed

lemma read_settings_fields:
  assumes "read_settings src = Inr cfg"
  shows "field src ''PROVIDER_MODE'' parse_mode (Some ''openai_only'') = Some (provider_mode cfg)
    \<and> field src ''JWT_SECRET'' Some None = Some (jwt_secret cfg)
    \<and> field src ''OPENAI_API_KEY'' Some None = Some (openai_api_key cfg)
    \<and> validate_multi_provider_keys cfg = Inr cfg"
proof -
  have v: "validate_multi_provider_keys c = Inr cfg \<Longrightarrow> c = cfg" for c
    by (simp add: validate_multi_provider_keys_def split: if_splits)
  from assms obtain mode secret oa where f: "field src ''PROVIDER_MODE'' parse_mode (Some ''openai_only'') = Some mode"
    "field src ''JWT_SECRET'' Some None = Some secret" "field src ''OPENAI_API_KEY'' Some None = Some oa"
    unfolding read_settings_def Let_def by (simp only: filter_empty_conv split: if_splits) auto
  with assms show ?thesis unfolding read_settings_def Let_def by (auto split: if_splits dest: v)
qed

section \<open>Properties\<close>

text \<open>Settings that were read name a known provider mode, in which the keys it needs are there, and a
  variable of the process goes before the file.\<close>

theorem settings_sound:
  assumes "read_settings src = Inr cfg"
  shows "provider_mode cfg \<in> {''multi'', ''openai_only''}
    \<and> (provider_mode cfg = ''multi'' \<longrightarrow> (\<exists>a g. anthropic_api_key cfg = Some a \<and> a \<noteq> [] \<and> google_api_key cfg = Some g \<and> g \<noteq> []))
    \<and> (setting src ''PROVIDER_MODE'' = None \<longrightarrow> provider_mode cfg = ''openai_only'')
    \<and> (\<forall>v. cs_environ src ''PROVIDER_MODE'' = Some v \<longrightarrow> provider_mode cfg = v)
    \<and> (\<forall>v. cs_environ src ''JWT_SECRET'' = Some v \<longrightarrow> jwt_secret cfg = v)
    \<and> setting src ''JWT_SECRET'' = Some (jwt_secret cfg) \<and> setting src ''OPENAI_API_KEY'' = Some (openai_api_key cfg)"
proof -
  from read_settings_fields [OF assms] have
    mode: "field src ''PROVIDER_MODE'' parse_mode (Some ''openai_only'') = Some (provider_mode cfg)"
    and secret: "field src ''JWT_SECRET'' Some None = Some (jwt_secret cfg)"
    and oa: "field src ''OPENAI_API_KEY'' Some None = Some (openai_api_key cfg)"
    and keys: "validate_multi_provider_keys cfg = Inr cfg" by auto
  have k: "setting src k = Some x" if "field src k Some None = Some x" for k x
    using that by (simp add: field_def split: option.splits)
  have "provider_mode cfg \<in> {''multi'', ''openai_only''}"
    using mode by (simp add: field_def parse_mode_def split: option.splits if_splits)
  moreover have "provider_mode cfg = ''multi'' \<longrightarrow>
      (\<exists>a g. anthropic_api_key cfg = Some a \<and> a \<noteq> [] \<and> google_api_key cfg = Some g \<and> g \<noteq> [])"
    using keys by (auto simp: validate_multi_provider_keys_def no_key_def split: if_splits)
  moreover have "setting src ''PROVIDER_MODE'' = None \<longrightarrow> provider_mode cfg = ''openai_only''"
    using mode by (simp add: field_def split: option.splits)
  moreover have "cs_environ src ''PROVIDER_MODE'' = Some v \<longrightarrow> provider_mode cfg = v" for v
    using mode by (auto simp: field_def setting_def parse_mode_def split: if_splits)
  moreover have "cs_environ src ''JWT_SECRET'' = Some v \<longrightarrow> jwt_secret cfg = v" for v
    using k [OF secret] by (auto simp: setting_def)
  ultimately show ?thesis using k [OF secret] k [OF oa] by blast
qed

definition plain_source :: "string \<Rightarrow> config_source" where
  "plain_source mode = \<lparr>cs_environ = (\<lambda>k. if k = ''PROVIDER_MODE'' then Some mode else None), cs_dotenv = (\<lambda>k. Some ''v''),
     cs_postgres_url = Some, cs_redis_url = Some, cs_int = (\<lambda>v. Some 60)\<rparr>"

theorem settings_sound_witness:
  "\<exists>cfg. read_settings (plain_source ''multi'') = Inr cfg \<and> provider_mode cfg = ''multi''"
proof -
  obtain cfg where m: "read_settings (plain_source ''multi'') = Inr cfg"
    by (auto simp: read_settings_def Let_def validate_multi_provider_keys_def no_key_def field_def parse_mode_def setting_def
        plain_source_def)
  from settings_sound [OF m] m show ?thesis by (auto simp: plain_source_def)
qed

text \<open>C38: One client of each kind. Whatever is asked of the clients, in any order, with calls failing as they
  may: at most one Redis client is open, and it is the one in use; a client of any kind is there
  only when the settings were read, and it was made with the ones that were; and the settings,
  the index client and the sandbox stub, once there, stay the same for ever, whatever becomes of
  the environment.\<close>

theorem client_singletons:
  fixes os :: outside and before after :: "client_op list" and ixs :: "index_spec list"
  defines "s \<equiv> fold (perform os) before (no_clients ixs)" and "s' \<equiv> fold (perform os) after (fold (perform os) before (no_clients ixs))"
  shows "length (ct_open s) \<le> 1 \<and> set (ct_open s) = rc_id ` set_option (ct_redis s)
    \<and> (\<forall>c. ct_redis s = Some c \<longrightarrow> (\<exists>cfg. ct_settings s = Some cfg \<and> rc_url c = redis_url cfg))
    \<and> (\<forall>c. ct_pinecone s = Some c \<longrightarrow> (\<exists>cfg. ct_settings s = Some cfg \<and> pc_api_key c = pinecone_api_key cfg))
    \<and> (\<forall>c. ct_stub s = Some c \<longrightarrow> (\<exists>cfg. ct_settings s = Some cfg \<and> sb_target c = sandbox_url cfg))
    \<and> (\<forall>cfg. ct_settings s = Some cfg \<longrightarrow> ct_settings s' = Some cfg
         \<and> (\<forall>c. ct_redis s' = Some c \<longrightarrow> rc_url c = redis_url cfg)
         \<and> (\<forall>c. ct_pinecone s' = Some c \<longrightarrow> pc_api_key c = pinecone_api_key cfg)
         \<and> (\<forall>c. ct_stub s' = Some c \<longrightarrow> sb_target c = sandbox_url cfg))
    \<and> (\<forall>c. ct_pinecone s = Some c \<longrightarrow> ct_pinecone s' = Some c) \<and> (\<forall>c. ct_stub s = Some c \<longrightarrow> ct_stub s' = Some c)"
proof -
  have "clients_ok (no_clients ixs)" by (simp add: clients_ok_def no_clients_def)
  with settled_ops [of "no_clients ixs"] have s: "clients_ok s" by (simp add: s_def settled_def)
  have ss: "settled s s'" using settled_ops by (simp add: s_def s'_def)
  with s have s': "clients_ok s'" by (simp add: settled_def)
  have "ct_open s = (case ct_redis s of None \<Rightarrow> [] | Some c \<Rightarrow> [rc_id c])" using s by (simp add: clients_ok_def)
  then have one: "length (ct_open s) \<le> 1 \<and> set (ct_open s) = rc_id ` set_option (ct_redis s)"
    by (cases "ct_redis s") simp_all
  have made: "\<forall>c. ct_redis s = Some c \<longrightarrow> (\<exists>cfg. ct_settings s = Some cfg \<and> rc_url c = redis_url cfg)"
    "\<forall>c. ct_pinecone s = Some c \<longrightarrow> (\<exists>cfg. ct_settings s = Some cfg \<and> pc_api_key c = pinecone_api_key cfg)"
    "\<forall>c. ct_stub s = Some c \<longrightarrow> (\<exists>cfg. ct_settings s = Some cfg \<and> sb_target c = sandbox_url cfg)"
    using s by (simp_all add: clients_ok_def)
  have kept: "ct_settings s' = Some cfg" if "ct_settings s = Some cfg" for cfg using ss that by (simp add: settled_def)
  have urls: "rc_url c = redis_url cfg" if "ct_settings s' = Some cfg" "ct_redis s' = Some c" for cfg c
    using s' that by (simp add: clients_ok_def)
  have keys: "pc_api_key c = pinecone_api_key cfg" if "ct_settings s' = Some cfg" "ct_pinecone s' = Some c" for cfg c
    using s' that by (simp add: clients_ok_def)
  have targets: "sb_target c = sandbox_url cfg" if "ct_settings s' = Some cfg" "ct_stub s' = Some c" for cfg c
    using s' that by (simp add: clients_ok_def)
  have stay: "\<forall>c. ct_pinecone s = Some c \<longrightarrow> ct_pinecone s' = Some c" "\<forall>c. ct_stub s = Some c \<longrightarrow> ct_stub s' = Some c"
    using ss by (simp_all add: settled_def)
  have later: "ct_settings s' = Some cfg \<and> (\<forall>c. ct_redis s' = Some c \<longrightarrow> rc_url c = redis_url cfg)
      \<and> (\<forall>c. ct_pinecone s' = Some c \<longrightarrow> pc_api_key c = pinecone_api_key cfg)
      \<and> (\<forall>c. ct_stub s' = Some c \<longrightarrow> sb_target c = sandbox_url cfg)" if "ct_settings s = Some cfg" for cfg
    using kept [OF that] urls keys targets by (intro conjI allI impI) assumption+
  then have later: "\<forall>cfg. ct_settings s = Some cfg \<longrightarrow> ct_settings s' = Some cfg
         \<and> (\<forall>c. ct_redis s' = Some c \<longrightarrow> rc_url c = redis_url cfg)
         \<and> (\<forall>c. ct_pinecone s' = Some c \<longrightarrow> pc_api_key c = pinecone_api_key cfg)
         \<and> (\<forall>c. ct_stub s' = Some c \<longrightarrow> sb_target c = sandbox_url cfg)" by (intro allI impI)
  show ?thesis by (rule conjI [OF one [THEN conjunct1] conjI [OF one [THEN conjunct2]
      conjI [OF made(1) conjI [OF made(2) conjI [OF made(3) conjI [OF later conjI [OF stay]]]]]]])
qed

definition plain_outside :: outside where
  "plain_outside = \<lparr>os_source = (\<lambda>n. plain_source (if n = 0 then ''openai_only'' else ''multi'')), os_redis = (\<lambda>n u. None),
     os_close = (\<lambda>n. None), os_pinecone = (\<lambda>n k. None), os_stub = (\<lambda>n k. None), os_index = (\<lambda>n k. None), os_list = (\<lambda>n. None),
     os_create = (\<lambda>n. None)\<rparr>"

theorem client_singletons_witness:
  "\<exists>cfg c. ct_settings (fold (perform plain_outside) [CloseRedis, GetRedis, GetSettings] (fold (perform plain_outside) [GetRedis] (no_clients [])))
       = Some cfg \<and> provider_mode cfg = ''openai_only''
     \<and> ct_redis (fold (perform plain_outside) [CloseRedis, GetRedis, GetSettings] (fold (perform plain_outside) [GetRedis] (no_clients []))) = Some c
     \<and> rc_url c = redis_url cfg"
proof -
  let ?s = "fold (perform plain_outside) [GetRedis] (no_clients [])"
  let ?s' = "fold (perform plain_outside) [CloseRedis, GetRedis, GetSettings] ?s"
  have "map_option provider_mode (ct_settings ?s) = Some ''openai_only''" by code_simp
  then obtain cfg where cfg: "ct_settings ?s = Some cfg" "provider_mode cfg = ''openai_only''" by auto
  have "ct_redis ?s' \<noteq> None" by code_simp
  then obtain c where c: "ct_redis ?s' = Some c" by blast
  from client_singletons [of plain_outside "[GetRedis]" "[]" "[CloseRedis, GetRedis, GetSettings]"] cfg c show ?thesis by blast
qed

end
