(* ===== verification/Sandbox.thy ===== *)
theory Sandbox
  imports PyFloat "HOL-Library.Word"
begin

text \<open>
  The sandbox server (\<open>sandbox/server.py\<close>), a process of its own: a request's code is written
  to a temporary file, run by a fresh interpreter under a time limit, and its output decoded and
  cut. Texts are lists of code points here, as programs may print anything. What the operating
  system does is the parameter \<open>host_os\<close>; the server's state is the files it has written and
  the children it has not reaped. A call that never returns is \<open>None\<close>.
\<close>

section \<open>UTF-8 as the standard library decodes it\<close>

type_synonym utext = "nat list"
type_synonym byte = "8 word"


definition encode_char :: "nat \<Rightarrow> nat list" where
  "encode_char c =
     (if c < 0x80 then [c]
      else if c < 0x800 then [192 + c div 64, 128 + c mod 64]
      else if c < 0x10000 then [224 + c div 4096, 128 + c div 64 mod 64, 128 + c mod 64]
      else [240 + c div 262144, 128 + c div 4096 mod 64, 128 + c div 64 mod 64, 128 + c mod 64])"

definition utf8_encode :: "utext \<Rightarrow> byte list" where
  "utf8_encode t = map of_nat (concat (map encode_char t))"

text \<open>A leading byte says how many bytes follow, the bits it carries itself and the range of the next byte.\<close>

definition lead :: "nat \<Rightarrow> (nat \<times> nat \<times> nat \<times> nat) option" where
  "lead b =
     (if 0xC2 \<le> b \<and> b \<le> 0xDF then Some (1, b - 0xC0, 0x80, 0xBF)
      else if b = 0xE0 then Some (2, 0, 0xA0, 0xBF)
      else if b = 0xED then Some (2, 13, 0x80, 0x9F)
      else if 0xE1 \<le> b \<and> b \<le> 0xEF then Some (2, b - 0xE0, 0x80, 0xBF)
      else if b = 0xF0 then Some (3, 0, 0x90, 0xBF)
      else if 0xF1 \<le> b \<and> b \<le> 0xF3 then Some (3, b - 0xF0, 0x80, 0xBF)
      else if b = 0xF4 then Some (3, 4, 0x80, 0x8F)
      else None)"

fun continue :: "nat \<Rightarrow> nat \<Rightarrow> nat \<Rightarrow> nat \<Rightarrow> nat list \<Rightarrow> nat option \<times> nat list" where
  "continue 0 v lo hi bs = (Some v, bs)"
| "continue (Suc n) v lo hi [] = (None, [])"
| "continue (Suc n) v lo hi (b # bs) =
     (if lo \<le> b \<and> b \<le> hi then continue n (v * 64 + b mod 64) 0x80 0xBF bs else (None, b # bs))"

lemma continue_length: "length (snd (continue n v lo hi bs)) \<le> length bs"
  by (induction n v lo hi bs rule: continue.induct) auto

text \<open>Each maximal ill-formed prefix becomes one replacement character.\<close>

definition replacement :: nat where "replacement = 0xFFFD"

function decode_bytes :: "nat list \<Rightarrow> utext" where
  "decode_bytes [] = []"
| "decode_bytes (b # bs) =
     (if b < 0x80 then b # decode_bytes bs
      else case lead b of
        None \<Rightarrow> replacement # decode_bytes bs
      | Some (n, v, lo, hi) \<Rightarrow>
          (let r = continue n v lo hi bs
           in (case fst r of None \<Rightarrow> replacement | Some c \<Rightarrow> c) # decode_bytes (snd r)))"
  by pat_completeness auto
termination by (relation "measure length") (auto simp: less_Suc_eq_le continue_length)

definition utf8_decode :: "byte list \<Rightarrow> utext" where
  "utf8_decode bs = decode_bytes (map unat bs)"






section \<open>The server\<close>

definition stdout_limit :: nat where "stdout_limit = 5000"
definition stderr_limit :: nat where "stderr_limit = 2000"
definition timeout_ceiling :: int where "timeout_ceiling = 30"

text \<open>What a started interpreter does: the bytes it prints, the code it exits with, the seconds until it
  has exited and its pipes are closed, if ever, and whether a child of its own keeps the pipes
  open when the interpreter is killed.\<close>

record process =
  pr_stdout :: "byte list"
  pr_stderr :: "byte list"
  pr_returncode :: int
  pr_ends :: "rat option"
  pr_pipes_held :: bool

text \<open>The operating system, asked at a time: a new temporary file, writing it, starting an
  interpreter, what that does with the script, removing the file, the monotonic clock.\<close>

record host_os =
  os_tempfile :: "nat \<Rightarrow> string result"
  os_write :: "nat \<Rightarrow> unit result"
  os_spawn :: "nat \<Rightarrow> unit result"
  os_process :: "nat \<Rightarrow> byte list \<Rightarrow> process"
  os_unlink :: "nat \<Rightarrow> bool"
  os_monotonic :: "nat \<Rightarrow> rat"

record host =
  ho_tick :: nat
  ho_files :: "(string \<times> byte list) list"

definition htick :: "host \<Rightarrow> host" where
  "htick h = h\<lparr>ho_tick := Suc (ho_tick h)\<rparr>"

record run_result =
  rn_success :: bool
  rn_stdout :: utext
  rn_stderr :: utext
  rn_exit_code :: int
  rn_wall_ms :: int

definition utext_of :: "string \<Rightarrow> utext" where
  "utext_of s = map code s"

text \<open>\<open>int((time.monotonic() - t0) * 1000)\<close>\<close>

definition truncate_rat :: "rat \<Rightarrow> int" where
  "truncate_rat q = (if q < 0 then - \<lfloor>- q\<rfloor> else \<lfloor>q\<rfloor>)"

definition wall_ms :: "host_os \<Rightarrow> rat \<Rightarrow> nat \<Rightarrow> int" where
  "wall_ms os t0 n = truncate_rat (fl (fl (os_monotonic os n - t0) * 1000))"

definition in_time :: "process \<Rightarrow> int \<Rightarrow> bool" where
  "in_time p timeout = (case pr_ends p of None \<Rightarrow> False | Some d \<Rightarrow> d \<le> of_int timeout)"

definition unlink :: "host_os \<Rightarrow> string \<Rightarrow> host \<Rightarrow> host" where
  "unlink os path h = htick (if os_unlink os (ho_tick h) then h\<lparr>ho_files := filter (\<lambda>(p, _). p \<noteq> path) (ho_files h)\<rparr> else h)"

definition finished_result :: "process \<Rightarrow> int \<Rightarrow> run_result" where
  "finished_result p wall = \<lparr>rn_success = pr_returncode p = 0, rn_stdout = utf8_decode (pr_stdout p),
     rn_stderr = utf8_decode (pr_stderr p), rn_exit_code = pr_returncode p, rn_wall_ms = wall\<rparr>"

definition failed_result :: "utext \<Rightarrow> int \<Rightarrow> run_result" where
  "failed_result err wall = \<lparr>rn_success = False, rn_stdout = [], rn_stderr = err, rn_exit_code = - 1, rn_wall_ms = wall\<rparr>"

text \<open>Writing fails outside the \<open>try\<close>; a child that cannot be started leaves the file, as the
  \<open>finally\<close> belongs to the inner block. After a timeout the killed child's pipes are read to
  their end, without a limit.\<close>

definition run_script :: "host_os \<Rightarrow> string \<Rightarrow> byte list \<Rightarrow> int \<Rightarrow> host \<Rightarrow> (run_result \<times> host) option" where
  "run_script os path script timeout h =
     (let t0 = os_monotonic os (ho_tick h); h1 = htick h in
      case os_spawn os (ho_tick h1) of
        Inl e \<Rightarrow> Some (failed_result (take stderr_limit (utext_of (exn_str e))) (wall_ms os t0 (ho_tick (htick h1))), htick (htick h1))
      | Inr _ \<Rightarrow>
          (let p = os_process os (ho_tick h1) script; h2 = htick h1 in
           if in_time p timeout
           then (let h3 = unlink os path h2 in Some (finished_result p (wall_ms os t0 (ho_tick h3)), htick h3))
           else if pr_pipes_held p then None
           else Some (failed_result (utext_of (''timeout after '' @ str_of_int timeout @ ''s'')) (wall_ms os t0 (ho_tick h2)),
                      unlink os path (htick h2))))"

definition run_code :: "host_os \<Rightarrow> utext \<Rightarrow> int \<Rightarrow> host \<Rightarrow> (run_result result \<times> host) option" where
  "run_code os src timeout h =
     (case os_tempfile os (ho_tick h) of
        Inl e \<Rightarrow> Some (Inl e, htick h)
      | Inr path \<Rightarrow>
          (let h1 = htick h in
           case os_write os (ho_tick h1) of
             Inl e \<Rightarrow> Some (Inl e, htick (h1\<lparr>ho_files := (path, []) # ho_files h1\<rparr>))
           | Inr _ \<Rightarrow>
               map_option (\<lambda>(r, h2). (Inr r, h2))
                 (run_script os path (utf8_encode src) timeout
                    (htick (h1\<lparr>ho_files := (path, utf8_encode src) # ho_files h1\<rparr>)))))"

text \<open>The messages, whose integers have 32 bits: a value outside is refused when a message is made.\<close>

record execute_request =
  xr_code :: utext
  xr_timeout_seconds :: "32 word"
  xr_task_id :: string

record execute_response =
  xp_success :: bool
  xp_stdout :: utext
  xp_stderr :: utext
  xp_exit_code :: "32 word"
  xp_wall_ms :: "32 word"

definition int32_field :: "int \<Rightarrow> 32 word result" where
  "int32_field n = (if - (2 ^ 31) \<le> n \<and> n < 2 ^ 31 then Inr (word_of_int n)
     else Inl (Exn ValueError (''Value out of range: '' @ str_of_int n)))"

definition response_of :: "run_result \<Rightarrow> execute_response result" where
  "response_of r =
     rbind (int32_field (rn_exit_code r)) (\<lambda>exit_code.
     rbind (int32_field (rn_wall_ms r)) (\<lambda>wall.
     Inr \<lparr>xp_success = rn_success r, xp_stdout = take stdout_limit (rn_stdout r),
          xp_stderr = take stderr_limit (rn_stderr r), xp_exit_code = exit_code, xp_wall_ms = wall\<rparr>))"

definition effective_timeout :: "execute_request \<Rightarrow> int" where
  "effective_timeout req =
     (let t = sint (xr_timeout_seconds req) in min (if t = 0 then timeout_ceiling else t) timeout_ceiling)"

text \<open>An exception of the handler is the call's error.\<close>

definition execute :: "host_os \<Rightarrow> execute_request \<Rightarrow> host \<Rightarrow> (execute_response result \<times> host) option" where
  "execute os req h =
     map_option (\<lambda>(r, h'). (rbind r response_of, h')) (run_code os (xr_code req) (effective_timeout req) h)"

section \<open>Starting the server\<close>

text \<open>\<open>int(s)\<close>: white space around, a sign, single underscores between digits.\<close>

fun dec_number :: "bool \<Rightarrow> int \<Rightarrow> string \<Rightarrow> int option" where
  "dec_number ok acc [] = (if ok then Some acc else None)"
| "dec_number ok acc (c # s) =
     (if is_digit c then dec_number True (10 * acc + int (code c - 48)) s
      else if c = CHR ''_'' \<and> ok then dec_number False acc s
      else None)"

definition py_int :: "string \<Rightarrow> int result" where
  "py_int s =
     (let value = (case strip s of
              [] \<Rightarrow> None
            | c # r \<Rightarrow> if c = CHR ''-'' then map_option uminus (dec_number False 0 r)
                      else if c = CHR ''+'' then dec_number False 0 r
                      else dec_number False 0 (c # r))
      in case value of
           Some i \<Rightarrow> Inr i
         | None \<Rightarrow> Inl (Exn ValueError (''invalid literal for int() with base 10: '' @ py_repr s)))"

text \<open>The server that runs until it is terminated: its workers, the address it is bound to.\<close>

record grpc_server =
  gs_workers :: nat
  gs_servicer :: string
  gs_address :: string

definition serve_sandbox :: "(string \<Rightarrow> pyexn option) \<Rightarrow> string dict \<Rightarrow> grpc_server result" where
  "serve_sandbox bind_error environ =
     rbind (py_int (dget_or environ ''SANDBOX_GRPC_PORT'' ''50051'')) (\<lambda>port.
     let address = ''[::]:'' @ str_of_int port in
     case bind_error address of
       Some e \<Rightarrow> Inl e
     | None \<Rightarrow> Inr \<lparr>gs_workers = 4, gs_servicer = ''ExecutorServicer'', gs_address = address\<rparr>)"

lemma serve_default: "serve_sandbox (\<lambda>a. None) [] = Inr \<lparr>gs_workers = 4, gs_servicer = ''ExecutorServicer'', gs_address = ''[::]:50051''\<rparr>"
  by code_simp

section \<open>Properties\<close>

lemma htick_simps [simp]: "ho_tick (htick h) = Suc (ho_tick h)" "ho_files (htick h) = ho_files h"
  by (simp_all add: htick_def)

lemma unlink_fresh: "os_unlink os (ho_tick h) \<Longrightarrow> ho_files h = (path, s) # fs \<Longrightarrow> path \<notin> fst ` set fs \<Longrightarrow>
    ho_files (unlink os path h) = fs"
  by (force simp: unlink_def filter_id_conv)

lemma effective_timeout_le: "effective_timeout req \<le> 30"
  by (simp add: effective_timeout_def timeout_ceiling_def Let_def)

lemma response_Inr:
  assumes "response_of r = Inr rp"
  shows "xp_success rp = rn_success r" "xp_stdout rp = take 5000 (rn_stdout r)" "xp_stderr rp = take 2000 (rn_stderr r)"
    "sint (xp_exit_code rp) = rn_exit_code r" "sint (xp_wall_ms rp) = rn_wall_ms r"
  using assms by (auto simp: response_of_def rbind_eq_Inr int32_field_def stdout_limit_def stderr_limit_def
      signed_take_bit_int_eq_self sint_sbintrunc' split: if_splits)

lemma run_code_result: "run_code os src timeout h = Some (Inr r, h') \<Longrightarrow> rn_success r \<longleftrightarrow> rn_exit_code r = 0"
  by (auto simp: run_code_def run_script_def finished_result_def failed_result_def Let_def
      split: sum.splits if_splits)

text \<open>What a request comes to, once its script is written. A child that cannot be started is a failed
  run with the error as its message, and its script stays behind. A child that ends in time is
  reported with its exit code and decoded output, one that does not is killed and reported as
  timed out; both leave the files as they were. But when the killed child has left a child of
  its own that holds the pipes, the request is never answered.\<close>

theorem execute_outcomes:
  assumes "os_tempfile os (ho_tick h) = Inr path" "os_write os (ho_tick h + 1) = Inr ()" "path \<notin> fst ` set (ho_files h)"
    and "\<And>k. os_unlink os k"
  shows "case os_spawn os (ho_tick h + 3) of
      Inl e \<Rightarrow> \<exists>wall h'. execute os req h = Some (response_of (failed_result (take 2000 (utext_of (exn_str e))) wall), h')
          \<and> ho_files h' = (path, utf8_encode (xr_code req)) # ho_files h
    | Inr _ \<Rightarrow>
        (let p = os_process os (ho_tick h + 3) (utf8_encode (xr_code req)); limit = effective_timeout req in
         if in_time p limit
         then \<exists>wall h'. execute os req h = Some (response_of (finished_result p wall), h') \<and> ho_files h' = ho_files h
         else if pr_pipes_held p then execute os req h = None
         else \<exists>wall h'. execute os req h
            = Some (response_of (failed_result (utext_of (''timeout after '' @ str_of_int limit @ ''s'')) wall), h')
            \<and> ho_files h' = ho_files h)"
proof (cases "os_spawn os (ho_tick h + 3)")
  case (Inl e)
  with assms show ?thesis
    by (auto simp: execute_def run_code_def run_script_def Let_def numeral_3_eq_3 stderr_limit_def)
next
  case (Inr u)
  with assms show ?thesis
    by (auto simp: execute_def run_code_def run_script_def Let_def numeral_3_eq_3 intro!: unlink_fresh)
qed

definition calm_process :: process where
  "calm_process = \<lparr>pr_stdout = [104, 105], pr_stderr = [], pr_returncode = 0, pr_ends = Some 1, pr_pipes_held = False\<rparr>"

definition calm_host :: "process \<Rightarrow> host_os" where
  "calm_host p = \<lparr>os_tempfile = \<lambda>n. Inr ''/tmp/a.py'', os_write = \<lambda>n. Inr (), os_spawn = \<lambda>n. Inr (),
     os_process = \<lambda>n s. p, os_unlink = \<lambda>n. True, os_monotonic = \<lambda>n. 0\<rparr>"

definition empty_host :: host where
  "empty_host = \<lparr>ho_tick = 0, ho_files = []\<rparr>"

definition plain_request :: execute_request where
  "plain_request = \<lparr>xr_code = [112], xr_timeout_seconds = 0, xr_task_id = []\<rparr>"

theorem execute_outcomes_witness:
  "\<exists>wall h'. execute (calm_host calm_process) plain_request empty_host
      = Some (response_of (finished_result calm_process wall), h') \<and> ho_files h' = []"
proof -
  let ?os = "calm_host calm_process"
  have "in_time calm_process (effective_timeout plain_request)"
    by (simp add: in_time_def calm_process_def effective_timeout_def plain_request_def timeout_ceiling_def)
  with execute_outcomes [of ?os empty_host "''/tmp/a.py''" plain_request] show ?thesis
    by (simp add: calm_host_def empty_host_def)
qed

text \<open>Every answer is bounded: at most 5000 characters of output and 2000 of errors, under a limit that
  never exceeds 30 seconds whatever was asked for, and it reports success exactly when the
  exit code is zero.\<close>

theorem execute_reply_bounded:
  assumes "execute os req h = Some (Inr rp, h')"
  shows "length (xp_stdout rp) \<le> 5000 \<and> length (xp_stderr rp) \<le> 2000 \<and> effective_timeout req \<le> 30
    \<and> (xp_success rp \<longleftrightarrow> sint (xp_exit_code rp) = 0)"
proof -
  from assms obtain r where "run_code os (xr_code req) (effective_timeout req) h = Some (Inr r, h')" "response_of r = Inr rp"
    by (auto simp: execute_def rbind_eq_Inr)
  with run_code_result response_Inr [of r rp] show ?thesis by (simp add: effective_timeout_le)
qed

theorem execute_reply_bounded_witness:
  "\<exists>rp h'. execute (calm_host calm_process) plain_request empty_host = Some (Inr rp, h') \<and> length (xp_stdout rp) \<le> 5000"
proof -
  have "\<exists>rp h'. execute (calm_host calm_process) plain_request empty_host = Some (Inr rp, h')"
    by (simp add: execute_def run_code_def run_script_def calm_host_def empty_host_def plain_request_def Let_def in_time_def
        effective_timeout_def timeout_ceiling_def calm_process_def wall_ms_def truncate_rat_def fl_0 response_of_def
        int32_field_def finished_result_def)
  with execute_reply_bounded show ?thesis by blast
qed



end
