(* ===== verification/Spec2Isabelle.thy ===== *)
theory Spec2Isabelle
  imports Evaluation Lifecycle Clients Sandbox
begin

text \<open>
  Verification library of Project Nexus, a service that lets a team of language model agents
  work on a user's goal. This is the root; it imports every theory and documents them.

  \<^bold>\<open>The program.\<close> A client opens a session over REST (\<open>backend/api/routes/sessions.py\<close>) and runs it
  over a web socket (\<open>backend/api/ws/run.py\<close>). The run is a graph (\<open>backend/core/graph.py\<close>) of five
  agents (\<open>backend/agents\<close>): the planner asks a model for a task graph, the researcher calls tools
  for its tasks, the executor has code written and run in a sandbox (\<open>sandbox/server.py\<close>), the
  verifier grades, and the reflector scores. Below the threshold 0.85 the planner is asked
  again, three iterations at most. Good results are remembered in a vector index
  (\<open>backend/core/memory.py\<close>). Around this are accounts and tokens, the choice of model provider
  (\<open>backend/core/models.py\<close>), probes, and two scripts (\<open>scripts\<close>).

  \<^bold>\<open>The theories\<close>, in the order they build on each other:

  \<^item> \<open>Prelude\<close>: exceptions as values, Python's string operations, dictionaries as association lists.
    \<open>PyFloat\<close>: binary64 as exact rationals with its rounding, \<open>sum\<close>, \<open>round\<close>, \<open>repr\<close>; the locale
    \<open>rounding\<close> states what scores need of a rounding and is interpreted by \<open>fl\<close>. \<open>Json\<close>: \<open>loads\<close> and
    \<open>dumps\<close>. \<open>FloatText\<close> and \<open>JsonText\<close>: seventeen digits determine a float, and \<open>loads\<close> undoes \<open>dumps\<close>. \<open>State\<close>: \<open>core/state.py\<close> and the merging of partial updates.
  \<^item> \<open>Database\<close>: the tables, their constraints (\<open>db_ok\<close>) and \<open>UUID\<close>. \<open>World\<close>: \<open>config.py\<close>, the record
    \<open>env\<close> of everything outside (models, services, clock, hashing, signing), the record \<open>world\<close> of
    all mutable state, actions with exceptions, Redis; locale \<open>world_order\<close> (a relation that every
    action of a program keeps) and locale \<open>ttl_store\<close> (a cache with expiry), interpreted by Redis.
  \<^item> \<open>Context\<close> (\<open>core/context.py\<close>), \<open>Router\<close> (\<open>core/models.py\<close>, \<open>routes/config.py\<close>, the start-up part of
    \<open>main.py\<close>), \<open>BaseAgent\<close> (\<open>agents/base.py\<close>), \<open>LoopDetector\<close> (\<open>core/loop_detector.py\<close>).
  \<^item> \<open>TaskDag\<close> and \<open>Planner\<close> (\<open>agents/planner.py\<close>), \<open>Topo\<close> and \<open>Researcher\<close> (\<open>agents/researcher.py\<close>),
    \<open>Tools\<close> (\<open>tools\<close>), \<open>Executor\<close>, \<open>Verifier\<close>, \<open>Reflector\<close> (the agents of these names).
  \<^item> \<open>Pipeline\<close>: nodes, edges and runs of the graph over any agents, the abstract machine
    \<open>spec_step\<close>, and the locale \<open>agent_contract\<close> with what a graph of contract-keeping agents does.
    \<open>Graph\<close>: the modelled agents keep the contract (\<open>interpretation nexus\<close>).
  \<^item> \<open>Auth\<close> (\<open>api/auth.py\<close>, \<open>api/deps.py\<close>, \<open>db/postgres.py\<close>), \<open>Sessions\<close> (\<open>routes/sessions.py\<close>,
    \<open>api/schemas.py\<close>), \<open>Memory\<close> (\<open>core/memory.py\<close>), \<open>WsRun\<close> (\<open>ws/run.py\<close>).
  \<^item> \<open>Sandbox\<close> (\<open>sandbox/server.py\<close>), \<open>Operations\<close> (\<open>main.py\<close>, \<open>routes/health.py\<close>,
    \<open>scripts/reset_memory.py\<close>), \<open>Service\<close> (all endpoints and sockets together), \<open>Evaluation\<close>
    (\<open>scripts/eval_accuracy.py\<close>); the locale \<open>authority\<close> of \<open>Service\<close> says what statements do on whose
    authority. \<open>Lifecycle\<close>: an abstract system of sessions and the tasks that run them, and the
    locale \<open>simulation\<close> by which the service refines it.
  \<^item> \<open>Clients\<close>: reading settings (\<open>config.py\<close>), the clients kept in module variables (\<open>db/redis.py\<close>,
    \<open>db/pinecone_client.py\<close>, \<open>tools/code_executor.py\<close>) and the checkpointer (\<open>core/checkpointer.py\<close>), on a
    state of their own.

  \<^bold>\<open>How code is modelled.\<close> A function of the source is a function of the same name that returns a
  \<open>result\<close> (\<open>Inl\<close> the exception, \<open>Inr\<close> the value); one with effects is an action from a world to a
  result and a world. Everything outside the repository is a field of \<open>env\<close>, asked with the number
  of external events so far (\<open>w_tick\<close>), so that it may answer differently every time; where a
  proof needs documented behaviour of it, that is a named hypothesis (\<open>jwt_law\<close>, \<open>bcrypt_law\<close>,
  \<open>index_law\<close>, \<open>scan_law\<close>, \<open>pg_up\<close>). Relations kept by every action of a program (accounts
  untouched, constraints kept, one session only) are interpretations of \<open>world_order\<close>.

  \<^bold>\<open>What is shown.\<close>

  \<^item> Orchestration: a run ends within sixteen super-steps whatever the models answer, passes the
    quality gate or carries the disclaimer of its reason, visits the agents in rounds, makes at most 117 model
    calls, and refines \<open>spec_step\<close>. A planner failure is logged and the run goes on.
  \<^item> The whole service: whatever clients do, in any order and interleaving of requests and sockets,
    the schema's constraints hold, accounts and the owners and goals of sessions persist, and
    nothing done on the authority of others touches a user's sessions. Every step of it is a step
    of the abstract system of \<open>Lifecycle\<close>, from which it follows that a session never becomes pending
    again, has no task under way while it is pending, and ends only after a task was started.
    Every socket starts at most one task, and one task may be started on each of two sockets.
  \<^item> Clients: one of each kind at a time, made with the one value of the settings that was read.
  \<^item> Plans: an accepted plan is well formed, references known tasks and is acyclic; the depth
    first search accepts exactly the acyclic graphs; each level of the topological order holds
    the tasks whose dependencies are placed; the executor accounts for every task of the plan.
  \<^item> Scores: all scores are finite and in the unit interval, the overall score is the mean of the
    five dimensions up to rounding, and a bare claim stands when no dimension is positive.
  \<^item> Sessions and memory: registered accounts work, other users' sessions cannot be told from
    missing ones, listing pages partition the sessions when no two were made at the same time, only good results are stored and recall
    stays within the user's namespace; cached embeddings read back to the last bit until they expire.
  \<^item> The web socket: the owner of a pending session is let in and nobody else; a started task always
    ends, and its frames report a way through the graph, agent by agent, with scores and notices of
    replanning where they belong (\<open>reported\<close>); any interleaving of client and tasks touches only
    the connection's own session; wherever the task is, an abort is overwritten when it ends; and
    the script that evaluates runs reads them as the server ended them.
  \<^item> The sandbox, the reset script and the evaluation: what each request or run comes to on every
    branch; UTF-8 text survives the sandbox.
  \<^item> Defects the model showed are theorems too (results lost at the end of a run, aborts
    overwritten, loop detection that raises, tools that cannot be called, a path check that
    accepts siblings, completed sessions that cannot be read, a session run twice, requests that are never answered);
    the manifest lists them as findings.

  \<^bold>\<open>Bounds and fuel.\<close> The graph library stops a run after 25 super-steps (\<open>recursion_limit\<close>); three
  iterations of five nodes and the output node are sixteen, so the limit is never what ends a
  run. The task of a web socket takes eighteen steps: starting, sixteen nodes, and the end. The
  depth first search has fuel one above the number of tasks, which bounds its depth
  (\<open>dfs_enough_fuel\<close>). The JSON scanner's fuel is the length of the document, and it never runs out
  (\<open>loads_scan_fuel\<close>). A sandbox call or a script that waits for ever is \<open>None\<close>.

  \<^bold>\<open>Conventions.\<close> Strings hold the characters below 256, with one of them standing for each of the
  em dash and the arrow the program prints; only the sandbox, whose texts are arbitrary, uses
  code points. The models of \<open>env\<close> take
  the settings as fixed and each client as there, which is what \<open>Clients\<close> shows of them. Floats are rationals with binary64 rounding, infinities and NaN. Dictionaries
  keep insertion order. The graph library merges updates key by key. Coroutines gathered by the
  researcher run in the order of the list. A REST request is one step. A web socket's loop and the
  tasks it started interleave as steps of a task and of the loop. A task's step is coarser than the
  code's stretches between awaits: it begins the run, runs one node with its frames, or ends the
  run, each with at most one statement on the database, which the rest of the step leaves alone.
  Rows that a query does not order come in an order of the server's own at every query
  (\<open>e_row_order\<close>); the narrowing of scores to the column type \<open>REAL\<close> is left out.

  \<^bold>\<open>Not modelled.\<close> Logging, metrics and printed progress; waiting between retries; the limit of the
  interpreter's recursion; request rate limits and CORS, which are configuration of the web
  framework; the metrics endpoint, which prints the counters of a library; the packing of
  vectors as bytes in \<open>rag_recall\<close>, which nothing calls; symbolic links; the front end, written in TypeScript; generated
  stubs and deployment files.
\<close>

end
